(* ===== verification/Prelude.thy ===== *)
theory Prelude
  imports Main "HOL-Library.Word" "HOL-Library.Product_Lexorder"
begin

text \<open>
  The vocabulary shared by every component of the development.

  The code reports a broken expectation in three ways: a failed \<open>assert\<close>, a
  \<open>LOG_FATAL\<close> (which aborts in the destructor of \<open>Logger\<close>), and undefined behaviour (a
  dangling pointer, a read past an array). Each of them is a value of \<open>error\<close> here, and an
  operation that can run into one returns \<open>error + 'a\<close>; \<open>rbind\<close> is the sequencing of two
  statements, \<open>guard\<close> an \<open>assert\<close>.

  The theory also holds the library containers the code uses (\<open>std::set\<close> as a sorted list
  without duplicates, \<open>std::search\<close>, \<open>std::find\<close>), C's truncating division, the decimal
  conversions of \<open>snprintf\<close>, and the generic lemmas the component theories share.
\<close>

named_theorems result_simps \<open>equations that evaluate the result monad\<close>

section \<open>Results\<close>

datatype error =
    Assertion string \<comment> \<open>a failed \<open>assert\<close>, with the asserted condition\<close>
  | Fatal string \<comment> \<open>\<open>LOG_FATAL\<close> or \<open>LOG_SYSFATAL\<close>, which abort\<close>
  | Undefined string \<comment> \<open>undefined behaviour of C++\<close>

type_synonym 'a result = "error + 'a"

definition rbind :: "'a result \<Rightarrow> ('a \<Rightarrow> 'b result) \<Rightarrow> 'b result" where
  "rbind m f = (case m of Inl e \<Rightarrow> Inl e | Inr x \<Rightarrow> f x)"

definition guard :: "bool \<Rightarrow> string \<Rightarrow> unit result" where
  "guard b msg = (if b then Inr () else Inl (Assertion msg))"

definition is_ok :: "'a result \<Rightarrow> bool" where
  "is_ok r = (case r of Inl _ \<Rightarrow> False | Inr _ \<Rightarrow> True)"

lemma rbind_Inl [simp, result_simps]: "rbind (Inl e) f = Inl e"
  by (simp add: rbind_def)

lemma rbind_Inr [simp, result_simps]: "rbind (Inr x) f = f x"
  by (simp add: rbind_def)

lemma rbind_Inr_right [simp]: "rbind m Inr = m"
  by (simp add: rbind_def split: sum.split)

lemma rbind_assoc: "rbind (rbind m f) g = rbind m (\<lambda>x. rbind (f x) g)"
  by (simp add: rbind_def split: sum.split)

lemma guard_True [simp, result_simps]: "guard True msg = Inr ()"
  by (simp add: guard_def)

lemma guard_False [simp, result_simps]: "guard False msg = Inl (Assertion msg)"
  by (simp add: guard_def)

lemma guard_eq_Inr [simp]: "guard b msg = Inr u \<longleftrightarrow> b"
  by (simp add: guard_def)

lemma guard_eq_Inl [simp]: "guard b msg = Inl e \<longleftrightarrow> \<not> b \<and> e = Assertion msg"
  by (auto simp: guard_def)

lemma rbind_eq_Inr_conv: "rbind m f = Inr y \<longleftrightarrow> (\<exists>x. m = Inr x \<and> f x = Inr y)"
  by (simp add: rbind_def split: sum.split)

lemma rbind_InrE:
  assumes "rbind m f = Inr y"
  obtains x where "m = Inr x" and "f x = Inr y"
  using assms by (auto simp: rbind_eq_Inr_conv)

lemma is_ok_simps [simp]: "is_ok (Inl e) = False" "is_ok (Inr x) = True"
  by (simp_all add: is_ok_def)

lemma is_ok_iff: "is_ok r \<longleftrightarrow> (\<exists>x. r = Inr x)"
  by (cases r) simp_all

text \<open>Running an operation over a list of inputs: the \<open>for\<close> loops of the code.\<close>

fun rfold :: "('a \<Rightarrow> 's \<Rightarrow> 's result) \<Rightarrow> 'a list \<Rightarrow> 's \<Rightarrow> 's result" where
  "rfold f [] s = Inr s"
| "rfold f (x # xs) s = rbind (f x s) (rfold f xs)"

lemma rfold_Nil_fun [simp]: "rfold f [] = Inr"
  by (rule ext) simp

lemma rfold_append: "rfold f (xs @ ys) s = rbind (rfold f xs s) (rfold f ys)"
proof (induction xs arbitrary: s)
  case (Cons x xs)
  then have "rfold f (xs @ ys) = (\<lambda>s. rbind (rfold f xs s) (rfold f ys))" by blast
  then show ?case by (simp add: rbind_assoc)
qed simp

lemma rfold_invariant:
  assumes "rfold f xs s = Inr t" and "P s"
    and "\<And>x s t. x \<in> set xs \<Longrightarrow> P s \<Longrightarrow> f x s = Inr t \<Longrightarrow> P t"
  shows "P t"
  using assms
proof (induction xs arbitrary: s)
  case Nil
  then show ?case by simp
next
  case (Cons x xs)
  from Cons.prems(1) obtain u where "f x s = Inr u" and "rfold f xs u = Inr t"
    by (auto elim: rbind_InrE)
  then show ?case
    using Cons.IH [of u] Cons.prems(2,3) by (metis list.set_intros)
qed

lemma rfold_total:
  assumes "P s" and "\<And>x s. x \<in> set xs \<Longrightarrow> P s \<Longrightarrow> \<exists>t. f x s = Inr t \<and> P t"
  shows "\<exists>t. rfold f xs s = Inr t \<and> P t"
  using assms
proof (induction xs arbitrary: s)
  case Nil
  then show ?case by simp
next
  case (Cons x xs)
  then obtain u where "f x s = Inr u" and "P u" by (metis list.set_intros(1))
  then show ?case using Cons.IH [of u] Cons.prems(2) by simp
qed

section \<open>C integers\<close>

text \<open>Integer division and remainder of C++ truncate towards zero.\<close>

definition cdiv :: "int \<Rightarrow> int \<Rightarrow> int" where
  "cdiv a b = sgn a * sgn b * (\<bar>a\<bar> div \<bar>b\<bar>)"

definition cmod :: "int \<Rightarrow> int \<Rightarrow> int" where
  "cmod a b = a - cdiv a b * b"

lemma cdiv_nonneg: "0 \<le> a \<Longrightarrow> 0 < b \<Longrightarrow> cdiv a b = a div b"
  by (cases "a = 0") (simp_all add: cdiv_def)

lemma cmod_nonneg: "0 \<le> a \<Longrightarrow> 0 < b \<Longrightarrow> cmod a b = a mod b"
  by (simp add: cmod_def cdiv_nonneg minus_div_mult_eq_mod)

lemma cdiv_minus: "cdiv (- a) b = - cdiv a b"
  by (simp add: cdiv_def)

lemma cmod_minus: "cmod (- a) b = - cmod a b"
  by (simp add: cmod_def cdiv_minus)

section \<open>Decimal numerals\<close>

text \<open>The character classes of the C library, in the "C" locale.\<close>

definition isspace :: "char \<Rightarrow> bool" where
  "isspace c \<longleftrightarrow> c \<in> {CHR '' '', CHR 0x09, CHR 0x0A, CHR 0x0B, CHR 0x0C, CHR 0x0D}"

definition isdigit :: "char \<Rightarrow> bool" where
  "isdigit c \<longleftrightarrow> 48 \<le> (of_char c :: nat) \<and> (of_char c :: nat) \<le> 57"

text \<open>What \<open>%d\<close>, \<open>%u\<close> and \<open>%zd\<close> print, and what \<open>snprintf\<close> leaves in its buffer.\<close>

definition digit_char :: "nat \<Rightarrow> char" where
  "digit_char d = char_of (48 + d)"

fun show_nat :: "nat \<Rightarrow> string" where
  "show_nat n = (if n < 10 then [digit_char n]
                 else show_nat (n div 10) @ [digit_char (n mod 10)])"

declare show_nat.simps [simp del]

definition show_int :: "int \<Rightarrow> string" where
  "show_int i = (if i < 0 then CHR ''-'' # show_nat (nat (- i)) else show_nat (nat i))"

definition snprintf :: "nat \<Rightarrow> string \<Rightarrow> string" where
  \<comment> \<open>The string left in a buffer of \<open>bufsize\<close> bytes: at most \<open>bufsize - 1\<close> characters, then NUL.\<close>
  "snprintf bufsize text = take (bufsize - 1) text"

text \<open>\<open>%5d\<close>: blanks on the left up to the width.\<close>

definition pad_left :: "nat \<Rightarrow> string \<Rightarrow> string" where
  "pad_left w s = replicate (w - length s) (CHR '' '') @ s"

fun read_nat :: "string \<Rightarrow> nat \<Rightarrow> nat" where
  "read_nat [] acc = acc"
| "read_nat (c # cs) acc = read_nat cs (10 * acc + (of_char c - 48))"

text \<open>\<open>atoi\<close> of glibc: \<open>strtol\<close>, which stops at the limits of a 64-bit \<open>long\<close>, truncated to \<open>int\<close>.\<close>

definition atoi :: "string \<Rightarrow> int" where
  "atoi s =
     (let s = dropWhile isspace s;
          (sign, s) = (if s \<noteq> [] \<and> hd s = CHR ''-'' then (- 1, List.tl s)
                       else if s \<noteq> [] \<and> hd s = CHR ''+'' then (1, List.tl s) else (1, s));
          v = sign * int (read_nat (takeWhile isdigit s) 0)
      in sint (word_of_int (max (- (2 ^ 63)) (min (2 ^ 63 - 1) v)) :: 32 word))"

lemma of_char_digit_char: "d < 10 \<Longrightarrow> of_char (digit_char d) = 48 + d"
  by (simp add: digit_char_def)

lemma read_nat_append: "read_nat (xs @ ys) acc = read_nat ys (read_nat xs acc)"
  by (induction xs acc rule: read_nat.induct) simp_all

lemma read_show_nat: "read_nat (show_nat n) 0 = n"
proof (induction n rule: show_nat.induct)
  case (1 n)
  show ?case
  proof (cases "n < 10")
    case True
    then show ?thesis by (simp add: show_nat.simps [of n] of_char_digit_char)
  next
    case False
    with 1 have "read_nat (show_nat (n div 10)) 0 = n div 10" by simp
    with False show ?thesis
      by (simp add: show_nat.simps [of n] read_nat_append of_char_digit_char)
  qed
qed

lemma show_nat_inj [simp]: "show_nat m = show_nat n \<longleftrightarrow> m = n"
  by (metis read_show_nat)

lemma show_nat_nonempty [simp]: "show_nat n \<noteq> []"
  by (subst show_nat.simps) simp

lemma length_show_nat_le: "n < 10 ^ k \<Longrightarrow> 0 < k \<Longrightarrow> length (show_nat n) \<le> k"
proof (induction k arbitrary: n)
  case 0
  then show ?case by simp
next
  case (Suc k)
  show ?case
  proof (cases "n < 10")
    case True
    then show ?thesis by (simp add: show_nat.simps [of n])
  next
    case False
    with Suc.prems have "n div 10 < 10 ^ k" by (simp add: less_mult_imp_div_less mult.commute)
    moreover have "0 < k" using False Suc.prems by (cases k) auto
    ultimately show ?thesis using Suc.IH [of "n div 10"] False
      by (simp add: show_nat.simps [of n])
  qed
qed

lemma show_nat_bound: "length (show_nat n) \<le> k \<Longrightarrow> n < 10 ^ k"
proof (induction k arbitrary: n)
  case 0
  then show ?case using show_nat_nonempty [of n] by simp
next
  case (Suc k)
  show ?case
  proof (cases "n < 10")
    case True
    also have "(10::nat) \<le> 10 ^ Suc k" by simp
    finally show ?thesis .
  next
    case False
    with Suc.prems have "length (show_nat (n div 10)) \<le> k" by (simp add: show_nat.simps [of n])
    from Suc.IH [OF this] have "n div 10 < 10 ^ k" .
    then have "n div 10 * 10 + n mod 10 < 10 ^ k * 10" by linarith
    then show ?thesis by (simp add: mult.commute)
  qed
qed

lemma show_nat_digits: "c \<in> set (show_nat n) \<Longrightarrow> \<exists>d<10. c = digit_char d"
proof (induction n rule: show_nat.induct)
  case (1 n)
  note IH = "1.IH"
  show ?case
  proof (cases "n < 10")
    case True
    then show ?thesis using "1.prems" by (auto simp: show_nat.simps [of n])
  next
    case False
    then consider "c \<in> set (show_nat (n div 10))" | "c = digit_char (n mod 10)"
      using "1.prems" by (auto simp: show_nat.simps [of n])
    then show ?thesis
    proof cases
      case 1
      with IH False show ?thesis by blast
    next
      case 2
      then show ?thesis by (intro exI [of _ "n mod 10"]) simp
    qed
  qed
qed

lemma isdigit_digit_char [simp]: "d < 10 \<Longrightarrow> isdigit (digit_char d)"
  by (simp add: isdigit_def of_char_digit_char)

lemma show_nat_all_digits: "c \<in> set (show_nat n) \<Longrightarrow> isdigit c"
  using show_nat_digits [of c n] by auto

lemma atoi_show_nat:
  assumes "n < 2 ^ 31"
  shows "atoi (show_nat n) = int n"
proof -
  obtain c cs where n: "show_nat n = c # cs" by (cases "show_nat n") auto
  have c: "isdigit c" using show_nat_all_digits [of c n] n by simp
  then have "dropWhile isspace (show_nat n) = show_nat n" "hd (show_nat n) \<noteq> CHR ''-''" "hd (show_nat n) \<noteq> CHR ''+''"
    by (auto simp: n isdigit_def isspace_def)
  moreover have "read_nat (takeWhile isdigit (show_nat n)) 0 = n"
    using show_nat_all_digits [of _ n] by (simp add: takeWhile_eq_all_conv [THEN iffD2] read_show_nat)
  moreover have "sint (word_of_int (int n) :: 32 word) = int n"
    unfolding sint_sbintrunc' by (rule signed_take_bit_int_eq_self) (use assms in simp_all)
  moreover have "max (- (2 ^ 63)) (min (2 ^ 63 - 1) (int n)) = int n" using assms by simp
  ultimately show ?thesis by (simp add: atoi_def)
qed

lemma digit_char_ne [simp]: "d < 10 \<Longrightarrow> digit_char d \<noteq> CHR ''-''"
  "d < 10 \<Longrightarrow> digit_char d \<noteq> CHR ''#''" "d < 10 \<Longrightarrow> digit_char d \<noteq> CHR '':''"
  by (auto dest: arg_cong [where f = "of_char :: char \<Rightarrow> nat"] simp: of_char_digit_char)

lemma show_int_inj [simp]: "show_int i = show_int j \<longleftrightarrow> i = j"
proof
  have minus: "CHR ''-'' \<notin> set (show_nat n)" for n
    using show_nat_digits [of "CHR ''-''" n] digit_char_ne(1) by metis
  assume "show_int i = show_int j"
  then show "i = j"
    using minus [of "nat i"] minus [of "nat j"]
    by (auto simp: show_int_def split: if_splits) (metis list.set_intros(1))+
qed simp

section \<open>\<open>std::find\<close> and \<open>std::search\<close>\<close>

text \<open>Both return the offset from the first iterator; the length of the range is "not found".\<close>

definition std_find :: "'a \<Rightarrow> 'a list \<Rightarrow> nat" where
  "std_find x xs = length (takeWhile (\<lambda>y. y \<noteq> x) xs)"

fun std_search :: "'a list \<Rightarrow> 'a list \<Rightarrow> nat" where
  "std_search pat [] = 0"
| "std_search pat (x # xs) =
     (if take (length pat) (x # xs) = pat then 0 else Suc (std_search pat xs))"

lemma std_find_le: "std_find x xs \<le> length xs"
  by (simp add: std_find_def length_takeWhile_le)

lemma std_find_less_iff: "std_find x xs < length xs \<longleftrightarrow> x \<in> set xs"
  by (induction xs) (auto simp: std_find_def)

lemma std_find_nth: "x \<in> set xs \<Longrightarrow> xs ! std_find x xs = x"
  by (induction xs) (auto simp: std_find_def)

lemma std_find_take: "x \<notin> set (take (std_find x xs) xs)"
  by (induction xs) (auto simp: std_find_def)

lemma std_find_append: "x \<in> set xs \<Longrightarrow> std_find x (xs @ ys) = std_find x xs"
  by (induction xs) (auto simp: std_find_def)

lemma std_search_le: "std_search pat xs \<le> length xs"
  by (induction xs) auto

lemma std_search_found:
  "std_search pat xs < length xs \<Longrightarrow> take (length pat) (drop (std_search pat xs) xs) = pat"
  by (induction xs) (auto split: if_splits)

lemma std_search_first:
  "i < std_search pat xs \<Longrightarrow> take (length pat) (drop i xs) \<noteq> pat"
proof (induction xs arbitrary: i)
  case Nil
  then show ?case by simp
next
  case (Cons x xs)
  then show ?case by (cases i) (auto split: if_splits)
qed

lemma std_search_length: "std_search pat xs < length xs \<Longrightarrow> length pat \<le> length xs"
  by (drule std_search_found, drule arg_cong [where f = length]) simp

lemma std_search_append:
  "std_search pat xs < length xs \<Longrightarrow> std_search pat (xs @ ys) = std_search pat xs"
proof (induction xs)
  case Nil
  then show ?case by simp
next
  case (Cons x xs)
  have "length pat \<le> length (x # xs)" using Cons.prems by (rule std_search_length)
  then have same: "take (length pat) (x # (xs @ ys)) = take (length pat) (x # xs)"
    using take_append [of "length pat" "x # xs" ys] by simp
  show ?case
  proof (cases "take (length pat) (x # xs) = pat")
    case True
    then show ?thesis by (simp only: append_Cons std_search.simps same simp_thms if_True)
  next
    case False
    with Cons.prems have "std_search pat xs < length xs" by simp
    then have "std_search pat (xs @ ys) = std_search pat xs" by (rule Cons.IH)
    with False show ?thesis by (simp only: append_Cons std_search.simps same if_False)
  qed
qed

section \<open>\<open>std::set\<close>\<close>

text \<open>
  A set ordered by its elements, kept as the sorted list an iteration visits; an insertion
  reports whether the element was new, an erasure the number of elements removed.
\<close>

definition set_insert :: "'a::linorder \<Rightarrow> 'a list \<Rightarrow> 'a list \<times> bool" where
  "set_insert x xs = (if x \<in> set xs then (xs, False) else (insort x xs, True))"

definition set_erase :: "'a::linorder \<Rightarrow> 'a list \<Rightarrow> 'a list \<times> nat" where
  "set_erase x xs = (remove1 x xs, if x \<in> set xs then 1 else 0)"

definition lower_bound :: "'a::linorder \<Rightarrow> 'a list \<Rightarrow> nat" where
  "lower_bound x xs = length (takeWhile (\<lambda>y. y < x) xs)"

abbreviation std_set :: "'a::linorder list \<Rightarrow> bool" where
  "std_set xs \<equiv> sorted xs \<and> distinct xs"

lemma set_insert_set [simp]: "set (fst (set_insert x xs)) = insert x (set xs)"
  by (auto simp: set_insert_def set_insort_key)

lemma set_insert_std [intro]: "std_set xs \<Longrightarrow> std_set (fst (set_insert x xs))"
  by (auto simp: set_insert_def sorted_insort distinct_insort)

lemma set_erase_set [simp]: "distinct xs \<Longrightarrow> set (fst (set_erase x xs)) = set xs - {x}"
  by (simp add: set_erase_def)

lemma set_erase_std [intro]: "std_set xs \<Longrightarrow> std_set (fst (set_erase x xs))"
  by (simp add: set_erase_def sorted_remove1)

lemma takeWhile_lower_bound: "take (lower_bound x xs) xs = takeWhile (\<lambda>y. y < x) xs"
  by (simp add: lower_bound_def takeWhile_eq_take [symmetric])

lemma dropWhile_lower_bound: "drop (lower_bound x xs) xs = dropWhile (\<lambda>y. y < x) xs"
  by (simp add: lower_bound_def dropWhile_eq_drop [symmetric])

lemma sorted_takeWhile_less:
  "sorted xs \<Longrightarrow> set (takeWhile (\<lambda>y. y < x) xs) = {y \<in> set xs. y < x}"
proof (induction xs)
  case (Cons a xs)
  show ?case
  proof (cases "a < x")
    case True
    with Cons show ?thesis by auto
  next
    case False
    with Cons.prems have "\<forall>y\<in>set (a # xs). \<not> y < x" by (auto simp: not_less intro: order_trans)
    with False show ?thesis by auto
  qed
qed simp

lemma sorted_dropWhile_less:
  "sorted xs \<Longrightarrow> set (dropWhile (\<lambda>y. y < x) xs) = {y \<in> set xs. \<not> y < x}"
proof (induction xs)
  case (Cons a xs)
  show ?case
  proof (cases "a < x")
    case True
    with Cons.IH Cons.prems show ?thesis by auto
  next
    case False
    with Cons.prems have "\<forall>y\<in>set (a # xs). \<not> y < x" by (auto simp: not_less intro: order_trans)
    with False show ?thesis by auto
  qed
qed simp

section \<open>\<open>std::map\<close>\<close>

text \<open>
  A map as the list of its entries in the order of an iteration, sorted by key;
  \<open>map_insert\<close> is \<open>m[k] = v\<close>, a look-up is \<open>map_of\<close>.
\<close>

fun map_insert :: "'k::linorder \<Rightarrow> 'v \<Rightarrow> ('k \<times> 'v) list \<Rightarrow> ('k \<times> 'v) list" where
  "map_insert k v [] = [(k, v)]"
| "map_insert k v ((k', v') # m) =
     (if k < k' then (k, v) # (k', v') # m
      else if k = k' then (k, v) # m else (k', v') # map_insert k v m)"

definition map_erase :: "'k \<Rightarrow> ('k \<times> 'v) list \<Rightarrow> ('k \<times> 'v) list" where
  "map_erase k m = filter (\<lambda>e. fst e \<noteq> k) m"

abbreviation std_map :: "('k::linorder \<times> 'v) list \<Rightarrow> bool" where
  "std_map m \<equiv> sorted_wrt (<) (map fst m)"

lemma map_insert_member: "e \<in> set (map_insert k v m) \<Longrightarrow> e = (k, v) \<or> e \<in> set m"
  by (induction k v m rule: map_insert.induct) (auto split: if_splits)

lemma map_of_map_insert [simp]: "map_of (map_insert k v m) = (map_of m)(k \<mapsto> v)"
  by (induction k v m rule: map_insert.induct) auto

lemma map_insert_keys [simp]: "fst ` set (map_insert k v m) = insert k (fst ` set m)"
  by (induction k v m rule: map_insert.induct) auto

lemma map_insert_std [intro]: "std_map m \<Longrightarrow> std_map (map_insert k v m)"
proof (induction k v m rule: map_insert.induct)
  case (2 k v k' v' m)
  have "\<forall>x\<in>fst ` set (map_insert k v m). k' < x" if "k' < k"
    using 2 that by auto
  with 2 show ?case by (auto simp: not_less_iff_gr_or_eq intro: less_trans)
qed simp

lemma map_of_map_erase [simp]: "map_of (map_erase k m) = (map_of m)(k := None)"
  by (rule ext, induction m) (auto simp: map_erase_def)

lemma map_erase_std [intro]: "std_map m \<Longrightarrow> std_map (map_erase k m)"
  unfolding map_erase_def by (induction m) auto

end
