(* ===== verification/Endian.thy ===== *)
theory Endian
  imports Prelude
begin

text \<open>
  \<open>muduo/net/Endian.h\<close>: conversion of 16, 32 and 64 bit integers between host and network
  byte order, and the memory image of an integer that \<open>Buffer\<close> copies to and from its
  storage. The byte order of the host is the parameter \<open>le\<close> (true for little endian): on a
  big-endian host \<open>htobe32\<close> is the identity.
\<close>

section \<open>Bytes of a number\<close>

fun bytes_le :: "nat \<Rightarrow> nat \<Rightarrow> string" where
  "bytes_le 0 v = []"
| "bytes_le (Suc n) v = char_of (v mod 256) # bytes_le n (v div 256)"

fun of_bytes_le :: "string \<Rightarrow> nat" where
  "of_bytes_le [] = 0"
| "of_bytes_le (c # cs) = of_char c + 256 * of_bytes_le cs"

lemma length_bytes_le [simp]: "length (bytes_le n v) = n"
  by (induction n v rule: bytes_le.induct) simp_all

lemma of_bytes_bytes_le [simp]: "of_bytes_le (bytes_le n v) = v mod 256 ^ n"
proof (induction n v rule: bytes_le.induct)
  case (2 n v)
  have "v mod 256 + 256 * (v div 256 mod 256 ^ n) = v mod 256 ^ Suc n"
    by (metis mod_mult2_eq add.commute power_Suc)
  with 2 show ?case by simp
qed simp

lemma of_char_less: "of_char c < (256 :: nat)"
  by (metis mod_less_divisor of_char_mod_256 zero_less_numeral)

lemma bytes_of_bytes_le [simp]: "length cs = n \<Longrightarrow> bytes_le n (of_bytes_le cs) = cs"
proof (induction cs arbitrary: n)
  case (Cons c cs)
  then show ?case using of_char_less [of c] by (cases n) simp_all
qed simp

lemma add_mult_less: "a < k \<Longrightarrow> k * (x + 1) \<le> y \<Longrightarrow> a + k * x < (y :: nat)"
  by (simp add: algebra_simps)

lemma of_bytes_le_less: "of_bytes_le cs < 256 ^ length cs"
proof (induction cs)
  case (Cons c cs)
  have "of_char c < (256 :: nat)" by (rule of_char_less)
  moreover have "of_bytes_le cs + 1 \<le> 256 ^ length cs" using Cons by simp
  then have "256 * (of_bytes_le cs + 1) \<le> 256 * 256 ^ length cs" by (rule mult_le_mono2)
  ultimately have "of_char c + 256 * of_bytes_le cs < 256 * 256 ^ length cs"
    by (rule add_mult_less)
  then show ?case by simp
qed simp

section \<open>Byte order\<close>

definition bswap :: "nat \<Rightarrow> 'a::len word \<Rightarrow> 'a word" where
  "bswap n w = word_of_nat (of_bytes_le (rev (bytes_le n (unat w))))"

definition hostToNetwork64 :: "bool \<Rightarrow> 64 word \<Rightarrow> 64 word" where
  "hostToNetwork64 le host64 = (if le then bswap 8 host64 else host64)"

definition hostToNetwork32 :: "bool \<Rightarrow> 32 word \<Rightarrow> 32 word" where
  "hostToNetwork32 le host32 = (if le then bswap 4 host32 else host32)"

definition hostToNetwork16 :: "bool \<Rightarrow> 16 word \<Rightarrow> 16 word" where
  "hostToNetwork16 le host16 = (if le then bswap 2 host16 else host16)"

definition networkToHost32 :: "bool \<Rightarrow> 32 word \<Rightarrow> 32 word" where
  "networkToHost32 le net32 = (if le then bswap 4 net32 else net32)"

definition networkToHost16 :: "bool \<Rightarrow> 16 word \<Rightarrow> 16 word" where
  "networkToHost16 le net16 = (if le then bswap 2 net16 else net16)"

text \<open>The object representation of an \<open>n\<close> byte integer, and the integer read back from it.\<close>

definition store_bytes :: "bool \<Rightarrow> nat \<Rightarrow> 'a::len word \<Rightarrow> string" where
  "store_bytes le n w = (if le then bytes_le n (unat w) else rev (bytes_le n (unat w)))"

definition load_bytes :: "bool \<Rightarrow> string \<Rightarrow> 'a::len word" where
  "load_bytes le cs = word_of_nat (of_bytes_le (if le then cs else rev cs))"

text \<open>Network order: most significant byte first.\<close>

definition bytes_be :: "nat \<Rightarrow> 'a::len word \<Rightarrow> string" where
  "bytes_be n w = rev (bytes_le n (unat w))"

lemma length_store_bytes [simp]: "length (store_bytes le n w) = n"
  by (simp add: store_bytes_def)

lemma length_bytes_be [simp]: "length (bytes_be n w) = n"
  by (simp add: bytes_be_def)

lemma unat_mod_bytes: "LENGTH('a::len) = 8 * n \<Longrightarrow> unat (w :: 'a word) mod 256 ^ n = unat w"
  using unsigned_less [of w, where ?'a = nat] by (simp add: power_mult)

lemma unat_bytes:
  assumes "LENGTH('a::len) = 8 * length cs"
  shows "unat (word_of_nat (of_bytes_le cs) :: 'a word) = of_bytes_le cs"
  using assms of_bytes_le_less [of cs] by (simp add: unat_of_nat power_mult)

lemma bytes_bswap:
  fixes w :: "'a::len word"
  assumes "LENGTH('a) = 8 * n"
  shows "bytes_le n (unat (bswap n w)) = rev (bytes_le n (unat w))"
  using assms by (simp add: bswap_def unat_bytes)

lemma bswap_bswap:
  fixes w :: "'a::len word"
  assumes "LENGTH('a) = 8 * n"
  shows "bswap n (bswap n w) = w"
proof -
  have "bswap n (bswap n w) = word_of_nat (of_bytes_le (rev (rev (bytes_le n (unat w)))))"
    using bytes_bswap [OF assms, of w] by (simp add: bswap_def [of n "bswap n w"])
  also have "\<dots> = w" by (simp add: unat_mod_bytes [OF assms])
  finally show ?thesis .
qed

lemma store_network32 [simp]: "store_bytes le 4 (hostToNetwork32 le x) = bytes_be 4 x"
  by (simp add: store_bytes_def hostToNetwork32_def bytes_be_def bytes_bswap)

lemma store_network16 [simp]: "store_bytes le 2 (hostToNetwork16 le x) = bytes_be 2 x"
  by (simp add: store_bytes_def hostToNetwork16_def bytes_be_def bytes_bswap)

lemma load_bytes_be:
  fixes w :: "'a::len word"
  assumes "LENGTH('a) = 8 * n"
  shows "load_bytes False (bytes_be n w) = w" "load_bytes True (bytes_be n w) = bswap n w"
  by (simp_all add: load_bytes_def bytes_be_def bswap_def unat_mod_bytes [OF assms])

lemma load_network32 [simp]: "networkToHost32 le (load_bytes le (bytes_be 4 x)) = x"
  by (cases le) (simp_all add: networkToHost32_def load_bytes_be bswap_bswap)

lemma load_network16 [simp]: "networkToHost16 le (load_bytes le (bytes_be 2 x)) = x"
  by (cases le) (simp_all add: networkToHost16_def load_bytes_be bswap_bswap)

lemma network_host32 [simp]: "networkToHost32 le (hostToNetwork32 le x) = x"
  by (simp add: networkToHost32_def hostToNetwork32_def bswap_bswap)

lemma network_host16 [simp]: "networkToHost16 le (hostToNetwork16 le x) = x"
  by (simp add: networkToHost16_def hostToNetwork16_def bswap_bswap)

end
