(* ===== verification/Buffer.thy ===== *)
theory Buffer
  imports Endian
begin

text \<open>
  \<open>muduo/net/Buffer.h\<close> and \<open>Buffer.cc\<close>: the byte buffer of a connection. \<open>buffer\<close> is
  the \<open>std::vector<char>\<close>, the two indices cut it in a prependable, a readable and a
  writable part. A pointer into the buffer is its offset from \<open>begin()\<close>, \<open>NULL\<close> is \<open>None\<close>.

  Sizes are natural numbers: each of them is the size of an object in memory, hence at most
  \<open>2^63 - 1\<close>, and the code adds at most two of them and a constant, so \<open>size_t\<close> does not wrap.
  The two conversions that do lose bits are kept: \<open>hasWritten\<close> takes a signed length, and
  \<open>toStringPiece\<close> narrows a size to \<open>int\<close>.

  The locale \<open>byte_queue\<close> is what the connections rely on: with respect to \<open>contents\<close>, the
  buffer is a queue of bytes.
\<close>

section \<open>State\<close>

record Buffer =
  buffer :: string
  readerIndex :: nat
  writerIndex :: nat

definition kCheapPrepend :: nat where "kCheapPrepend = 8"

definition kInitialSize :: nat where "kInitialSize = 1024"

definition kCRLF :: string where "kCRLF = [CHR 0x0D, CHR 0x0A]"

definition new_buffer :: Buffer where
  "new_buffer = \<lparr>buffer = replicate (kCheapPrepend + kInitialSize) (CHR 0x00),
     readerIndex = kCheapPrepend, writerIndex = kCheapPrepend\<rparr>"

definition swap_buf :: "Buffer \<Rightarrow> Buffer \<Rightarrow> Buffer \<times> Buffer" where
  "swap_buf this rhs =
     (this\<lparr>buffer := buffer rhs, readerIndex := readerIndex rhs,
           writerIndex := writerIndex rhs\<rparr>,
      rhs\<lparr>buffer := buffer this, readerIndex := readerIndex this,
          writerIndex := writerIndex this\<rparr>)"

definition readableBytes :: "Buffer \<Rightarrow> nat" where
  "readableBytes b = writerIndex b - readerIndex b"

definition writableBytes :: "Buffer \<Rightarrow> nat" where
  "writableBytes b = length (buffer b) - writerIndex b"

definition prependableBytes :: "Buffer \<Rightarrow> nat" where
  "prependableBytes b = readerIndex b"

definition peek :: "Buffer \<Rightarrow> nat" where
  "peek b = readerIndex b"

definition beginWrite :: "Buffer \<Rightarrow> nat" where
  "beginWrite b = writerIndex b"

text \<open>The bytes in \<open>[from, to)\<close>, and \<open>std::copy\<close> of \<open>data\<close> to offset \<open>i\<close>.\<close>

definition bytes_at :: "nat \<Rightarrow> nat \<Rightarrow> Buffer \<Rightarrow> string" where
  "bytes_at from to b = take (to - from) (drop from (buffer b))"

definition copy_to :: "nat \<Rightarrow> string \<Rightarrow> Buffer \<Rightarrow> Buffer" where
  "copy_to i data b =
     b\<lparr>buffer := take i (buffer b) @ data @ drop (i + length data) (buffer b)\<rparr>"

definition vector_resize :: "nat \<Rightarrow> string \<Rightarrow> string" where
  "vector_resize n xs = take n xs @ replicate (n - length xs) (CHR 0x00)"

text \<open>The readable bytes, the abstract value of a buffer; and what keeps the indices in order.\<close>

definition contents :: "Buffer \<Rightarrow> string" where
  "contents b = bytes_at (readerIndex b) (writerIndex b) b"

definition buffer_ok :: "Buffer \<Rightarrow> bool" where
  "buffer_ok b \<longleftrightarrow> readerIndex b \<le> writerIndex b \<and> writerIndex b \<le> length (buffer b) \<and>
     kCheapPrepend \<le> length (buffer b)"

section \<open>Operations\<close>

definition findCRLF :: "Buffer \<Rightarrow> nat option" where
  "findCRLF b =
     (let crlf = peek b + std_search kCRLF (bytes_at (peek b) (beginWrite b) b)
      in if crlf = beginWrite b then None else Some crlf)"

definition findCRLF_from :: "nat \<Rightarrow> Buffer \<Rightarrow> nat option result" where
  "findCRLF_from start b =
     rbind (guard (peek b \<le> start) ''peek() <= start'') (\<lambda>_.
     rbind (guard (start \<le> beginWrite b) ''start <= beginWrite()'') (\<lambda>_.
     let crlf = start + std_search kCRLF (bytes_at start (beginWrite b) b)
     in Inr (if crlf = beginWrite b then None else Some crlf)))"

definition retrieveAll :: "Buffer \<Rightarrow> Buffer" where
  "retrieveAll b = b\<lparr>readerIndex := kCheapPrepend, writerIndex := kCheapPrepend\<rparr>"

definition retrieve :: "nat \<Rightarrow> Buffer \<Rightarrow> Buffer result" where
  "retrieve len b =
     rbind (guard (len \<le> readableBytes b) ''len <= readableBytes()'') (\<lambda>_.
     Inr (if len < readableBytes b then b\<lparr>readerIndex := readerIndex b + len\<rparr>
          else retrieveAll b))"

definition retrieveUntil :: "nat \<Rightarrow> Buffer \<Rightarrow> Buffer result" where
  "retrieveUntil end_ptr b =
     rbind (guard (peek b \<le> end_ptr) ''peek() <= end'') (\<lambda>_.
     rbind (guard (end_ptr \<le> beginWrite b) ''end <= beginWrite()'') (\<lambda>_.
     retrieve (end_ptr - peek b) b))"

definition retrieveInt32 :: "Buffer \<Rightarrow> Buffer result" where
  "retrieveInt32 b = retrieve 4 b"

definition retrieveInt16 :: "Buffer \<Rightarrow> Buffer result" where
  "retrieveInt16 b = retrieve 2 b"

definition retrieveInt8 :: "Buffer \<Rightarrow> Buffer result" where
  "retrieveInt8 b = retrieve 1 b"

definition retrieveAsString :: "nat \<Rightarrow> Buffer \<Rightarrow> (string \<times> Buffer) result" where
  "retrieveAsString len b =
     rbind (guard (len \<le> readableBytes b) ''len <= readableBytes()'') (\<lambda>_.
     let result = bytes_at (peek b) (peek b + len) b
     in rbind (retrieve len b) (\<lambda>b. Inr (result, b)))"

definition retrieveAllAsString :: "Buffer \<Rightarrow> (string \<times> Buffer) result" where
  "retrieveAllAsString b = retrieveAsString (readableBytes b) b"

text \<open>
  \<open>makeSpace\<close>: grow the vector, or move the readable bytes to the front. The \<open>std::copy\<close>
  copies forward to a smaller offset, which is defined for overlapping ranges.
\<close>

definition makeSpace :: "nat \<Rightarrow> Buffer \<Rightarrow> Buffer result" where
  "makeSpace len b =
     (if writableBytes b + prependableBytes b < len + kCheapPrepend
      then Inr (b\<lparr>buffer := vector_resize (writerIndex b + len) (buffer b)\<rparr>)
      else
        rbind (guard (kCheapPrepend < readerIndex b) ''kCheapPrepend < readerIndex'') (\<lambda>_.
        let readable = readableBytes b;
            b1 = copy_to kCheapPrepend (bytes_at (readerIndex b) (writerIndex b) b) b;
            b2 = b1\<lparr>readerIndex := kCheapPrepend\<rparr>;
            b3 = b2\<lparr>writerIndex := readerIndex b2 + readable\<rparr>
        in rbind (guard (readable = readableBytes b3) ''readable == readableBytes()'') (\<lambda>_.
           Inr b3)))"

definition ensureWritableBytes :: "nat \<Rightarrow> Buffer \<Rightarrow> Buffer result" where
  "ensureWritableBytes len b =
     rbind (if writableBytes b < len then makeSpace len b else Inr b) (\<lambda>b.
     rbind (guard (writableBytes b \<ge> len) ''writableBytes() >= len'') (\<lambda>_. Inr b))"

definition hasWritten :: "int \<Rightarrow> Buffer \<Rightarrow> Buffer" where
  "hasWritten len b =
     (let w = int (writerIndex b) + len
      in b\<lparr>writerIndex := nat (if w < 0 then w + 2 ^ 64 else w)\<rparr>)"

definition append_buf :: "string \<Rightarrow> Buffer \<Rightarrow> Buffer result" where
  "append_buf data b =
     rbind (ensureWritableBytes (length data) b) (\<lambda>b.
     Inr (hasWritten (int (length data)) (copy_to (beginWrite b) data b)))"

definition prepend :: "string \<Rightarrow> Buffer \<Rightarrow> Buffer result" where
  "prepend data b =
     rbind (guard (length data \<le> prependableBytes b) ''len <= prependableBytes()'') (\<lambda>_.
     let b1 = b\<lparr>readerIndex := readerIndex b - length data\<rparr>
     in Inr (copy_to (readerIndex b1) data b1))"

text \<open>\<open>toStringPiece\<close> casts the length to \<open>int\<close>; a negative one makes \<open>append\<close> ask for 2^64 bytes.\<close>

definition size_to_int :: "nat \<Rightarrow> int" where
  "size_to_int n = sint (word_of_int (int n) :: 32 word)"

definition toStringPiece :: "Buffer \<Rightarrow> nat \<times> int" where
  "toStringPiece b = (peek b, size_to_int (readableBytes b))"

definition shrink :: "nat \<Rightarrow> Buffer \<Rightarrow> Buffer result" where
  "shrink reserve b =
     rbind (ensureWritableBytes (readableBytes b + reserve) new_buffer) (\<lambda>other.
     case toStringPiece b of (ptr, len) \<Rightarrow>
       if len < 0 then Inl (Undefined ''length_error: append of a negative length'')
       else rbind (append_buf (bytes_at ptr (ptr + nat len) b) other) (\<lambda>other.
            Inr (fst (swap_buf b other))))"

section \<open>Integers in network byte order\<close>

definition appendInt32 :: "bool \<Rightarrow> 32 word \<Rightarrow> Buffer \<Rightarrow> Buffer result" where
  "appendInt32 le x b = append_buf (store_bytes le 4 (hostToNetwork32 le x)) b"

definition appendInt16 :: "bool \<Rightarrow> 16 word \<Rightarrow> Buffer \<Rightarrow> Buffer result" where
  "appendInt16 le x b = append_buf (store_bytes le 2 (hostToNetwork16 le x)) b"

definition appendInt8 :: "bool \<Rightarrow> 8 word \<Rightarrow> Buffer \<Rightarrow> Buffer result" where
  "appendInt8 le x b = append_buf (store_bytes le 1 x) b"

definition peekInt32 :: "bool \<Rightarrow> Buffer \<Rightarrow> 32 word result" where
  "peekInt32 le b =
     rbind (guard (readableBytes b \<ge> 4) ''readableBytes() >= sizeof(int32_t)'') (\<lambda>_.
     Inr (networkToHost32 le (load_bytes le (bytes_at (peek b) (peek b + 4) b))))"

definition peekInt16 :: "bool \<Rightarrow> Buffer \<Rightarrow> 16 word result" where
  "peekInt16 le b =
     rbind (guard (readableBytes b \<ge> 2) ''readableBytes() >= sizeof(int16_t)'') (\<lambda>_.
     Inr (networkToHost16 le (load_bytes le (bytes_at (peek b) (peek b + 2) b))))"

definition peekInt8 :: "bool \<Rightarrow> Buffer \<Rightarrow> 8 word result" where
  "peekInt8 le b =
     rbind (guard (readableBytes b \<ge> 1) ''readableBytes() >= sizeof(int8_t)'') (\<lambda>_.
     Inr (load_bytes le (bytes_at (peek b) (peek b + 1) b)))"

definition readInt32 :: "bool \<Rightarrow> Buffer \<Rightarrow> (32 word \<times> Buffer) result" where
  "readInt32 le b =
     rbind (peekInt32 le b) (\<lambda>result. rbind (retrieveInt32 b) (\<lambda>b. Inr (result, b)))"

definition readInt16 :: "bool \<Rightarrow> Buffer \<Rightarrow> (16 word \<times> Buffer) result" where
  "readInt16 le b =
     rbind (peekInt16 le b) (\<lambda>result. rbind (retrieveInt16 b) (\<lambda>b. Inr (result, b)))"

definition readInt8 :: "bool \<Rightarrow> Buffer \<Rightarrow> (8 word \<times> Buffer) result" where
  "readInt8 le b =
     rbind (peekInt8 le b) (\<lambda>result. rbind (retrieveInt8 b) (\<lambda>b. Inr (result, b)))"

definition prependInt32 :: "bool \<Rightarrow> 32 word \<Rightarrow> Buffer \<Rightarrow> Buffer result" where
  "prependInt32 le x b = prepend (store_bytes le 4 (hostToNetwork32 le x)) b"

definition prependInt16 :: "bool \<Rightarrow> 16 word \<Rightarrow> Buffer \<Rightarrow> Buffer result" where
  "prependInt16 le x b = prepend (store_bytes le 2 (hostToNetwork16 le x)) b"

definition prependInt8 :: "bool \<Rightarrow> 8 word \<Rightarrow> Buffer \<Rightarrow> Buffer result" where
  "prependInt8 le x b = prepend (store_bytes le 1 x) b"

section \<open>Reading from a descriptor\<close>

text \<open>
  What one \<open>readv\<close> or \<open>read\<close> call returned: the bytes transferred (none at end of file),
  or \<open>-1\<close> with \<open>errno\<close>. \<open>readv\<close> fills the writable part first, then \<open>extrabuf\<close>.
\<close>

datatype io_read = Got string | ReadErr nat

definition extrabuf_size :: nat where "extrabuf_size = 65536"

definition readFd :: "io_read \<Rightarrow> Buffer \<Rightarrow> (int \<times> nat option \<times> Buffer) result" where
  "readFd io b =
     (let writable = writableBytes b in
      case io of
        ReadErr errno \<Rightarrow> Inr (-1, Some errno, b)
      | Got data \<Rightarrow>
          (let n = length data; b1 = copy_to (writerIndex b) (take writable data) b in
           if n \<le> writable
           then Inr (int n, None, b1\<lparr>writerIndex := writerIndex b1 + n\<rparr>)
           else
             rbind (append_buf (drop writable data) (b1\<lparr>writerIndex := length (buffer b1)\<rparr>))
               (\<lambda>b2. Inr (int n, None, b2))))"


section \<open>The buffer as a queue of bytes\<close>

text \<open>
  What a connection uses of its buffers: \<open>enq\<close> appends and never fails, \<open>deq\<close> drops from the
  front and fails exactly when it is asked for more than there is.
\<close>

locale byte_queue =
  fixes ok :: "'b \<Rightarrow> bool" and abs :: "'b \<Rightarrow> string" and size_of :: "'b \<Rightarrow> nat"
    and empty :: "'b" and enq :: "string \<Rightarrow> 'b \<Rightarrow> 'b result" and deq :: "nat \<Rightarrow> 'b \<Rightarrow> 'b result"
  assumes ok_empty: "ok empty" and abs_empty: "abs empty = []"
    and size_of: "ok b \<Longrightarrow> size_of b = length (abs b)"
    and enq: "ok b \<Longrightarrow> \<exists>b'. enq data b = Inr b' \<and> ok b' \<and> abs b' = abs b @ data"
    and deq: "ok b \<Longrightarrow> n \<le> size_of b \<Longrightarrow>
      \<exists>b'. deq n b = Inr b' \<and> ok b' \<and> abs b' = drop n (abs b)"
    and deq_short: "size_of b < n \<Longrightarrow> \<not> is_ok (deq n b)"
begin

lemma enqD: "enq data b = Inr b' \<Longrightarrow> ok b \<Longrightarrow> ok b' \<and> abs b' = abs b @ data"
  using enq [of b data] by auto

lemma deqD:
  assumes "deq n b = Inr b'" and "ok b"
  shows "ok b' \<and> abs b' = drop n (abs b) \<and> n \<le> length (abs b)"
proof -
  have "n \<le> size_of b" using deq_short [of b n] assms(1) by (fastforce simp: not_le)
  with assms show ?thesis using deq [of b n] size_of [of b] by auto
qed

lemma enq_all:
  "ok b \<Longrightarrow> \<exists>b'. rfold enq chunks b = Inr b' \<and> ok b' \<and> abs b' = abs b @ concat chunks"
proof (induction chunks arbitrary: b)
  case (Cons c cs)
  from enq [OF Cons.prems, of c] obtain u
    where u: "enq c b = Inr u" "ok u" "abs u = abs b @ c" by blast
  from Cons.IH [OF u(2)] u show ?case by fastforce
qed simp

lemma enq_deq_fifo:
  assumes "ok b" and "rfold enq chunks b = Inr b'" and "deq n b' = Inr b''"
  shows "abs b @ concat chunks = take n (abs b @ concat chunks) @ abs b''"
proof -
  from enq_all [OF assms(1), of chunks] assms(2)
  have "ok b'" and "abs b' = abs b @ concat chunks" by auto
  with deqD [OF assms(3)] show ?thesis by (metis append_take_drop_id)
qed

end

subsection \<open>Every operation keeps the indices in order\<close>

lemmas buffer_defs =
  contents_def bytes_at_def buffer_ok_def readableBytes_def writableBytes_def
  prependableBytes_def peek_def beginWrite_def kCheapPrepend_def

lemma new_buffer_facts [simp]:
  "buffer_ok new_buffer" "contents new_buffer = []" "readableBytes new_buffer = 0"
  "writableBytes new_buffer = kInitialSize" "prependableBytes new_buffer = kCheapPrepend"
  "readerIndex new_buffer = kCheapPrepend"
  by (simp_all add: new_buffer_def buffer_defs kInitialSize_def)

lemma length_contents: "buffer_ok b \<Longrightarrow> length (contents b) = readableBytes b"
  by (auto simp: buffer_defs)

lemma buffer_split:
  assumes "buffer_ok b"
  shows "buffer b = take (readerIndex b) (buffer b) @ contents b @ drop (writerIndex b) (buffer b)"
proof -
  have "drop (readerIndex b) (buffer b) = contents b @ drop (writerIndex b) (buffer b)"
    using assms unfolding contents_def bytes_at_def buffer_ok_def
    by (metis append_take_drop_id drop_drop le_add_diff_inverse2)
  then show ?thesis by (metis append_take_drop_id)
qed

lemma retrieveAll_facts [simp]:
  "buffer_ok b \<Longrightarrow> buffer_ok (retrieveAll b)" "contents (retrieveAll b) = []"
  by (simp_all add: retrieveAll_def buffer_defs)

lemma retrieve_correct:
  assumes "buffer_ok b" and "len \<le> readableBytes b"
  shows "\<exists>b'. retrieve len b = Inr b' \<and> buffer_ok b' \<and> contents b' = drop len (contents b)"
proof (cases "len < readableBytes b")
  case True
  then have "contents (b\<lparr>readerIndex := readerIndex b + len\<rparr>) = drop len (contents b)"
    by (simp add: buffer_defs drop_take add.commute)
  with True assms show ?thesis by (auto simp: retrieve_def buffer_defs)
next
  case False
  with assms have "drop len (contents b) = []" by (simp add: length_contents)
  with False assms show ?thesis by (simp add: retrieve_def)
qed

lemma retrieve_short: "readableBytes b < len \<Longrightarrow> retrieve len b = Inl (Assertion ''len <= readableBytes()'')"
  by (simp add: retrieve_def)

text \<open>Writing behind the readable bytes, where there is room.\<close>

lemma write_at_end:
  assumes "buffer_ok b" and "length data \<le> writableBytes b"
  defines "b' \<equiv> copy_to (writerIndex b) data b"
  shows "buffer_ok (b'\<lparr>writerIndex := writerIndex b + length data\<rparr>)"
    and "contents (b'\<lparr>writerIndex := writerIndex b + length data\<rparr>) = contents b @ data"
    and "length (buffer b') = length (buffer b)" and "writerIndex b' = writerIndex b"
    and "readerIndex b' = readerIndex b"
  using assms by (auto simp: copy_to_def buffer_defs take_drop)

lemma contents_moved:
  assumes "kCheapPrepend \<le> length xs"
  shows "contents (b\<lparr>buffer := take kCheapPrepend xs @ c @ d, readerIndex := kCheapPrepend,
    writerIndex := kCheapPrepend + length c\<rparr>) = c"
  using assms by (simp add: buffer_defs)

lemma makeSpace_correct:
  assumes ok: "buffer_ok b" and len: "writableBytes b < len"
  shows "\<exists>b'. makeSpace len b = Inr b' \<and> buffer_ok b' \<and> contents b' = contents b \<and>
    len \<le> writableBytes b' \<and>
    (kCheapPrepend \<le> readerIndex b \<longrightarrow> kCheapPrepend \<le> readerIndex b')"
proof (cases "writableBytes b + prependableBytes b < len + kCheapPrepend")
  case True
  then show ?thesis using ok len
    by (auto simp: makeSpace_def vector_resize_def buffer_defs)
next
  case False
  with ok len have room: "8 < readerIndex b" by (simp add: buffer_defs)
  let ?b = "(copy_to kCheapPrepend (contents b) b)\<lparr>readerIndex := kCheapPrepend,
     writerIndex := kCheapPrepend + readableBytes b\<rparr>"
  have "makeSpace len b = Inr ?b"
    using False room
    by (simp add: makeSpace_def contents_def kCheapPrepend_def Let_def readableBytes_def copy_to_def)
  moreover have "length (buffer ?b) = length (buffer b)"
    using ok room by (auto simp: copy_to_def buffer_defs)
  moreover have "contents ?b = contents b"
    using ok length_contents [OF ok]
      contents_moved [where xs = "buffer b" and b = b and c = "contents b"
        and d = "drop (8 + readableBytes b) (buffer b)"]
    by (simp add: copy_to_def buffer_ok_def kCheapPrepend_def)
  ultimately show ?thesis using False ok room len by (auto simp: buffer_defs)
qed

lemma ensureWritableBytes_correct:
  assumes "buffer_ok b"
  shows "\<exists>b'. ensureWritableBytes len b = Inr b' \<and> buffer_ok b' \<and> contents b' = contents b \<and>
    len \<le> writableBytes b' \<and>
    (kCheapPrepend \<le> readerIndex b \<longrightarrow> kCheapPrepend \<le> readerIndex b')"
proof (cases "writableBytes b < len")
  case True
  from makeSpace_correct [OF assms True] show ?thesis
    by (auto simp: ensureWritableBytes_def True)
next
  case False
  with assms show ?thesis by (simp add: ensureWritableBytes_def)
qed

lemma append_correct:
  assumes "buffer_ok b"
  shows "\<exists>b'. append_buf data b = Inr b' \<and> buffer_ok b' \<and> contents b' = contents b @ data \<and>
    (kCheapPrepend \<le> readerIndex b \<longrightarrow> kCheapPrepend \<le> readerIndex b')"
proof -
  from ensureWritableBytes_correct [OF assms, of "length data"] obtain u
    where u: "ensureWritableBytes (length data) b = Inr u" "buffer_ok u" "contents u = contents b"
      "length data \<le> writableBytes u"
      "kCheapPrepend \<le> readerIndex b \<longrightarrow> kCheapPrepend \<le> readerIndex u" by blast
  have "append_buf data b =
      Inr ((copy_to (writerIndex u) data u)\<lparr>writerIndex := writerIndex u + length data\<rparr>)"
    using u(1) by (simp add: append_buf_def hasWritten_def beginWrite_def copy_to_def Let_def
        nat_add_distrib)
  then show ?thesis using write_at_end [OF u(2,4)] u(3,5) by simp
qed

interpretation buf: byte_queue buffer_ok contents readableBytes new_buffer append_buf retrieve
proof unfold_locales
  show "\<exists>b'. append_buf data b = Inr b' \<and> buffer_ok b' \<and> contents b' = contents b @ data"
    if "buffer_ok b" for b data
    using append_correct [OF that] by blast
qed (simp_all add: length_contents retrieve_correct retrieve_short)


subsection \<open>The other operations\<close>

lemma buf_append_ok: "append_buf data b = Inr b' \<Longrightarrow> buffer_ok b \<Longrightarrow> buffer_ok b'"
  by (blast dest: buf.enqD)

lemma size_to_int_small: "n < 2 ^ 31 \<Longrightarrow> size_to_int n = int n"
  unfolding size_to_int_def sint_sbintrunc' by (rule signed_take_bit_int_eq_self) simp_all

lemma bytes_at_contents: "bytes_at (readerIndex b) (readerIndex b + readableBytes b) b = contents b"
  by (simp add: bytes_at_def contents_def readableBytes_def)

lemma bytes_at_prefix:
  "n \<le> readableBytes b \<Longrightarrow> bytes_at (readerIndex b) (readerIndex b + n) b = take n (contents b)"
  by (simp add: bytes_at_def contents_def readableBytes_def)

lemma shrink_correct:
  assumes "buffer_ok b" and "readableBytes b < 2 ^ 31"
  shows "\<exists>b'. shrink reserve b = Inr b' \<and> buffer_ok b' \<and> contents b' = contents b \<and>
    kCheapPrepend \<le> readerIndex b'"
proof -
  from ensureWritableBytes_correct [OF new_buffer_facts(1), of "readableBytes b + reserve"] obtain u
    where u: "ensureWritableBytes (readableBytes b + reserve) new_buffer = Inr u" "buffer_ok u"
      "contents u = []" "kCheapPrepend \<le> readerIndex u"
    by auto
  from append_correct [OF u(2), of "contents b"] obtain v
    where v: "append_buf (contents b) u = Inr v" "buffer_ok v" "contents v = contents b"
      "kCheapPrepend \<le> readerIndex v"
    using u by auto
  have "shrink reserve b = Inr (fst (swap_buf b v))"
    using u(1) v(1) assms(2)
    by (simp add: shrink_def toStringPiece_def size_to_int_small peek_def bytes_at_contents)
  with v show ?thesis by (simp add: swap_buf_def buffer_ok_def contents_def bytes_at_def)
qed

lemma prepend_correct:
  assumes "buffer_ok b" and "length data \<le> readerIndex b"
  shows "\<exists>b'. prepend data b = Inr b' \<and> buffer_ok b' \<and> contents b' = data @ contents b"
proof -
  from assms(2) obtain l where l: "readerIndex b = l + length data"
    using le_Suc_ex by (metis add.commute)
  let ?b = "copy_to l data (b\<lparr>readerIndex := l\<rparr>)"
  have "prepend data b = Inr ?b"
    using l by (simp add: prepend_def prependableBytes_def Let_def)
  moreover have "buffer_ok ?b" using assms l by (auto simp: copy_to_def buffer_ok_def)
  moreover have "contents ?b = data @ contents b"
    using assms(1) l by (auto simp: copy_to_def contents_def bytes_at_def buffer_ok_def)
  ultimately show ?thesis by blast
qed

lemma readFd_correct:
  assumes "buffer_ok b"
  shows "\<exists>b'. readFd (Got data) b = Inr (int (length data), None, b') \<and> buffer_ok b' \<and>
    contents b' = contents b @ data \<and>
    (kCheapPrepend \<le> readerIndex b \<longrightarrow> kCheapPrepend \<le> readerIndex b')"
proof -
  let ?w = "writableBytes b"
  let ?b1 = "copy_to (writerIndex b) (take ?w data) b"
  let ?b2 = "?b1\<lparr>writerIndex := writerIndex b + length (take ?w data)\<rparr>"
  note filled = write_at_end [OF assms, of "take ?w data"]
  have b2: "buffer_ok ?b2" "contents ?b2 = contents b @ take ?w data"
    using filled(1,2) by simp_all
  show ?thesis
  proof (cases "length data \<le> ?w")
    case True
    with b2 filled(4,5) show ?thesis by (simp add: readFd_def Let_def)
  next
    case False
    then have "writerIndex b + length (take ?w data) = length (buffer ?b1)"
      using assms filled(3) by (auto simp: buffer_ok_def writableBytes_def)
    with False have "readFd (Got data) b =
        rbind (append_buf (drop ?w data) ?b2) (\<lambda>b2. Inr (int (length data), None, b2))"
      by (simp add: readFd_def Let_def)
    with append_correct [OF b2(1), of "drop ?w data"] b2(2) filled(5) show ?thesis by auto
  qed
qed

lemma readFd_error: "readFd (ReadErr errno) b = Inr (-1, Some errno, b)"
  by (simp add: readFd_def)

lemma findCRLF_Some:
  assumes "buffer_ok b"
  shows "findCRLF b = Some k \<longleftrightarrow>
    readerIndex b \<le> k \<and> std_search kCRLF (contents b) = k - readerIndex b \<and> k < writerIndex b"
proof -
  have "std_search kCRLF (contents b) \<le> writerIndex b - readerIndex b"
    using std_search_le [of kCRLF "contents b"] assms
    by (simp add: length_contents readableBytes_def)
  with assms show ?thesis
    by (auto simp: findCRLF_def peek_def beginWrite_def contents_def [symmetric] buffer_ok_def Let_def)
qed

lemma findCRLF_None:
  assumes "buffer_ok b"
  shows "findCRLF b = None \<longleftrightarrow> std_search kCRLF (contents b) = length (contents b)"
  using assms std_search_le [of kCRLF "contents b"]
  by (auto simp: findCRLF_def peek_def beginWrite_def contents_def [symmetric] buffer_ok_def
      length_contents readableBytes_def Let_def)

lemma retrieveAsString_correct:
  assumes "buffer_ok b" and "len \<le> readableBytes b"
  shows "\<exists>b'. retrieveAsString len b = Inr (take len (contents b), b') \<and> buffer_ok b' \<and>
    contents b' = drop len (contents b)"
  using retrieve_correct [OF assms] assms
  by (auto simp: retrieveAsString_def peek_def bytes_at_prefix)


section \<open>Properties\<close>

text \<open>
  The abstract specification: a buffer is a string; appending and reading from a descriptor
  put bytes at the end, retrieving drops them from the front, the rest does not change it.
\<close>

datatype buf_op =
    Append string | Retrieve nat | RetrieveAll | EnsureWritable nat | Shrink nat | ReadFd io_read

fun buf_step :: "buf_op \<Rightarrow> Buffer \<Rightarrow> Buffer result" where
  "buf_step (Append data) b = append_buf data b"
| "buf_step (Retrieve n) b = retrieve n b"
| "buf_step RetrieveAll b = Inr (retrieveAll b)"
| "buf_step (EnsureWritable n) b = ensureWritableBytes n b"
| "buf_step (Shrink n) b = shrink n b"
| "buf_step (ReadFd io) b = rbind (readFd io b) (\<lambda>(n, errno, b). Inr b)"

fun queue_step :: "buf_op \<Rightarrow> string \<Rightarrow> string option" where
  "queue_step (Append data) q = Some (q @ data)"
| "queue_step (Retrieve n) q = (if n \<le> length q then Some (drop n q) else None)"
| "queue_step RetrieveAll q = Some []"
| "queue_step (EnsureWritable n) q = Some q"
| "queue_step (Shrink n) q = Some q"
| "queue_step (ReadFd (Got data)) q = Some (q @ data)"
| "queue_step (ReadFd (ReadErr errno)) q = Some q"

fun queue_run :: "buf_op list \<Rightarrow> string \<Rightarrow> string option" where
  "queue_run [] q = Some q"
| "queue_run (op # ops) q = Option.bind (queue_step op q) (queue_run ops)"

lemma shrink_step:
  "buffer_ok b \<Longrightarrow> length (contents b) < 2 ^ 31 \<Longrightarrow>
    \<exists>b'. shrink n b = Inr b' \<and> buffer_ok b' \<and> contents b' = contents b"
  using shrink_correct [of b n] by (auto simp: length_contents)

lemma buf_step_refines:
  assumes "buffer_ok b" and "length (contents b) < 2 ^ 31"
  shows "case queue_step op (contents b) of
      None \<Rightarrow> \<not> is_ok (buf_step op b)
    | Some q \<Rightarrow> \<exists>b'. buf_step op b = Inr b' \<and> buffer_ok b' \<and> contents b' = q"
proof (cases op)
  case (Append data)
  with buf.enq [OF assms(1)] show ?thesis by simp
next
  case (Retrieve n)
  with buf.deq [OF assms(1), of n] buf.deq_short [of b n] length_contents [OF assms(1)]
  show ?thesis by (auto simp: not_le)
next
  case (EnsureWritable n)
  with ensureWritableBytes_correct [OF assms(1), of n] show ?thesis by auto
next
  case (Shrink n)
  with shrink_step [OF assms, of n] show ?thesis by simp
next
  case (ReadFd io)
  then show ?thesis
  proof (cases io)
    case (Got data)
    with ReadFd readFd_correct [OF assms(1), of data] show ?thesis by auto
  next
    case (ReadErr e)
    with ReadFd assms(1) show ?thesis by (simp add: readFd_error)
  qed
qed (use assms in simp)

fun queue_small :: "buf_op list \<Rightarrow> string \<Rightarrow> bool" where
  \<comment> \<open>Every intermediate queue is shorter than 2 GiB, so that \<open>shrink\<close> does not truncate.\<close>
  "queue_small [] q = True"
| "queue_small (op # ops) q =
     (length q < 2 ^ 31 \<and> (case queue_step op q of None \<Rightarrow> True | Some q' \<Rightarrow> queue_small ops q'))"

text \<open>
  C12. A \<open>Buffer\<close> refines a queue of bytes: whatever sequence of appends, reads from a
  descriptor, retrievals, reservations and shrinks runs on it, either every call succeeds and
  the readable bytes are exactly those of the abstract queue, or the abstract queue is asked for
  more bytes than it holds and the code fails its assertion. No call reads or writes outside
  the vector, no byte is lost, duplicated or reordered by growing or compacting.
\<close>

theorem buffer_refines_queue:
  assumes "buffer_ok b" and "queue_small ops (contents b)"
  shows "case queue_run ops (contents b) of
      None \<Rightarrow> \<not> is_ok (rfold buf_step ops b)
    | Some q \<Rightarrow> \<exists>b'. rfold buf_step ops b = Inr b' \<and> buffer_ok b' \<and> contents b' = q"
  using assms
proof (induction ops arbitrary: b)
  case (Cons op ops)
  from Cons.prems have "length (contents b) < 2 ^ 31" by simp
  note step = buf_step_refines [OF Cons.prems(1) this, of op]
  show ?case
  proof (cases "queue_step op (contents b)")
    case None
    with step show ?thesis by (auto simp: is_ok_def split: sum.splits)
  next
    case (Some q)
    with step obtain u where u: "buf_step op b = Inr u" "buffer_ok u" "contents u = q" by auto
    with Cons.prems(2) Some have "queue_small ops (contents u)" by simp
    from Cons.IH [OF u(2) this] show ?thesis
      by (simp only: rfold.simps queue_run.simps u(1,3) Some rbind_Inr bind.bind_lunit)
  qed
qed simp

theorem buffer_refines_queue_witness:
  "\<exists>b'. rfold buf_step [Append ''hello'', Retrieve 2, ReadFd (Got ''!!''), Shrink 0] new_buffer = Inr b'
     \<and> contents b' = ''llo!!''"
  using buffer_refines_queue [of new_buffer
      "[Append ''hello'', Retrieve 2, ReadFd (Got ''!!''), Shrink 0]"] by auto

lemma buf_step_cheap:
  assumes "buf_step op b = Inr b'" and "buffer_ok b" and "kCheapPrepend \<le> readerIndex b"
    and "readableBytes b < 2 ^ 31"
  shows "buffer_ok b' \<and> kCheapPrepend \<le> readerIndex b'"
proof (cases op)
  case (Append data)
  with append_correct [OF assms(2), of data] assms(1,3) show ?thesis by auto
next
  case (Retrieve n)
  with assms(1) have "retrieve n b = Inr b'" by simp
  with buf.deqD [OF this assms(2)] assms(3) show ?thesis
    by (auto simp: retrieve_def retrieveAll_def rbind_eq_Inr_conv split: if_splits)
next
  case RetrieveAll
  with assms show ?thesis by (auto simp: retrieveAll_def buffer_ok_def)
next
  case (EnsureWritable n)
  with ensureWritableBytes_correct [OF assms(2), of n] assms(1,3) show ?thesis by auto
next
  case (Shrink n)
  with shrink_correct [OF assms(2,4), of n] assms(1) show ?thesis by auto
next
  case (ReadFd io)
  then show ?thesis
  proof (cases io)
    case (Got data)
    with ReadFd readFd_correct [OF assms(2), of data] assms(1,3) show ?thesis by auto
  next
    case (ReadErr errno)
    with ReadFd assms(1-3) show ?thesis by (simp add: readFd_error)
  qed
qed

lemma readInt32_contents:
  assumes "buffer_ok b" and "contents b = bytes_be 4 x @ rest"
  shows "\<exists>b'. readInt32 le b = Inr (x, b') \<and> buffer_ok b' \<and> contents b' = rest"
proof -
  have four: "4 \<le> readableBytes b"
    using length_contents [OF assms(1)] assms(2) by simp
  from retrieve_correct [OF assms(1) four] obtain b'
    where "retrieve 4 b = Inr b'" "buffer_ok b'" "contents b' = rest"
    using assms(2) by auto
  with four assms(2) show ?thesis
    by (simp add: readInt32_def peekInt32_def retrieveInt32_def peek_def bytes_at_prefix)
qed

text \<open>
  The cheap prepend works after any traffic: starting from a fresh buffer, after any
  sequence of appends, retrievals, shrinks and reads that succeeded, eight bytes can still be
  prepended, and a 32 bit length header put there by \<open>prependInt32\<close> is what \<open>readInt32\<close>
  returns, on little-endian and big-endian hosts alike, leaving the payload as it was.
\<close>

theorem prepend_header_roundtrip:
  assumes run: "rfold buf_step ops new_buffer = Inr b"
    and small: "queue_small ops []"
  shows "\<exists>b'. prependInt32 le x b = Inr b' \<and>
    (\<exists>b''. readInt32 le b' = Inr (x, b'') \<and> contents b'' = contents b)"
proof -
  have "buffer_ok b \<and> kCheapPrepend \<le> readerIndex b"
    if "rfold buf_step ops a = Inr b" and "queue_small ops (contents a)"
      and "buffer_ok a" and "kCheapPrepend \<le> readerIndex a" for a
    using that
  proof (induction ops arbitrary: a)
    case (Cons op ops)
    from Cons.prems(1) obtain u where u: "buf_step op a = Inr u" "rfold buf_step ops u = Inr b"
      by (auto elim: rbind_InrE)
    from Cons.prems(2) have less: "length (contents a) < 2 ^ 31" by simp
    from buf_step_refines [OF Cons.prems(3) less, of op] u(1)
    have "queue_step op (contents a) = Some (contents u)"
      by (auto split: option.splits)
    then have "queue_small ops (contents u)" using Cons.prems(2) by simp
    moreover have "buffer_ok u \<and> kCheapPrepend \<le> readerIndex u"
      using buf_step_cheap [OF u(1) Cons.prems(3,4)] less by (simp add: length_contents Cons.prems(3))
    ultimately show ?case using Cons.IH [OF u(2)] by blast
  qed simp
  from this [OF run] small have b: "buffer_ok b" "kCheapPrepend \<le> readerIndex b" by auto
  from b prepend_correct [OF b(1), of "bytes_be 4 x"] obtain b'
    where "prependInt32 le x b = Inr b'" "buffer_ok b'" "contents b' = bytes_be 4 x @ contents b"
    by (auto simp: prependInt32_def kCheapPrepend_def)
  with readInt32_contents [of b' x "contents b" le] show ?thesis by blast
qed

theorem prepend_header_roundtrip_witness:
  "\<exists>b b' b''. rfold buf_step [Append ''body'', Retrieve 1] new_buffer = Inr b \<and>
     prependInt32 True 259 b = Inr b' \<and> readInt32 True b' = Inr (259, b'') \<and>
     contents b'' = contents b"
proof -
  have "is_ok (rfold buf_step [Append ''body'', Retrieve 1] new_buffer)" by code_simp
  then obtain b where b: "rfold buf_step [Append ''body'', Retrieve 1] new_buffer = Inr b"
    by (auto simp: is_ok_iff)
  have "queue_small [Append ''body'', Retrieve 1] []" by simp
  from prepend_header_roundtrip [OF b this, of True 259] b show ?thesis by blast
qed

fun readInt32s :: "bool \<Rightarrow> nat \<Rightarrow> Buffer \<Rightarrow> (32 word list \<times> Buffer) result" where
  "readInt32s le 0 b = Inr ([], b)"
| "readInt32s le (Suc n) b =
     rbind (readInt32 le b) (\<lambda>(x, b). rbind (readInt32s le n b) (\<lambda>(xs, b). Inr (x # xs, b)))"

lemma appendInt32s_contents:
  "buffer_ok b \<Longrightarrow> \<exists>b'. rfold (appendInt32 le) xs b = Inr b' \<and> buffer_ok b' \<and>
    contents b' = contents b @ concat (map (bytes_be 4) xs)"
proof (induction xs arbitrary: b)
  case (Cons x xs)
  from buf.enq [OF Cons.prems, of "bytes_be 4 x"] obtain u
    where u: "appendInt32 le x b = Inr u" "buffer_ok u" "contents u = contents b @ bytes_be 4 x"
    by (auto simp: appendInt32_def)
  from Cons.IH [OF u(2)] u show ?case by auto
qed simp

lemma readInt32s_contents:
  "buffer_ok b \<Longrightarrow> contents b = concat (map (bytes_be 4) xs) @ rest \<Longrightarrow>
    \<exists>b'. readInt32s le (length xs) b = Inr (xs, b') \<and> buffer_ok b' \<and> contents b' = rest"
proof (induction xs arbitrary: b)
  case (Cons x xs)
  then have "contents b = bytes_be 4 x @ (concat (map (bytes_be 4) xs) @ rest)" by simp
  from readInt32_contents [OF Cons.prems(1) this, of le] obtain u
    where u: "readInt32 le b = Inr (x, u)" "buffer_ok u"
      "contents u = concat (map (bytes_be 4) xs) @ rest" by blast
  from Cons.IH [OF u(2,3)] u(1) show ?case by auto
qed simp

text \<open>
  Integers appended in network order come back in order: \<open>n\<close> calls of \<open>appendInt32\<close> followed
  by \<open>n\<close> calls of \<open>readInt32\<close> return the integers in the order they were written, and leave what
  was in the buffer behind them; no read runs short.
\<close>

theorem int32_fifo:
  assumes "buffer_ok b" and "contents b = []"
  shows "\<exists>b' b''. rfold (appendInt32 le) xs b = Inr b' \<and>
    readInt32s le (length xs) b' = Inr (xs, b'') \<and> contents b'' = []"
  using appendInt32s_contents [OF assms(1), of le xs] assms(2)
    readInt32s_contents [where rest = "[]" and le = le and xs = xs] by fastforce

theorem int32_fifo_witness:
  "\<exists>b' b''. rfold (appendInt32 False) [1, 0xDEADBEEF] new_buffer = Inr b' \<and>
    readInt32s False 2 b' = Inr ([1, 0xDEADBEEF], b'') \<and> contents b'' = []"
  using int32_fifo [of new_buffer False "[1, 0xDEADBEEF]"] by (simp add: numeral_2_eq_2)

end
