(* ===== verification/Timestamp.thy ===== *)
theory Timestamp
  imports Complex_Main Prelude
begin

text \<open>
  \<open>muduo/base/Timestamp.h\<close> and \<open>Timestamp.cc\<close>: points in time, in microseconds since the epoch. The
  64 bit count is an integer here: it would overflow after 292,000 years. A \<open>double\<close> of seconds is
  an exact rational; the rounding of its product with \<open>kMicroSecondsPerSecond\<close> is not modelled.
\<close>

datatype Timestamp = Timestamp (microSecondsSinceEpoch: int)

definition kMicroSecondsPerSecond :: int where "kMicroSecondsPerSecond = 1000 * 1000"

text \<open>The two operators of the header, and the linear order they amount to: timestamps can be kept in sorted sets.\<close>

definition operator_less :: "Timestamp \<Rightarrow> Timestamp \<Rightarrow> bool" where
  "operator_less lhs rhs \<longleftrightarrow> microSecondsSinceEpoch lhs < microSecondsSinceEpoch rhs"

definition operator_equal :: "Timestamp \<Rightarrow> Timestamp \<Rightarrow> bool" where
  "operator_equal lhs rhs \<longleftrightarrow> microSecondsSinceEpoch lhs = microSecondsSinceEpoch rhs"

lemma Timestamp_eq_iff: "lhs = rhs \<longleftrightarrow> microSecondsSinceEpoch lhs = microSecondsSinceEpoch rhs"
  by (cases lhs; cases rhs) simp

lemma operator_equal_iff [simp]: "operator_equal lhs rhs \<longleftrightarrow> lhs = rhs"
  by (simp add: operator_equal_def Timestamp_eq_iff)

instantiation Timestamp :: linorder
begin

definition less_Timestamp :: "Timestamp \<Rightarrow> Timestamp \<Rightarrow> bool" where
  "less_Timestamp = operator_less"

definition less_eq_Timestamp :: "Timestamp \<Rightarrow> Timestamp \<Rightarrow> bool" where
  "less_eq_Timestamp lhs rhs \<longleftrightarrow> operator_less lhs rhs \<or> operator_equal lhs rhs"

instance
  by standard (auto simp: less_Timestamp_def less_eq_Timestamp_def operator_less_def Timestamp_eq_iff)

end

lemma less_Timestamp_iff: "lhs < rhs \<longleftrightarrow> microSecondsSinceEpoch lhs < microSecondsSinceEpoch rhs"
  by (simp add: less_Timestamp_def operator_less_def)

lemma less_eq_Timestamp_iff: "lhs \<le> rhs \<longleftrightarrow> microSecondsSinceEpoch lhs \<le> microSecondsSinceEpoch rhs"
  by (auto simp: less_eq_Timestamp_def operator_less_def Timestamp_eq_iff)

lemmas Timestamp_order = less_Timestamp_iff less_eq_Timestamp_iff

definition invalid :: Timestamp where "invalid = Timestamp 0"

definition valid :: "Timestamp \<Rightarrow> bool" where
  "valid t \<longleftrightarrow> microSecondsSinceEpoch t > 0"

definition secondsSinceEpoch :: "Timestamp \<Rightarrow> int" where
  "secondsSinceEpoch t = cdiv (microSecondsSinceEpoch t) kMicroSecondsPerSecond"

text \<open>What \<open>gettimeofday\<close> stored, as a timestamp.\<close>

definition now_of :: "int \<Rightarrow> int \<Rightarrow> Timestamp" where
  "now_of seconds microseconds = Timestamp (seconds * kMicroSecondsPerSecond + microseconds)"

definition to_int64 :: "rat \<Rightarrow> int" where
  \<comment> \<open>the conversion of a \<open>double\<close> truncates towards zero\<close>
  "to_int64 x = (if x < 0 then - \<lfloor>- x\<rfloor> else \<lfloor>x\<rfloor>)"

definition timeDifference :: "Timestamp \<Rightarrow> Timestamp \<Rightarrow> rat" where
  "timeDifference high low =
     of_int (microSecondsSinceEpoch high - microSecondsSinceEpoch low) / of_int kMicroSecondsPerSecond"

definition addTime :: "Timestamp \<Rightarrow> rat \<Rightarrow> Timestamp" where
  "addTime t seconds =
     (let delta = to_int64 (seconds * of_int kMicroSecondsPerSecond)
      in Timestamp (microSecondsSinceEpoch t + delta))"

text \<open>\<open>%06ld\<close>: the sign counts for the width.\<close>

definition pad_zeros :: "nat \<Rightarrow> int \<Rightarrow> string" where
  "pad_zeros w i =
     (let ds = show_nat (nat \<bar>i\<bar>); sign = (if i < 0 then ''-'' else [])
      in sign @ replicate (w - length ds - length sign) (CHR ''0'') @ ds)"

definition toString :: "Timestamp \<Rightarrow> string" where
  "toString t =
     (let seconds = cdiv (microSecondsSinceEpoch t) kMicroSecondsPerSecond;
          microseconds = cmod (microSecondsSinceEpoch t) kMicroSecondsPerSecond
      in snprintf 31 (show_int seconds @ ''.'' @ pad_zeros 6 microseconds))"

text \<open>
  \<open>toFormattedString\<close>, over the broken-down time \<open>gmtime_r\<close> stores. The day is padded with a blank, and nothing
  stands between it and the hour but the colon.
\<close>

record tm =
  tm_year :: int
  tm_mon :: int
  tm_mday :: int
  tm_hour :: int
  tm_min :: int
  tm_sec :: int

definition format_tm :: "tm \<Rightarrow> int \<Rightarrow> string" where
  "format_tm tm_time microseconds =
     pad_zeros 4 (tm_year tm_time + 1900) @ pad_zeros 2 (tm_mon tm_time + 1) @ pad_left 2 (show_int (tm_mday tm_time)) @ '':'' @
     pad_zeros 2 (tm_hour tm_time) @ '':'' @ pad_zeros 2 (tm_min tm_time) @ '':'' @ pad_zeros 2 (tm_sec tm_time) @ ''.'' @
     pad_zeros 6 microseconds"

definition toFormattedString :: "(int \<Rightarrow> tm) \<Rightarrow> Timestamp \<Rightarrow> string" where
  "toFormattedString gmtime_r t =
     (let seconds = cdiv (microSecondsSinceEpoch t) kMicroSecondsPerSecond;
          microseconds = cmod (microSecondsSinceEpoch t) kMicroSecondsPerSecond
      in snprintf 31 (format_tm (gmtime_r seconds) microseconds))"

lemma addTime_later: "0 \<le> seconds \<Longrightarrow> t \<le> addTime t seconds"
  by (simp add: addTime_def to_int64_def kMicroSecondsPerSecond_def Timestamp_order Let_def)

lemma timeDifference_addTime:
  "timeDifference (addTime t (of_int n / of_int kMicroSecondsPerSecond)) t =
    of_int n / of_int kMicroSecondsPerSecond"
proof -
  have "to_int64 (of_int n) = n"
    by (simp add: to_int64_def)
  then show ?thesis by (simp add: addTime_def timeDifference_def kMicroSecondsPerSecond_def)
qed

lemma length_pad_zeros: "0 \<le> i \<Longrightarrow> i < 10 ^ w \<Longrightarrow> 0 < w \<Longrightarrow> length (pad_zeros w i) = w"
  using length_show_nat_le [of "nat i" w] by (simp add: pad_zeros_def Let_def nat_less_iff)

definition tm_ok :: "tm \<Rightarrow> bool" where
  "tm_ok tm_time \<longleftrightarrow> tm_year tm_time \<in> {-1900..<8100} \<and> tm_mon tm_time \<in> {0..11} \<and> tm_mday tm_time \<in> {1..31} \<and>
     tm_hour tm_time \<in> {0..23} \<and> tm_min tm_time \<in> {0..59} \<and> tm_sec tm_time \<in> {0..60}"

lemma length_pad_day:
  assumes "0 \<le> i" "i < 100"
  shows "length (pad_left 2 (show_int i)) = 2"
  using assms length_show_nat_le [of "nat i" 2] by (simp add: pad_left_def show_int_def nat_less_iff)

text \<open>The text is never cut: a timestamp from the epoch to the year 9999 takes 24 characters.\<close>

lemma toFormattedString_eq:
  assumes "0 \<le> microSecondsSinceEpoch t" "tm_ok (gmtime_r (microSecondsSinceEpoch t div 1000000))"
  shows "toFormattedString gmtime_r t =
      format_tm (gmtime_r (microSecondsSinceEpoch t div 1000000)) (microSecondsSinceEpoch t mod 1000000)"
    and "length (toFormattedString gmtime_r t) = 24"
proof -
  let ?text = "format_tm (gmtime_r (microSecondsSinceEpoch t div 1000000)) (microSecondsSinceEpoch t mod 1000000)"
  have "length (pad_zeros 6 (microSecondsSinceEpoch t mod 1000000)) = 6" by (intro length_pad_zeros) auto
  then have len: "length ?text = 24"
    using assms(2) by (simp add: format_tm_def tm_ok_def length_pad_zeros length_pad_day)
  then show "toFormattedString gmtime_r t = ?text"
    using assms(1) by (simp add: toFormattedString_def snprintf_def kMicroSecondsPerSecond_def cdiv_nonneg cmod_nonneg Let_def)
  with len show "length (toFormattedString gmtime_r t) = 24" by simp
qed

lemma toFormattedString_example:
  "toFormattedString (\<lambda>_. \<lparr>tm_year = 124, tm_mon = 0, tm_mday = 5, tm_hour = 7, tm_min = 8, tm_sec = 9\<rparr>) (Timestamp 42)
    = ''202401 5:07:08:09.000042''"
  by code_simp

lemma read_nat_zeros: "read_nat (replicate n (CHR ''0'') @ cs) 0 = read_nat cs 0"
  by (induction n) simp_all

lemma read_pad_zeros: "0 \<le> i \<Longrightarrow> int (read_nat (pad_zeros w i) 0) = i"
  by (simp add: pad_zeros_def Let_def read_nat_zeros read_show_nat)

lemma toString_eq:
  assumes "0 \<le> microSecondsSinceEpoch t" and "microSecondsSinceEpoch t < 10 ^ 24"
  shows "toString t = show_int (microSecondsSinceEpoch t div 1000000) @ ''.'' @
    pad_zeros 6 (microSecondsSinceEpoch t mod 1000000)"
proof -
  let ?m = "microSecondsSinceEpoch t"
  have "nat (?m div 1000000) < 10 ^ 18" using assms by (simp add: nat_less_iff div_less)
  then have "length (show_nat (nat (?m div 1000000))) \<le> 18" by (intro length_show_nat_le) auto
  moreover have "length (pad_zeros 6 (?m mod 1000000)) = 6" by (intro length_pad_zeros) auto
  ultimately have "length (show_int (?m div 1000000) @ ''.'' @ pad_zeros 6 (?m mod 1000000)) \<le> 30"
    using assms by (simp add: show_int_def pos_imp_zdiv_neg_iff)
  then show ?thesis
    using assms by (simp add: toString_def snprintf_def kMicroSecondsPerSecond_def cdiv_nonneg
        cmod_nonneg Let_def)
qed

text \<open>
  Printing a timestamp is faithful: two timestamps at or after the epoch that print the same
  are the same; the microseconds keep their six digits, and no 64 bit count is long enough for
  \<open>snprintf\<close> to cut the text.
\<close>

theorem toString_inj:
  assumes "0 \<le> microSecondsSinceEpoch t" "microSecondsSinceEpoch t < 10 ^ 24"
    and "0 \<le> microSecondsSinceEpoch u" "microSecondsSinceEpoch u < 10 ^ 24"
    and eq: "toString t = toString u"
  shows "t = u"
proof -
  let ?s = "\<lambda>t. show_int (microSecondsSinceEpoch t div 1000000)"
    and ?p = "\<lambda>t. pad_zeros 6 (microSecondsSinceEpoch t mod 1000000)"
  have "(?s t @ ''.'') @ ?p t = (?s u @ ''.'') @ ?p u"
    using eq assms by (simp add: toString_eq)
  moreover have "length (?p t) = length (?p u)" by (simp add: length_pad_zeros)
  ultimately have "?s t @ ''.'' = ?s u @ ''.'' \<and> ?p t = ?p u"
    by (simp only: append_eq_append_conv simp_thms)
  then have p: "?p t = ?p u" and "?s t @ ''.'' = ?s u @ ''.''" by blast+
  then have div_eq: "microSecondsSinceEpoch t div 1000000 = microSecondsSinceEpoch u div 1000000" by simp
  have "microSecondsSinceEpoch t mod 1000000 = microSecondsSinceEpoch u mod 1000000"
    using arg_cong [OF p, of "\<lambda>s. int (read_nat s 0)"] by (simp add: read_pad_zeros)
  with div_eq have "microSecondsSinceEpoch t = microSecondsSinceEpoch u"
    by (metis div_mod_decomp_int)
  then show ?thesis by (rule Timestamp.expand)
qed

theorem toString_inj_witness:
  "toString (Timestamp 1000000) = toString (now_of 1 0) \<and> Timestamp 1000000 = now_of 1 0 \<and>
    toString (Timestamp 1000001) = ''1.000001''"
proof -
  have eq: "now_of 1 0 = Timestamp 1000000" by (simp add: now_of_def kMicroSecondsPerSecond_def)
  then have "Timestamp 1000000 = now_of 1 0"
    by (intro toString_inj) simp_all
  moreover have "toString (Timestamp 1000001) = ''1.000001''"
    by code_simp
  ultimately show ?thesis by simp
qed

end
