(* ===== verification/HttpRequest.thy ===== *)
theory HttpRequest
  imports Buffer Timestamp "HOL-Library.List_Lexorder" "HOL-Library.Char_ord"
begin

text \<open>
  \<open>muduo/net/http/HttpRequest.h\<close>, \<open>HttpContext.h\<close> and the parser of \<open>HttpServer.cc\<close>. A request and the
  context of a connection are records of their members; the bytes a pointer pair delimits are a string.
  The loop of \<open>parseRequest\<close> need not end, so it is a partial function whose value \<open>None\<close> is "does not
  return"; \<open>parse_step\<close> is one iteration.

  The specification \<open>parse_spec\<close> is a function of the bytes alone: it cuts the input into lines.
  The lemmas show that the loop over a \<open>Buffer\<close> returns what the specification says, and that the
  specification does not depend on how the bytes were cut into deliveries.
\<close>

section \<open>Requests\<close>

datatype Method = kInvalid | kGet | kPost | kHead | kPut | kDelete

datatype Version = kUnknow | kHttp10 | kHttp11

record HttpRequest =
  rq_method :: Method
  rq_version :: Version
  rq_path :: string
  rq_receiveTime :: Timestamp
  rq_headers :: "(string \<times> string) list"

definition new_HttpRequest :: HttpRequest where
  "new_HttpRequest = \<lparr>rq_method = kInvalid, rq_version = kUnknow, rq_path = [],
     rq_receiveTime = Timestamp 0, rq_headers = []\<rparr>"

definition setVersion :: "Version \<Rightarrow> HttpRequest \<Rightarrow> HttpRequest" where
  "setVersion v r = r\<lparr>rq_version := v\<rparr>"

definition getVersion :: "HttpRequest \<Rightarrow> Version" where
  "getVersion r = rq_version r"

definition setMethod :: "string \<Rightarrow> HttpRequest \<Rightarrow> (bool \<times> HttpRequest) result" where
  "setMethod m r =
     rbind (guard (rq_method r = kInvalid) ''method_ == kInvalid'') (\<lambda>_.
     let r' = (if m = ''GET'' then r\<lparr>rq_method := kGet\<rparr>
               else if m = ''POST'' then r\<lparr>rq_method := kPost\<rparr>
               else if m = ''HEAD'' then r\<lparr>rq_method := kHead\<rparr>
               else if m = ''PUT'' then r\<lparr>rq_method := kHead\<rparr>
               else if m = ''DELETE'' then r\<lparr>rq_method := kDelete\<rparr>
               else r\<lparr>rq_method := kInvalid\<rparr>)
     in Inr (rq_method r' \<noteq> kInvalid, r'))"

definition methodString :: "HttpRequest \<Rightarrow> string" where
  "methodString r = (case rq_method r of
     kGet \<Rightarrow> ''GET'' | kPost \<Rightarrow> ''POST'' | kHead \<Rightarrow> ''HEAD'' | kPut \<Rightarrow> ''PUT''
   | kDelete \<Rightarrow> ''DELETE'' | _ \<Rightarrow> ''UNKNOW'')"

definition setPath :: "string \<Rightarrow> HttpRequest \<Rightarrow> HttpRequest" where
  "setPath p r = r\<lparr>rq_path := p\<rparr>"

definition setReceiveTime :: "Timestamp \<Rightarrow> HttpRequest \<Rightarrow> HttpRequest" where
  "setReceiveTime t r = r\<lparr>rq_receiveTime := t\<rparr>"

fun trim_right :: "string \<Rightarrow> string" where
  \<comment> \<open>the loop \<open>while(!value.empty() && isspace(value[value.size()-1]))\<close>\<close>
  "trim_right value =
     (if value \<noteq> [] \<and> isspace (value ! (length value - 1))
      then trim_right (take (length value - 1) value) else value)"

declare trim_right.simps [simp del]

text \<open>\<open>line\<close> are the bytes from \<open>start\<close> to \<open>end\<close>, \<open>colon\<close> an offset into them.\<close>

definition rq_addHeader :: "string \<Rightarrow> nat \<Rightarrow> HttpRequest \<Rightarrow> HttpRequest" where
  "rq_addHeader line colon r =
     (let field = take colon line;
          value = dropWhile isspace (drop (colon + 1) line)
      in r\<lparr>rq_headers := map_insert field (trim_right value) (rq_headers r)\<rparr>)"

definition getHeader :: "string \<Rightarrow> HttpRequest \<Rightarrow> string" where
  "getHeader field r = (case map_of (rq_headers r) field of Some v \<Rightarrow> v | None \<Rightarrow> [])"

definition swap_request :: "HttpRequest \<Rightarrow> HttpRequest \<Rightarrow> HttpRequest \<times> HttpRequest" where
  "swap_request this that =
     (this\<lparr>rq_method := rq_method that, rq_path := rq_path that,
           rq_receiveTime := rq_receiveTime that, rq_headers := rq_headers that\<rparr>,
      that\<lparr>rq_method := rq_method this, rq_path := rq_path this,
           rq_receiveTime := rq_receiveTime this, rq_headers := rq_headers this\<rparr>)"

section \<open>The context of a connection\<close>

datatype HttpRequestParseState = kExpectRequestLine | kExpectHeaders | kExpectBody | kGotAll

record HttpContext =
  hc_state :: HttpRequestParseState
  hc_request :: HttpRequest

definition new_HttpContext :: HttpContext where
  "new_HttpContext = \<lparr>hc_state = kExpectRequestLine, hc_request = new_HttpRequest\<rparr>"

definition gotAll :: "HttpContext \<Rightarrow> bool" where
  "gotAll c \<longleftrightarrow> hc_state c = kGotAll"

definition receiveRequestLine :: "HttpContext \<Rightarrow> HttpContext" where
  "receiveRequestLine c = c\<lparr>hc_state := kExpectHeaders\<rparr>"

definition receiveHeaders :: "HttpContext \<Rightarrow> HttpContext" where
  "receiveHeaders c = c\<lparr>hc_state := kGotAll\<rparr>"

definition hc_reset :: "HttpContext \<Rightarrow> HttpContext" where
  "hc_reset c = c\<lparr>hc_state := kExpectRequestLine,
     hc_request := fst (swap_request (hc_request c) new_HttpRequest)\<rparr>"

section \<open>The parser\<close>

text \<open>What follows the path on the request line.\<close>

definition parse_version :: "string \<Rightarrow> HttpRequest \<Rightarrow> bool \<times> HttpRequest" where
  "parse_version rest r =
     (if length rest = 8 \<and> take 7 rest = ''HTTP/1.'' then
        if rest ! 7 = CHR ''1'' then (True, setVersion kHttp11 r)
        else if rest ! 7 = CHR ''0'' then (True, setVersion kHttp10 r)
        else (False, r)
      else (False, r))"

definition processRequestLine :: "string \<Rightarrow> HttpRequest \<Rightarrow> (bool \<times> HttpRequest) result" where
  "processRequestLine line r =
     (let space = std_find (CHR '' '') line in
      if space = length line then Inr (False, r) else
      rbind (setMethod (take space line) r) (\<lambda>(known, r).
      if \<not> known then Inr (False, r) else
      let rest = drop (space + 1) line;
          space2 = std_find (CHR '' '') rest
      in if space2 = length rest then Inr (False, r)
         else Inr (parse_version (drop (space2 + 1) rest) (setPath (take space2 rest) r))))"

text \<open>One iteration of the loop: \<open>ok\<close>, \<open>hasMore\<close>, the buffer and the context after it.\<close>

type_synonym parse_state = "bool \<times> bool \<times> Buffer \<times> HttpContext"

definition parse_request_line :: "Timestamp \<Rightarrow> bool \<Rightarrow> Buffer \<Rightarrow> HttpContext \<Rightarrow> parse_state result" where
  "parse_request_line receiveTime ok b c =
     (case findCRLF b of
        None \<Rightarrow> Inr (ok, False, b, c)
      | Some crlf \<Rightarrow>
          rbind (processRequestLine (bytes_at (peek b) crlf b) (hc_request c)) (\<lambda>(ok, r).
          let c = c\<lparr>hc_request := r\<rparr> in
          if ok then
            let c = c\<lparr>hc_request := setReceiveTime receiveTime r\<rparr> in
            rbind (retrieveUntil (crlf + 2) b) (\<lambda>b. Inr (True, True, b, receiveRequestLine c))
          else Inr (False, False, b, c)))"

definition parse_header_line :: "bool \<Rightarrow> Buffer \<Rightarrow> HttpContext \<Rightarrow> parse_state result" where
  "parse_header_line ok b c =
     (case findCRLF b of
        None \<Rightarrow> Inr (ok, False, b, c)
      | Some crlf \<Rightarrow>
          let line = bytes_at (peek b) crlf b;
              colon = std_find (CHR '':'') line;
              c' = (if colon \<noteq> length line
                    then c\<lparr>hc_request := rq_addHeader line colon (hc_request c)\<rparr>
                    else receiveHeaders c);
              hasMore = (colon \<noteq> length line \<or> \<not> gotAll c')
          in rbind (retrieveUntil (crlf + 2) b) (\<lambda>b. Inr (ok, hasMore, b, c')))"

definition parse_step :: "Timestamp \<Rightarrow> bool \<Rightarrow> Buffer \<Rightarrow> HttpContext \<Rightarrow> parse_state result" where
  "parse_step receiveTime ok b c = (case hc_state c of
     kExpectRequestLine \<Rightarrow> parse_request_line receiveTime ok b c
   | kExpectHeaders \<Rightarrow> parse_header_line ok b c
   | kExpectBody \<Rightarrow> Inr (ok, True, b, c)
   | kGotAll \<Rightarrow> Inr (ok, True, b, c))"

partial_function (option) parse_loop ::
  "Timestamp \<Rightarrow> parse_state \<Rightarrow> (bool \<times> Buffer \<times> HttpContext) result option" where
  "parse_loop receiveTime p = (case p of (ok, hasMore, b, c) \<Rightarrow>
     if hasMore then
       case parse_step receiveTime ok b c of
         Inl e \<Rightarrow> Some (Inl e)
       | Inr p' \<Rightarrow> parse_loop receiveTime p'
     else Some (Inr (ok, b, c)))"

definition parseRequest ::
  "Timestamp \<Rightarrow> Buffer \<Rightarrow> HttpContext \<Rightarrow> (bool \<times> Buffer \<times> HttpContext) result option" where
  "parseRequest receiveTime b c = parse_loop receiveTime (True, True, b, c)"

section \<open>The specification of the parser\<close>

text \<open>
  What a complete line does to a context, and the parser as a function of the bytes: it consumes
  complete lines until the request is complete, a request line is malformed, or no line is left.
\<close>

definition line_spec :: "Timestamp \<Rightarrow> string \<Rightarrow> HttpContext \<Rightarrow> (bool \<times> HttpContext) result" where
  "line_spec t line c =
     (if hc_state c = kExpectRequestLine then
        rbind (processRequestLine line (hc_request c)) (\<lambda>(ok, r).
        Inr (ok, if ok then \<lparr>hc_state = kExpectHeaders, hc_request = setReceiveTime t r\<rparr>
                 else c\<lparr>hc_request := r\<rparr>))
      else Inr (True,
        if CHR '':'' \<in> set line
        then c\<lparr>hc_request := rq_addHeader line (std_find (CHR '':'') line) (hc_request c)\<rparr>
        else c\<lparr>hc_state := kGotAll\<rparr>))"

definition awaiting :: "HttpContext \<Rightarrow> bool" where
  "awaiting c \<longleftrightarrow> hc_state c = kExpectRequestLine \<or> hc_state c = kExpectHeaders"

definition has_line :: "string \<Rightarrow> bool" where
  "has_line xs \<longleftrightarrow> std_search kCRLF xs < length xs"

definition first_line :: "string \<Rightarrow> string" where
  "first_line xs = take (std_search kCRLF xs) xs"

definition after_line :: "string \<Rightarrow> string" where
  "after_line xs = drop (std_search kCRLF xs + 2) xs"

function parse_spec :: "Timestamp \<Rightarrow> string \<Rightarrow> HttpContext \<Rightarrow> (bool \<times> string \<times> HttpContext) result" where
  "parse_spec t xs c =
     (if awaiting c \<and> has_line xs then
        rbind (line_spec t (first_line xs) c) (\<lambda>(ok, c').
        if ok then parse_spec t (after_line xs) c' else Inr (False, xs, c'))
      else Inr (True, xs, c))"
  by pat_completeness auto
termination
  by (relation "measure (\<lambda>(t, xs, c). length xs)") (auto simp: has_line_def after_line_def)

declare parse_spec.simps [simp del]

lemma has_line_split:
  assumes "has_line xs"
  shows "xs = first_line xs @ kCRLF @ after_line xs" and "std_search kCRLF xs + 2 \<le> length xs"
proof -
  let ?n = "std_search kCRLF xs"
  have pat: "take 2 (drop ?n xs) = kCRLF"
    using std_search_found [of kCRLF xs] assms by (simp add: has_line_def kCRLF_def numeral_2_eq_2)
  then have "length (take 2 (drop ?n xs)) = 2" by (simp add: kCRLF_def)
  then show "?n + 2 \<le> length xs" using assms by (auto simp: has_line_def min_def split: if_splits)
  show "xs = first_line xs @ kCRLF @ after_line xs"
    using pat unfolding first_line_def after_line_def
    by (metis add.commute append_take_drop_id drop_drop)
qed

lemma has_line_append:
  assumes "has_line xs"
  shows "has_line (xs @ ys)" "first_line (xs @ ys) = first_line xs"
    "after_line (xs @ ys) = after_line xs @ ys"
  using assms std_search_append [of kCRLF xs ys] has_line_split(2) [OF assms]
  by (auto simp: has_line_def first_line_def after_line_def)

text \<open>Cutting the bytes in two changes nothing, as long as the first part left the request incomplete.\<close>

lemma parse_spec_append:
  "parse_spec t (xs @ ys) c =
     (case parse_spec t xs c of
        Inl e \<Rightarrow> Inl e
      | Inr (ok, rest, c') \<Rightarrow> if ok \<and> awaiting c' then parse_spec t (rest @ ys) c'
                            else Inr (ok, rest @ ys, c'))"
proof (induction t xs c rule: parse_spec.induct)
  case (1 t xs c)
  show ?case
  proof (cases "awaiting c \<and> has_line xs")
    case False
    then show ?thesis
      by (auto simp: parse_spec.simps [of t xs c] parse_spec.simps [of t "xs @ ys" c])
  next
    case True
    note lines = has_line_append [OF conjunct2 [OF True], of ys]
    show ?thesis
    proof (cases "line_spec t (first_line xs) c")
      case (Inl e)
      with True lines show ?thesis
        by (simp add: parse_spec.simps [of t xs c] parse_spec.simps [of t "xs @ ys" c])
    next
      case (Inr r)
      obtain ok c' where r: "r = (ok, c')" by (cases r)
      from "1.IH" [of "True" "c'"] True lines Inr r show ?thesis
        by (cases ok)
          (simp_all add: parse_spec.simps [of t xs c] parse_spec.simps [of t "xs @ ys" c] rbind_def)
    qed
  qed
qed

text \<open>The time of arrival is recorded and has no other influence.\<close>

definition retime :: "Timestamp \<Rightarrow> HttpContext \<Rightarrow> HttpContext" where
  "retime x c = c\<lparr>hc_request := setReceiveTime x (hc_request c)\<rparr>"

lemma setReceiveTime_simps [simp]:
  "rq_method (setReceiveTime x r) = rq_method r" "rq_version (setReceiveTime x r) = rq_version r"
  "rq_path (setReceiveTime x r) = rq_path r" "rq_headers (setReceiveTime x r) = rq_headers r"
  "setReceiveTime x (setReceiveTime y r) = setReceiveTime x r"
  by (simp_all add: setReceiveTime_def)

lemma retime_simps [simp]:
  "hc_state (retime x c) = hc_state c" "awaiting (retime x c) = awaiting c"
  "hc_request (retime x c) = setReceiveTime x (hc_request c)" "retime x (retime y c) = retime x c"
  by (simp_all add: retime_def awaiting_def)

lemma processRequestLine_time:
  "processRequestLine line (setReceiveTime x r) =
     rbind (processRequestLine line r) (\<lambda>(ok, r). Inr (ok, setReceiveTime x r))"
proof -
  have "setMethod m (setReceiveTime x r) =
      rbind (setMethod m r) (\<lambda>(k, r). Inr (k, setReceiveTime x r))" for m
    by (simp add: setMethod_def setReceiveTime_def rbind_def guard_def)
  moreover have "parse_version v (setPath p (setReceiveTime x r)) =
      (case parse_version v (setPath p r) of (k, r) \<Rightarrow> (k, setReceiveTime x r))" for v p r
    by (simp add: parse_version_def setPath_def setVersion_def setReceiveTime_def)
  ultimately show ?thesis
    by (auto simp: processRequestLine_def rbind_def Let_def split: sum.split prod.split if_splits)
qed

lemma line_spec_time:
  "\<exists>y. line_spec t' line (retime x c) = rbind (line_spec t line c) (\<lambda>(ok, c). Inr (ok, retime y c))"
proof (cases "hc_state c = kExpectRequestLine")
  case False
  then show ?thesis
    by (intro exI [of _ x]) (simp add: line_spec_def retime_def rq_addHeader_def setReceiveTime_def)
next
  case True
  show ?thesis
  proof (cases "processRequestLine line (hc_request c)")
    case (Inl e)
    with True show ?thesis by (simp add: line_spec_def processRequestLine_time)
  next
    case (Inr r)
    with True have "line_spec t' line (retime x c) = rbind (line_spec t line c)
        (\<lambda>(ok, c). Inr (ok, retime (if ok then t' else x) c))"
      by (cases r) (auto simp: line_spec_def processRequestLine_time retime_def)
    moreover have "\<exists>y. \<forall>c. retime (if fst r then t' else x) c = retime y c" by blast
    ultimately show ?thesis using Inr True by (cases r) (auto simp: line_spec_def)
  qed
qed

lemma parse_spec_time:
  "\<exists>y. parse_spec t' xs (retime x c) = rbind (parse_spec t xs c) (\<lambda>(ok, xs, c). Inr (ok, xs, retime y c))"
proof (induction t xs c arbitrary: x rule: parse_spec.induct)
  case (1 t xs c)
  show ?case
  proof (cases "awaiting c \<and> has_line xs")
    case False
    then show ?thesis by (auto simp: parse_spec.simps [of _ xs])
  next
    case True
    obtain y where y: "line_spec t' (first_line xs) (retime x c) =
        rbind (line_spec t (first_line xs) c) (\<lambda>(ok, c). Inr (ok, retime y c))"
      using line_spec_time by blast
    show ?thesis
    proof (cases "line_spec t (first_line xs) c")
      case (Inl e)
      with True y show ?thesis by (simp add: parse_spec.simps [of _ xs])
    next
      case (Inr r)
      obtain ok c' where r: "r = (ok, c')" by (cases r)
      show ?thesis
      proof (cases ok)
        case False
        with True y Inr r show ?thesis by (auto simp: parse_spec.simps [of _ xs])
      next
        case ok: True
        with "1.IH" [of True y c'] True r Inr y show ?thesis
          by (auto simp: parse_spec.simps [of _ xs])
      qed
    qed
  qed
qed

section \<open>The loop does what the specification says\<close>

lemma peek_line:
  assumes "buffer_ok b"
  shows "findCRLF b = None \<longleftrightarrow> \<not> has_line (contents b)"
    and "findCRLF b = Some k \<Longrightarrow> has_line (contents b) \<and> bytes_at (peek b) k b = first_line (contents b) \<and>
      (\<exists>b'. retrieveUntil (k + 2) b = Inr b' \<and> buffer_ok b' \<and> contents b' = after_line (contents b))"
proof -
  show none: "findCRLF b = None \<longleftrightarrow> \<not> has_line (contents b)"
    using findCRLF_None [OF assms] std_search_le [of kCRLF "contents b"] by (auto simp: has_line_def)
  assume k: "findCRLF b = Some k"
  with none have line: "has_line (contents b)" by auto
  let ?n = "std_search kCRLF (contents b)"
  have n: "k = readerIndex b + ?n" "?n + 2 \<le> readableBytes b"
    using k findCRLF_Some [OF assms] has_line_split(2) [OF line] length_contents [OF assms] by auto
  from retrieve_correct [OF assms n(2)] obtain b' where
    "retrieve (?n + 2) b = Inr b'" "buffer_ok b'" "contents b' = drop (?n + 2) (contents b)" by blast
  moreover have "readerIndex b + (?n + 2) \<le> writerIndex b"
    using n(2) assms by (simp add: readableBytes_def buffer_ok_def)
  then have "retrieveUntil (k + 2) b = retrieve (?n + 2) b"
    unfolding n(1) by (simp add: retrieveUntil_def peek_def beginWrite_def)
  moreover have "bytes_at (peek b) k b = first_line (contents b)"
    using bytes_at_prefix [of ?n b] n by (simp add: peek_def first_line_def)
  ultimately show "has_line (contents b) \<and> bytes_at (peek b) k b = first_line (contents b) \<and>
      (\<exists>b'. retrieveUntil (k + 2) b = Inr b' \<and> buffer_ok b' \<and> contents b' = after_line (contents b))"
    using line by (simp add: after_line_def)
qed

lemma parse_step_no_line:
  assumes "buffer_ok b" "awaiting c" "\<not> has_line (contents b)"
  shows "parse_step t True b c = Inr (True, False, b, c)"
  using peek_line(1) [OF assms(1)] assms(2,3)
  by (auto simp: parse_step_def awaiting_def parse_request_line_def parse_header_line_def)

lemma parse_step_line:
  assumes "buffer_ok b" "awaiting c" and line: "has_line (contents b)"
  shows "case line_spec t (first_line (contents b)) c of
      Inl e \<Rightarrow> parse_step t True b c = Inl e
    | Inr (ok, c') \<Rightarrow> if ok
        then \<exists>b'. parse_step t True b c = Inr (True, awaiting c', b', c') \<and> buffer_ok b' \<and>
               contents b' = after_line (contents b)
        else parse_step t True b c = Inr (False, False, b, c')"
proof -
  obtain k b' where k: "findCRLF b = Some k" "bytes_at (peek b) k b = first_line (contents b)"
    "retrieveUntil (k + 2) b = Inr b'" "buffer_ok b'" "contents b' = after_line (contents b)"
    using peek_line [OF assms(1)] line by (cases "findCRLF b") blast+
  let ?line = "first_line (contents b)"
  show ?thesis
  proof (cases "hc_state c = kExpectRequestLine")
    case True
    show ?thesis
    proof (cases "processRequestLine ?line (hc_request c)")
      case (Inl e)
      with True k show ?thesis by (simp add: parse_step_def parse_request_line_def line_spec_def)
    next
      case (Inr r)
      with True k show ?thesis
        by (cases r) (simp add: parse_step_def parse_request_line_def line_spec_def
            receiveRequestLine_def awaiting_def)
    qed
  next
    case False
    with assms(2) have "hc_state c = kExpectHeaders" by (simp add: awaiting_def)
    moreover have "std_find (CHR '':'') ?line \<noteq> length ?line \<longleftrightarrow> CHR '':'' \<in> set ?line"
      using std_find_less_iff [of "CHR '':''" ?line] std_find_le [of "CHR '':''" ?line] by linarith
    ultimately show ?thesis using k
      by (simp add: parse_step_def parse_header_line_def line_spec_def receiveHeaders_def awaiting_def
          gotAll_def Let_def)
  qed
qed

lemma parse_loop_done: "parse_loop t (ok, False, b, c) = Some (Inr (ok, b, c))"
  by (simp add: parse_loop.simps)

lemma parse_loop_spec:
  assumes "buffer_ok b" "awaiting c"
  shows "case parse_spec t (contents b) c of
      Inl e \<Rightarrow> parse_loop t (True, True, b, c) = Some (Inl e)
    | Inr (ok, xs, c') \<Rightarrow>
        \<exists>b'. parse_loop t (True, True, b, c) = Some (Inr (ok, b', c')) \<and> buffer_ok b' \<and> contents b' = xs"
  using assms
proof (induction t "contents b" c arbitrary: b rule: parse_spec.induct)
  case (1 t c b)
  note loop = parse_loop.simps [of t "(True, True, b, c)"]
  show ?case
  proof (cases "has_line (contents b)")
    case False
    with "1.prems" show ?thesis
      by (simp add: loop parse_loop_done parse_step_no_line parse_spec.simps [of t "contents b"])
  next
    case line: True
    note step = parse_step_line [OF "1.prems" line, of t]
    note spec = parse_spec.simps [of t "contents b" c]
    show ?thesis
    proof (cases "line_spec t (first_line (contents b)) c")
      case (Inl e)
      with step line "1.prems"(2) show ?thesis by (simp add: spec loop)
    next
      case (Inr r)
      obtain ok c' where r: "r = (ok, c')" by (cases r)
      show ?thesis
      proof (cases ok)
        case False
        with step line "1.prems" Inr r show ?thesis by (simp add: spec loop parse_loop_done)
      next
        case True
        with step Inr r obtain b' where b': "parse_step t True b c = Inr (True, awaiting c', b', c')"
          "buffer_ok b'" "contents b' = after_line (contents b)" by auto
        have eqs: "parse_loop t (True, True, b, c) = parse_loop t (True, awaiting c', b', c')"
          "parse_spec t (contents b) c = parse_spec t (after_line (contents b)) c'"
          using line "1.prems"(2) Inr r True b' by (simp_all add: spec loop)
        show ?thesis
        proof (cases "awaiting c'")
          case more: True
          then have loop': "parse_loop t (True, True, b, c) = parse_loop t (True, True, b', c')"
            using eqs(1) by simp
          show ?thesis unfolding loop' eqs(2)
            using "1.hyps" [of True b' c'] line "1.prems"(2) b' more by simp
        next
          case False
          with b'(2) show ?thesis by (simp add: eqs parse_loop_done b'(3)
              parse_spec.simps [of t "after_line (contents b)" c'])
        qed
      qed
    qed
  qed
qed

lemma parse_loop_stuck:
  assumes "hc_state c = kGotAll \<or> hc_state c = kExpectBody"
  shows "parse_loop t (ok, True, b, c) = None"
proof -
  have never: "p = (ok, True, b, c) \<longrightarrow> False" if "parse_loop t p = Some y" for t p y
  proof (rule parse_loop.raw_induct [where P = "\<lambda>t p y. p = (ok, True, b, c) \<longrightarrow> False", OF _ that])
    fix loop t p y
    assume IH: "\<And>t p y. loop t p = Some y \<Longrightarrow> p = (ok, True, b, c) \<longrightarrow> False"
      and body: "(case p of (ok, hasMore, b, c) \<Rightarrow>
          if hasMore then case parse_step t ok b c of Inl e \<Rightarrow> Some (Inl e) | Inr p' \<Rightarrow> loop t p'
          else Some (Inr (ok, b, c))) = Some y"
    have "parse_step t ok b c = Inr (ok, True, b, c)" using assms by (auto simp: parse_step_def)
    with body have "loop t p = Some y" if "p = (ok, True, b, c)" using that by simp
    with IH [of t p y] show "p = (ok, True, b, c) \<longrightarrow> False" by blast
  qed
  show ?thesis using never by (cases "parse_loop t (ok, True, b, c)") blast+
qed

lemma parseRequest_spec:
  assumes "buffer_ok b" "awaiting c"
  shows "case parseRequest t b c of
      None \<Rightarrow> False
    | Some (Inl e) \<Rightarrow> parse_spec t (contents b) c = Inl e
    | Some (Inr (ok, b', c')) \<Rightarrow> buffer_ok b' \<and> parse_spec t (contents b) c = Inr (ok, contents b', c')"
  using parse_loop_spec [OF assms, of t]
  by (cases "parse_spec t (contents b) c") (auto simp: parseRequest_def)

section \<open>Properties\<close>

text \<open>
  C22. \<open>parseRequest\<close> returns exactly when the context waits for a request line or for headers: then
  every iteration but the last consumes a line, and its answer is that of the specification, on the
  buffer's readable bytes, with the unconsumed bytes left readable. Entered on a context whose request
  is complete (or waits for a body, which no operation makes it do) the loop never ends.
\<close>

theorem parseRequest_returns:
  assumes "buffer_ok b"
  shows "case parseRequest t b c of
      None \<Rightarrow> \<not> awaiting c
    | Some (Inl e) \<Rightarrow> awaiting c \<and> parse_spec t (contents b) c = Inl e
    | Some (Inr (ok, b', c')) \<Rightarrow>
        awaiting c \<and> buffer_ok b' \<and> parse_spec t (contents b) c = Inr (ok, contents b', c')"
proof (cases "awaiting c")
  case True
  with parseRequest_spec [OF assms True, of t] show ?thesis
    by (auto split: option.splits sum.splits)
next
  case False
  then have "hc_state c = kGotAll \<or> hc_state c = kExpectBody"
    by (cases "hc_state c") (simp_all add: awaiting_def)
  with False show ?thesis by (simp add: parseRequest_def parse_loop_stuck)
qed

theorem parseRequest_returns_witness:
  "case parseRequest (Timestamp 5) new_buffer new_HttpContext of
      None \<Rightarrow> \<not> awaiting new_HttpContext
    | Some (Inl e) \<Rightarrow> awaiting new_HttpContext \<and> parse_spec (Timestamp 5) (contents new_buffer) new_HttpContext = Inl e
    | Some (Inr (ok, b', c')) \<Rightarrow> awaiting new_HttpContext \<and> buffer_ok b' \<and>
        parse_spec (Timestamp 5) (contents new_buffer) new_HttpContext = Inr (ok, contents b', c')"
  by (rule parseRequest_returns) simp

text \<open>
  Deliveries: each is appended to the input buffer and parsed, until the request is complete or
  refused; the deliveries that were not needed are returned.
\<close>

type_synonym delivery = "Timestamp \<times> string"

fun deliver :: "delivery list \<Rightarrow> Buffer \<Rightarrow> HttpContext \<Rightarrow>
    (bool \<times> Buffer \<times> HttpContext \<times> delivery list) result option" where
  "deliver [] b c = Some (Inr (True, b, c, []))"
| "deliver ((t, data) # ds) b c =
     (case append_buf data b of
        Inl e \<Rightarrow> Some (Inl e)
      | Inr b \<Rightarrow>
          (case parseRequest t b c of
             None \<Rightarrow> None
           | Some (Inl e) \<Rightarrow> Some (Inl e)
           | Some (Inr (ok, b, c)) \<Rightarrow>
               if ok \<and> \<not> gotAll c then deliver ds b c else Some (Inr (ok, b, c, ds))))"

definition same_request :: "HttpContext \<Rightarrow> HttpContext \<Rightarrow> bool" where
  \<comment> \<open>equal up to the time of arrival\<close>
  "same_request c c' \<longleftrightarrow> retime (Timestamp 0) c = retime (Timestamp 0) c'"

abbreviation delivered :: "delivery list \<Rightarrow> string" where
  "delivered ds \<equiv> concat (map snd ds)"

lemma parse_spec_state:
  "parse_spec t xs c = Inr (ok, ys, c') \<Longrightarrow> awaiting c \<Longrightarrow> \<not> gotAll c' \<Longrightarrow> awaiting c'"
proof (induction t xs c rule: parse_spec.induct)
  case (1 t xs c)
  show ?case
  proof (cases "has_line xs")
    case False
    with "1.prems" show ?thesis by (simp add: parse_spec.simps [of t xs])
  next
    case True
    with "1.prems" obtain k c1 where k: "line_spec t (first_line xs) c = Inr (k, c1)"
      "if k then parse_spec t (after_line xs) c1 = Inr (ok, ys, c') else c' = c1"
      by (auto simp: parse_spec.simps [of t xs] rbind_eq_Inr_conv split: if_splits)
    then have "gotAll c1 \<or> awaiting c1"
      using "1.prems"(2) by (auto simp: line_spec_def gotAll_def awaiting_def rbind_eq_Inr_conv split: if_splits)
    moreover have "c' = c1" if "gotAll c1" "k"
      using k that by (simp add: parse_spec.simps [of t "after_line xs"] gotAll_def awaiting_def)
    ultimately show ?thesis using "1.IH" [of True c1] True k "1.prems" by (cases k) auto
  qed
qed

lemma parse_spec_rest:
  "parse_spec t xs c = Inr (True, ys, c') \<Longrightarrow> awaiting c' \<Longrightarrow> \<not> has_line ys"
proof (induction t xs c rule: parse_spec.induct)
  case (1 t xs c)
  show ?case
  proof (cases "awaiting c \<and> has_line xs")
    case False
    with "1.prems" show ?thesis by (auto simp: parse_spec.simps [of t xs])
  next
    case True
    with "1.prems" obtain c1 where "parse_spec t (after_line xs) c1 = Inr (True, ys, c')"
      by (auto simp: parse_spec.simps [of t xs] rbind_eq_Inr_conv split: if_splits)
    with "1.IH" [of True c1] True "1.prems"(2) show ?thesis by simp
  qed
qed

lemma same_request_retime [simp]: "same_request (retime x c) c"
  by (simp add: same_request_def)

lemma deliver_spec:
  assumes "buffer_ok b" "awaiting c" "\<not> has_line (contents b)"
  shows "case deliver ds b c of
      None \<Rightarrow> False
    | Some (Inl e) \<Rightarrow> parse_spec t (contents b @ delivered ds) (retime x c) = Inl e
    | Some (Inr (ok, b', c', ds')) \<Rightarrow> buffer_ok b' \<and>
        (\<exists>c2. parse_spec t (contents b @ delivered ds) (retime x c) = Inr (ok, contents b' @ delivered ds', c2) \<and>
              same_request c2 c')"
  using assms
proof (induction ds arbitrary: b c x)
  case Nil
  then show ?case by (simp add: parse_spec.simps [of t "contents b"])
next
  case (Cons d ds)
  obtain t1 data where d: "d = (t1, data)" by (cases d)
  from append_correct [OF Cons.prems(1), of data] obtain b1 where
    b1: "append_buf data b = Inr b1" "buffer_ok b1" "contents b1 = contents b @ data" by blast
  obtain y where "parse_spec t (contents b1) (retime x c) =
      rbind (parse_spec t1 (contents b1) c) (\<lambda>(ok, xs, c). Inr (ok, xs, retime y c))"
    using parse_spec_time by blast
  note whole = parse_spec_append [of t "contents b1" "delivered ds" "retime x c", unfolded this]
  have eq: "contents b @ delivered (d # ds) = contents b1 @ delivered ds" by (simp add: b1 d)
  note code = parseRequest_spec [OF b1(2) Cons.prems(2), of t1]
  consider (err) e where "parseRequest t1 b1 c = Some (Inl e)" "parse_spec t1 (contents b1) c = Inl e"
    | (ok) k b2 c1 where "parseRequest t1 b1 c = Some (Inr (k, b2, c1))" "buffer_ok b2"
        "parse_spec t1 (contents b1) c = Inr (k, contents b2, c1)"
    using code by (auto split: option.splits sum.splits)
  then show ?case
  proof cases
    case err
    then show ?thesis unfolding eq whole by (simp add: d b1)
  next
    case ok
    have aw: "awaiting c1 \<longleftrightarrow> \<not> gotAll c1"
      using parse_spec_state [OF ok(3) Cons.prems(2)] by (auto simp: awaiting_def gotAll_def)
    show ?thesis
    proof (cases "k \<and> awaiting c1")
      case True
      with ok(3) have "\<not> has_line (contents b2)" by (auto dest: parse_spec_rest)
      note IH = Cons.IH [OF ok(2) conjunct2 [OF True] this, where x = y]
      have spec: "parse_spec t (contents b1 @ delivered ds) (retime x c) =
          parse_spec t (contents b2 @ delivered ds) (retime y c1)"
        unfolding whole ok(3) using True by simp
      have code: "deliver (d # ds) b c = deliver ds b2 c1" using ok(1) True aw by (simp add: d b1)
      show ?thesis unfolding eq spec code by (rule IH)
    next
      case False
      then have "parse_spec t (contents b1 @ delivered ds) (retime x c) =
          Inr (k, contents b2 @ delivered ds, retime y c1)"
        unfolding whole ok(3) by auto
      moreover have "deliver (d # ds) b c = Some (Inr (k, b2, c1, ds))"
        using ok(1) False aw by (auto simp: d b1)
      ultimately show ?thesis unfolding eq using ok(2) by simp
    qed
  qed
qed

text \<open>
  C10. The parser does not depend on how the network cuts a request: handing the bytes over in any
  number of deliveries, at any times, ends in the same answer, the same request (up to the recorded
  time of arrival) and the same unconsumed bytes as handing them over at once.
\<close>

theorem parse_fragmentation:
  assumes "buffer_ok b" "contents b = []" "awaiting c"
    and "buffer_ok w" "contents w = delivered ds"
  shows "case deliver ds b c of
      None \<Rightarrow> False
    | Some (Inl e) \<Rightarrow> parseRequest t w c = Some (Inl e)
    | Some (Inr (ok, b', c', ds')) \<Rightarrow>
        \<exists>w' c2. parseRequest t w c = Some (Inr (ok, w', c2)) \<and> same_request c2 c' \<and>
          contents w' = contents b' @ delivered ds'"
proof -
  have self: "c = retime (rq_receiveTime (hc_request c)) c"
    by (simp add: retime_def setReceiveTime_def)
  have "\<not> has_line (contents b)" by (simp add: assms(2) has_line_def)
  from deliver_spec [OF assms(1,3) this, where ds = ds and t = t and x = "rq_receiveTime (hc_request c)"]
  have "case deliver ds b c of
      None \<Rightarrow> False
    | Some (Inl e) \<Rightarrow> parse_spec t (contents w) c = Inl e
    | Some (Inr (ok, b', c', ds')) \<Rightarrow>
        \<exists>c2. parse_spec t (contents w) c = Inr (ok, contents b' @ delivered ds', c2) \<and> same_request c2 c'"
    unfolding self [symmetric] by (auto simp: assms(2,5) split: option.splits sum.splits)
  with parseRequest_spec [OF assms(4,3), of t] show ?thesis
    by (auto split: option.splits sum.splits)
qed

definition holding :: "string \<Rightarrow> Buffer" where
  \<comment> \<open>a buffer whose readable bytes are \<open>xs\<close>\<close>
  "holding xs = \<lparr>buffer = replicate kCheapPrepend (CHR 0x00) @ xs, readerIndex = kCheapPrepend,
     writerIndex = kCheapPrepend + length xs\<rparr>"

lemma holding_facts [simp]: "buffer_ok (holding xs)" "contents (holding xs) = xs"
  by (simp_all add: holding_def buffer_defs)

lemma awaiting_new [simp]: "awaiting new_HttpContext"
  by (simp add: awaiting_def new_HttpContext_def)

theorem parse_fragmentation_witness:
  "case deliver [(Timestamp 1, ''GET /''), (Timestamp 2, ''index'')] new_buffer new_HttpContext of
      None \<Rightarrow> False
    | Some (Inl e) \<Rightarrow> parseRequest (Timestamp 3) (holding ''GET /index'') new_HttpContext = Some (Inl e)
    | Some (Inr (ok, b', c', ds')) \<Rightarrow>
        \<exists>w' c2. parseRequest (Timestamp 3) (holding ''GET /index'') new_HttpContext = Some (Inr (ok, w', c2)) \<and>
          same_request c2 c' \<and> contents w' = contents b' @ delivered ds'"
  by (rule parse_fragmentation) simp_all

text \<open>A request as a client writes it.\<close>

definition header_line :: "string \<times> string \<Rightarrow> string" where
  "header_line h = fst h @ '': '' @ snd h @ kCRLF"

definition request_text :: "string \<Rightarrow> string \<Rightarrow> char \<Rightarrow> (string \<times> string) list \<Rightarrow> string" where
  "request_text m path minor hs =
     m @ '' '' @ path @ '' HTTP/1.'' @ [minor] @ kCRLF @ concat (map header_line hs) @ kCRLF"

definition method_of :: "string \<Rightarrow> Method" where
  "method_of m = (if m = ''GET'' then kGet else if m = ''POST'' then kPost else if m = ''HEAD'' then kHead
     else if m = ''PUT'' then kHead else if m = ''DELETE'' then kDelete else kInvalid)"

definition trimmed :: "string \<Rightarrow> bool" where
  "trimmed v \<longleftrightarrow> v = [] \<or> \<not> isspace (hd v) \<and> \<not> isspace (last v)"

definition plain_header :: "string \<times> string \<Rightarrow> bool" where
  "plain_header h \<longleftrightarrow> CHR '':'' \<notin> set (fst h) \<and> CHR 0x0D \<notin> set (fst h) \<and> CHR 0x0D \<notin> set (snd h) \<and>
     trimmed (snd h)"

lemma first_line_text:
  assumes "CHR 0x0D \<notin> set line"
  shows "has_line (line @ kCRLF @ rest)" "first_line (line @ kCRLF @ rest) = line"
    "after_line (line @ kCRLF @ rest) = rest"
proof -
  have "std_search kCRLF (line @ kCRLF @ rest) = length line"
    using assms
  proof (induction line)
    case Nil
    then show ?case by (simp add: kCRLF_def)
  next
    case (Cons c line)
    then have "c \<noteq> CHR 0x0D" by auto
    with Cons show ?case by (simp add: kCRLF_def)
  qed
  then show "has_line (line @ kCRLF @ rest)" "first_line (line @ kCRLF @ rest) = line"
    "after_line (line @ kCRLF @ rest) = rest"
    by (simp_all add: has_line_def first_line_def after_line_def kCRLF_def)
qed

lemma std_find_at: "x \<notin> set xs \<Longrightarrow> std_find x (xs @ x # ys) = length xs"
  by (induction xs) (auto simp: std_find_def)

lemma trim_right_last: "v = [] \<or> \<not> isspace (last v) \<Longrightarrow> trim_right v = v"
  by (subst trim_right.simps) (auto simp: last_conv_nth)

lemma addHeader_plain:
  assumes "plain_header h"
  shows "rq_addHeader (fst h @ '': '' @ snd h) (length (fst h)) r =
    r\<lparr>rq_headers := map_insert (fst h) (snd h) (rq_headers r)\<rparr>"
proof -
  have "dropWhile isspace (snd h) = snd h" "trim_right (snd h) = snd h"
    using assms by (auto simp: plain_header_def trimmed_def dropWhile_eq_self_iff intro: trim_right_last)
  then show ?thesis by (simp add: rq_addHeader_def isspace_def)
qed

lemma parse_headers_text:
  assumes "\<forall>h\<in>set hs. plain_header h" "hc_state c = kExpectHeaders"
  shows "parse_spec t (concat (map header_line hs) @ kCRLF @ rest) c =
    Inr (True, rest, \<lparr>hc_state = kGotAll, hc_request = (hc_request c)\<lparr>rq_headers :=
      fold (\<lambda>h. map_insert (fst h) (snd h)) hs (rq_headers (hc_request c))\<rparr>\<rparr>)"
  using assms
proof (induction hs arbitrary: c)
  case Nil
  then have "awaiting c" by (simp add: awaiting_def)
  moreover have "line_spec t [] c = Inr (True, c\<lparr>hc_state := kGotAll\<rparr>)"
    using Nil by (simp add: line_spec_def)
  ultimately show ?case
    using first_line_text [of "[]" rest]
    by (simp add: parse_spec.simps [of t "kCRLF @ rest"] parse_spec.simps [of t rest] awaiting_def)
next
  case (Cons h hs)
  let ?line = "fst h @ '': '' @ snd h" and ?rest = "concat (map header_line hs) @ kCRLF @ rest"
  let ?c = "c\<lparr>hc_request := (hc_request c)\<lparr>rq_headers :=
    map_insert (fst h) (snd h) (rq_headers (hc_request c))\<rparr>\<rparr>"
  have h: "plain_header h" using Cons.prems by simp
  then have "CHR 0x0D \<notin> set ?line" by (auto simp: plain_header_def)
  note lines = first_line_text [OF this, of ?rest]
  have "std_find (CHR '':'') ?line = length (fst h)"
    using h std_find_at [of "CHR '':''" "fst h" "CHR '' '' # snd h"] by (simp add: plain_header_def)
  then have "line_spec t ?line c = Inr (True, ?c)"
    using Cons.prems(2) addHeader_plain [OF h] by (simp add: line_spec_def)
  moreover have "awaiting c" using Cons.prems by (simp add: awaiting_def)
  moreover have "concat (map header_line (h # hs)) @ kCRLF @ rest = ?line @ kCRLF @ ?rest"
    by (simp add: header_line_def)
  ultimately have "parse_spec t (concat (map header_line (h # hs)) @ kCRLF @ rest) c = parse_spec t ?rest ?c"
    using lines by (simp only: parse_spec.simps [of t "?line @ kCRLF @ ?rest"] simp_thms if_True
        rbind_Inr prod.case)
  with Cons.IH [of ?c] Cons.prems show ?case by simp
qed

lemma request_line_text:
  assumes "rq_method r = kInvalid" "method_of m \<noteq> kInvalid" "CHR '' '' \<notin> set path"
    "minor = CHR ''0'' \<or> minor = CHR ''1''"
  shows "processRequestLine (m @ '' '' @ path @ '' HTTP/1.'' @ [minor]) r =
    Inr (True, r\<lparr>rq_method := method_of m, rq_path := path,
      rq_version := if minor = CHR ''1'' then kHttp11 else kHttp10\<rparr>)"
proof -
  let ?after = "path @ '' HTTP/1.'' @ [minor]"
  have "CHR '' '' \<notin> set m" using assms(2) by (auto simp: method_of_def split: if_splits)
  then have "std_find (CHR '' '') (m @ '' '' @ ?after) = length m"
    using std_find_at [of "CHR '' ''" m ?after] by simp
  moreover have "std_find (CHR '' '') ?after = length path"
    using std_find_at [of "CHR '' ''" path "''HTTP/1.'' @ [minor]"] assms(3) by simp
  moreover have "setMethod m r = Inr (True, r\<lparr>rq_method := method_of m\<rparr>)"
    using assms(1,2) by (auto simp: setMethod_def method_of_def split: if_splits)
  moreover have "parse_version (''HTTP/1.'' @ [minor]) r' =
      (True, r'\<lparr>rq_version := if minor = CHR ''1'' then kHttp11 else kHttp10\<rparr>)" for r'
    using assms(4) by (auto simp: parse_version_def setVersion_def)
  ultimately show ?thesis by (simp add: processRequestLine_def setPath_def)
qed

definition parsed_request :: "Timestamp \<Rightarrow> string \<Rightarrow> string \<Rightarrow> char \<Rightarrow> (string \<times> string) list \<Rightarrow> HttpRequest" where
  "parsed_request t m path minor hs = \<lparr>rq_method = method_of m,
     rq_version = (if minor = CHR ''1'' then kHttp11 else kHttp10), rq_path = path, rq_receiveTime = t,
     rq_headers = fold (\<lambda>h. map_insert (fst h) (snd h)) hs []\<rparr>"

definition hc_ready :: "HttpContext \<Rightarrow> bool" where
  "hc_ready c \<longleftrightarrow> hc_state c = kExpectRequestLine \<and> rq_method (hc_request c) = kInvalid \<and>
     rq_headers (hc_request c) = []"

definition well_formed :: "string \<Rightarrow> string \<Rightarrow> char \<Rightarrow> (string \<times> string) list \<Rightarrow> bool" where
  "well_formed m path minor hs \<longleftrightarrow> method_of m \<noteq> kInvalid \<and> CHR '' '' \<notin> set path \<and> CHR 0x0D \<notin> set path \<and>
     (minor = CHR ''0'' \<or> minor = CHR ''1'') \<and> (\<forall>h\<in>set hs. plain_header h)"

lemma headers_lookup: "map_of (rq_headers (parsed_request t m path minor hs)) = map_of (rev hs)"
proof -
  have "map_of (fold (\<lambda>h. map_insert (fst h) (snd h)) hs m0) = map_of m0 ++ map_of (rev hs)" for m0
    by (induction hs arbitrary: m0) (auto simp: map_add_def fun_eq_iff split: option.splits)
  from this [of "[]"] show ?thesis by (simp add: parsed_request_def)
qed

lemma parse_request_text:
  assumes "hc_ready c" "well_formed m path minor hs"
  shows "parse_spec t (request_text m path minor hs @ rest) c =
    Inr (True, rest, \<lparr>hc_state = kGotAll, hc_request = parsed_request t m path minor hs\<rparr>)"
proof -
  let ?line = "m @ '' '' @ path @ '' HTTP/1.'' @ [minor]"
  let ?rest = "concat (map header_line hs) @ kCRLF @ rest"
  define c1 where "c1 = \<lparr>hc_state = kExpectHeaders,
    hc_request = (parsed_request t m path minor hs)\<lparr>rq_headers := []\<rparr>\<rparr>"
  note wf = assms(2) [unfolded well_formed_def]
  have "CHR 0x0D \<notin> set m" using wf by (auto simp: method_of_def split: if_splits)
  with wf have "CHR 0x0D \<notin> set ?line" by auto
  note lines = first_line_text [OF this, of ?rest]
  have aw: "awaiting c" using assms(1) by (simp add: hc_ready_def awaiting_def)
  have line: "line_spec t ?line c = Inr (True, c1)"
    using assms(1) request_line_text [of "hc_request c" m path minor] wf
    by (simp add: line_spec_def c1_def hc_ready_def parsed_request_def setReceiveTime_def)
  have "request_text m path minor hs @ rest = ?line @ kCRLF @ ?rest" by (simp add: request_text_def)
  then have "parse_spec t (request_text m path minor hs @ rest) c = parse_spec t ?rest c1"
    using lines aw line
    by (simp only: parse_spec.simps [of t "?line @ kCRLF @ ?rest"] simp_thms if_True rbind_Inr prod.case)
  also have "\<dots> = Inr (True, rest, \<lparr>hc_state = kGotAll, hc_request = parsed_request t m path minor hs\<rparr>)"
    using parse_headers_text [of hs c1] wf by (simp add: c1_def parsed_request_def)
  finally show ?thesis .
qed

text \<open>
  C27. A well-formed request is understood: from its bytes, and whatever follows them, the parser
  makes the request with the method, path, version and headers the client wrote (a header written
  twice keeps its last value), and leaves what follows for the next request. The method \<open>PUT\<close>
  is read as \<open>HEAD\<close>.
\<close>

theorem request_roundtrip:
  assumes "buffer_ok b" "hc_ready c" "well_formed m path minor hs"
    and "contents b = request_text m path minor hs @ rest"
  shows "\<exists>b' c'. parseRequest t b c = Some (Inr (True, b', c')) \<and> gotAll c' \<and> contents b' = rest \<and>
    rq_method (hc_request c') = (if m = ''PUT'' then kHead else method_of m) \<and>
    rq_path (hc_request c') = path \<and>
    rq_version (hc_request c') = (if minor = CHR ''1'' then kHttp11 else kHttp10) \<and>
    (\<forall>field. getHeader field (hc_request c') = (case map_of (rev hs) field of Some v \<Rightarrow> v | None \<Rightarrow> [])) \<and>
    rq_receiveTime (hc_request c') = t"
proof -
  have "awaiting c" using assms(2) by (simp add: hc_ready_def awaiting_def)
  from parseRequest_spec [OF assms(1) this, of t] parse_request_text [OF assms(2,3), of t rest]
  obtain b' where "parseRequest t b c =
      Some (Inr (True, b', \<lparr>hc_state = kGotAll, hc_request = parsed_request t m path minor hs\<rparr>))"
    "contents b' = rest"
    by (auto simp: assms(4) split: option.splits sum.splits)
  moreover have "method_of m = (if m = ''PUT'' then kHead else method_of m)" by (simp add: method_of_def)
  ultimately show ?thesis
    using headers_lookup [of t m path minor hs] by (simp add: gotAll_def getHeader_def) (simp add: parsed_request_def)
qed

theorem request_roundtrip_witness:
  "\<exists>b' c'. parseRequest (Timestamp 7)
      (holding (request_text ''GET'' ''/pid'' (CHR ''1'') [(''Host'', ''a'')] @ ''GET'')) new_HttpContext =
      Some (Inr (True, b', c')) \<and> gotAll c' \<and> contents b' = ''GET'' \<and>
    rq_method (hc_request c') = (if ''GET'' = ''PUT'' then kHead else method_of ''GET'') \<and>
    rq_path (hc_request c') = ''/pid'' \<and>
    rq_version (hc_request c') = (if CHR ''1'' = CHR ''1'' then kHttp11 else kHttp10) \<and>
    (\<forall>field. getHeader field (hc_request c') =
       (case map_of (rev [(''Host'', ''a'')]) field of Some v \<Rightarrow> v | None \<Rightarrow> [])) \<and>
    rq_receiveTime (hc_request c') = Timestamp 7"
  by (rule request_roundtrip)
    (simp_all add: new_HttpContext_def new_HttpRequest_def well_formed_def hc_ready_def method_of_def
      plain_header_def trimmed_def isspace_def)

lemma setMethod_again:
  "rq_method r \<noteq> kInvalid \<Longrightarrow> setMethod m r = Inl (Assertion ''method_ == kInvalid'')"
  by (simp add: setMethod_def)

lemma headers_not_refused:
  "parse_spec t xs c = Inr (ok, ys, c') \<Longrightarrow> hc_state c \<noteq> kExpectRequestLine \<Longrightarrow> ok"
proof (induction t xs c rule: parse_spec.induct)
  case (1 t xs c)
  show ?case
  proof (cases "awaiting c \<and> has_line xs")
    case False
    with "1.prems" show ?thesis by (auto simp: parse_spec.simps [of t xs])
  next
    case True
    with "1.prems" obtain c1 where "line_spec t (first_line xs) c = Inr (True, c1)"
      "parse_spec t (after_line xs) c1 = Inr (ok, ys, c')" "hc_state c1 \<noteq> kExpectRequestLine"
      by (auto simp: parse_spec.simps [of t xs] line_spec_def split: if_splits)
    with "1.IH" [of True c1] True show ?thesis by simp
  qed
qed

lemma refused_line:
  assumes "parse_spec t xs c = Inr (False, ys, c')" "hc_state c = kExpectRequestLine"
  shows "ys = xs" "has_line xs"
    "\<exists>r. processRequestLine (first_line xs) (hc_request c) = Inr (False, r) \<and> c' = c\<lparr>hc_request := r\<rparr>"
proof -
  have line: "has_line xs" using assms by (auto simp: parse_spec.simps [of t xs] split: if_splits)
  with assms obtain k c1 where k: "line_spec t (first_line xs) c = Inr (k, c1)"
    "if k then parse_spec t (after_line xs) c1 = Inr (False, ys, c') else ys = xs \<and> c' = c1"
    by (auto simp: parse_spec.simps [of t xs] rbind_eq_Inr_conv awaiting_def split: if_splits)
  then have "k \<longrightarrow> hc_state c1 = kExpectHeaders"
    using assms(2) by (auto simp: line_spec_def rbind_eq_Inr_conv)
  with k(2) headers_not_refused have "\<not> k" by (metis HttpRequestParseState.distinct(1))
  with k line assms(2) show "ys = xs" "has_line xs"
    "\<exists>r. processRequestLine (first_line xs) (hc_request c) = Inr (False, r) \<and> c' = c\<lparr>hc_request := r\<rparr>"
    by (auto simp: line_spec_def rbind_eq_Inr_conv)
qed

text \<open>
  C39. A request line with a known method that is refused for any other reason (no version, say) leaves
  the method in the context and the line in the buffer. Whatever bytes the client sends next, the line
  is parsed again and \<open>setMethod\<close> fails its assertion: the process aborts.
\<close>

theorem refused_line_aborts:
  assumes "buffer_ok b" "hc_state c = kExpectRequestLine" "rq_method (hc_request c) = kInvalid"
    and refused: "parseRequest t b c = Some (Inr (False, b1, c1))" "rq_method (hc_request c1) \<noteq> kInvalid"
    and more: "append_buf data b1 = Inr b2"
  shows "parseRequest t2 b2 c1 = Some (Inl (Assertion ''method_ == kInvalid''))"
proof -
  let ?line = "first_line (contents b1)"
  have "awaiting c" using assms(2) by (simp add: awaiting_def)
  from refused(1) parseRequest_spec [OF assms(1) this, of t]
  have b1: "buffer_ok b1" and spec: "parse_spec t (contents b) c = Inr (False, contents b1, c1)" by simp_all
  note line = refused_line [OF spec assms(2)]
  from line(1,3) obtain r where
    r: "processRequestLine ?line (hc_request c) = Inr (False, r)" "c1 = c\<lparr>hc_request := r\<rparr>" by auto
  from r refused(2) assms(3) have "std_find (CHR '' '') ?line \<noteq> length ?line"
    by (auto simp: processRequestLine_def)
  then have "processRequestLine ?line r = Inl (Assertion ''method_ == kInvalid'')"
    using r(2) refused(2) by (simp add: processRequestLine_def setMethod_again)
  then have "line_spec t2 ?line c1 = Inl (Assertion ''method_ == kInvalid'')"
    using r(2) assms(2) by (simp add: line_spec_def)
  moreover have b2: "buffer_ok b2" "contents b2 = contents b1 @ data"
    using buf.enqD [OF more b1] by simp_all
  ultimately have "parse_spec t2 (contents b2) c1 = Inl (Assertion ''method_ == kInvalid'')"
    using line(1,2) has_line_append [of "contents b1" data] r(2) assms(2) unfolding b2(2)
    by (subst parse_spec.simps) (simp add: awaiting_def)
  moreover have "awaiting c1" using r(2) assms(2) by (simp add: awaiting_def)
  ultimately show ?thesis
    using parseRequest_spec [OF b2(1), of c1 t2] by (auto split: option.splits sum.splits)
qed

lemma refused_example:
  "parse_spec t ([CHR ''G'', CHR ''E'', CHR ''T'', CHR '' '', CHR ''x''] @ kCRLF) new_HttpContext =
    Inr (False, [CHR ''G'', CHR ''E'', CHR ''T'', CHR '' '', CHR ''x''] @ kCRLF,
      new_HttpContext\<lparr>hc_request := new_HttpRequest\<lparr>rq_method := kGet\<rparr>\<rparr>)"
proof -
  have "processRequestLine ''GET x'' new_HttpRequest = Inr (False, new_HttpRequest\<lparr>rq_method := kGet\<rparr>)"
    by (simp add: processRequestLine_def setMethod_def std_find_def new_HttpRequest_def)
  with first_line_text [of "''GET x''" "[]"] show ?thesis
    by (simp add: parse_spec.simps [of t "_ # _"] line_spec_def new_HttpContext_def awaiting_def)
qed

theorem refused_line_aborts_witness:
  "\<exists>b1 c1 b2. parseRequest (Timestamp 1) (holding (''GET x'' @ kCRLF)) new_HttpContext = Some (Inr (False, b1, c1)) \<and>
    append_buf ''!'' b1 = Inr b2 \<and>
    parseRequest (Timestamp 2) b2 c1 = Some (Inl (Assertion ''method_ == kInvalid''))"
proof -
  let ?b = "holding (''GET x'' @ kCRLF)" and ?c1 = "new_HttpContext\<lparr>hc_request := new_HttpRequest\<lparr>rq_method := kGet\<rparr>\<rparr>"
  obtain b1 where b1: "parseRequest (Timestamp 1) ?b new_HttpContext = Some (Inr (False, b1, ?c1))" "buffer_ok b1"
    using parseRequest_spec [of ?b new_HttpContext "Timestamp 1"] refused_example [of "Timestamp 1"]
    by (auto split: option.splits sum.splits)
  obtain b2 where "append_buf ''!'' b1 = Inr b2" using append_correct [OF b1(2)] by blast
  with refused_line_aborts [OF _ _ _ b1(1) _ this] b1(1) show ?thesis
    by (auto simp: new_HttpContext_def new_HttpRequest_def)
qed

end
