(* ===== verification/Channel.thy ===== *)
theory Channel
  imports Prelude
begin

text \<open>
  \<open>muduo/net/Channel.h\<close> and \<open>Channel.cc\<close>: the events one descriptor is interested in, the
  events \<open>poll\<close> reported for it, and their dispatch to the callbacks of its owner.

  A channel lives at an address (a natural number) in the store \<open>chans\<close>; a read of an address
  with no channel is a dangling pointer. The members keep their names with the prefix \<open>ch\<close>,
  without the trailing underscore. \<open>events_\<close> and \<open>revents_\<close> are bit masks of 32 bits, with the
  values of Linux' \<open>poll.h\<close>. The registered \<open>boost::function\<close>s are the record \<open>callbacks\<close>,
  functions that may change the whole state. What is only logged is left out.
\<close>

unbundle bit_operations_syntax

definition POLLIN :: "32 word" where "POLLIN = 0x001"
definition POLLPRI :: "32 word" where "POLLPRI = 0x002"
definition POLLOUT :: "32 word" where "POLLOUT = 0x004"
definition POLLERR :: "32 word" where "POLLERR = 0x008"
definition POLLHUP :: "32 word" where "POLLHUP = 0x010"
definition POLLNVAL :: "32 word" where "POLLNVAL = 0x020"
definition POLLRDHUP :: "32 word" where "POLLRDHUP = 0x2000"

lemmas poll_consts =
  POLLIN_def POLLPRI_def POLLOUT_def POLLERR_def POLLHUP_def POLLNVAL_def POLLRDHUP_def

definition kNoneEvent :: "32 word" where "kNoneEvent = 0"
definition kReadEvent :: "32 word" where "kReadEvent = POLLIN OR POLLPRI"
definition kWriteEvent :: "32 word" where "kWriteEvent = POLLOUT"

lemmas event_consts = kNoneEvent_def kReadEvent_def kWriteEvent_def

record Channel =
  ch_loop :: nat \<comment> \<open>the address of the owning \<open>EventLoop\<close>\<close>
  ch_fd :: int
  ch_events :: "32 word"
  ch_revents :: "32 word"
  ch_index :: int
  ch_logHup :: bool
  ch_tied :: bool
  ch_eventHandling :: bool

definition new_channel :: "nat \<Rightarrow> int \<Rightarrow> Channel" where
  "new_channel loop fd = \<lparr>ch_loop = loop, ch_fd = fd, ch_events = 0, ch_revents = 0,
     ch_index = -1, ch_logHup = True, ch_tied = False, ch_eventHandling = False\<rparr>"

definition isNoneEvent :: "Channel \<Rightarrow> bool" where
  "isNoneEvent c \<longleftrightarrow> ch_events c = kNoneEvent"

definition isWriting :: "Channel \<Rightarrow> bool" where
  "isWriting c \<longleftrightarrow> ch_events c AND kWriteEvent \<noteq> 0"

record chan_store =
  chans :: "nat \<Rightarrow> Channel option"

definition deref :: "nat \<Rightarrow> 'z chan_store_scheme \<Rightarrow> Channel result" where
  "deref a s = (case chans s a of None \<Rightarrow> Inl (Undefined ''dangling Channel'') | Some c \<Rightarrow> Inr c)"

definition modify :: "nat \<Rightarrow> (Channel \<Rightarrow> Channel) \<Rightarrow> 'z chan_store_scheme \<Rightarrow> 'z chan_store_scheme result" where
  "modify a f s = rbind (deref a s) (\<lambda>c. Inr (s\<lparr>chans := (chans s)(a \<mapsto> f c)\<rparr>))"

definition set_revents :: "nat \<Rightarrow> 32 word \<Rightarrow> 'z chan_store_scheme \<Rightarrow> 'z chan_store_scheme result" where
  "set_revents a revt = modify a (ch_revents_update (\<lambda>_. revt))"

definition set_index :: "nat \<Rightarrow> int \<Rightarrow> 'z chan_store_scheme \<Rightarrow> 'z chan_store_scheme result" where
  "set_index a idx = modify a (ch_index_update (\<lambda>_. idx))"

definition doNotLogHup :: "nat \<Rightarrow> 'z chan_store_scheme \<Rightarrow> 'z chan_store_scheme result" where
  "doNotLogHup a = modify a (ch_logHup_update (\<lambda>_. False))"

definition tie :: "nat \<Rightarrow> 'z chan_store_scheme \<Rightarrow> 'z chan_store_scheme result" where
  "tie a = modify a (ch_tied_update (\<lambda>_. True))"

definition Channel_dtor :: "nat \<Rightarrow> 'z chan_store_scheme \<Rightarrow> 'z chan_store_scheme result" where
  "Channel_dtor a s =
     rbind (deref a s) (\<lambda>c.
     rbind (guard (\<not> ch_eventHandling c) ''!eventHandling_'') (\<lambda>_.
     Inr (s\<lparr>chans := (chans s)(a := None)\<rparr>)))"

definition reventsToString :: "Channel \<Rightarrow> string" where
  "reventsToString c =
     show_int (ch_fd c) @ '': '' @
     (if ch_revents c AND POLLIN \<noteq> 0 then ''IN '' else []) @
     (if ch_revents c AND POLLPRI \<noteq> 0 then ''PRI '' else []) @
     (if ch_revents c AND POLLOUT \<noteq> 0 then ''OUT '' else []) @
     (if ch_revents c AND POLLHUP \<noteq> 0 then ''HUP '' else []) @
     (if ch_revents c AND POLLRDHUP \<noteq> 0 then ''RDHUP '' else []) @
     (if ch_revents c AND POLLERR \<noteq> 0 then ''ERR '' else []) @
     (if ch_revents c AND POLLNVAL \<noteq> 0 then ''NVAL '' else [])"

section \<open>Dispatch\<close>

record 's callbacks =
  readCallback :: "(int \<Rightarrow> 's \<Rightarrow> 's result) option"
  writeCallback :: "('s \<Rightarrow> 's result) option"
  closeCallback :: "('s \<Rightarrow> 's result) option"
  errorCallback :: "('s \<Rightarrow> 's result) option"

definition call :: "('s \<Rightarrow> 's result) option \<Rightarrow> 's \<Rightarrow> 's result" where
  "call cb s = (case cb of None \<Rightarrow> Inr s | Some f \<Rightarrow> f s)"

definition when_revents ::
  "nat \<Rightarrow> (32 word \<Rightarrow> bool) \<Rightarrow> ('z chan_store_scheme \<Rightarrow> 'z chan_store_scheme result) option \<Rightarrow>
   'z chan_store_scheme \<Rightarrow> 'z chan_store_scheme result" where
  "when_revents a p cb s = rbind (deref a s) (\<lambda>c. if p (ch_revents c) then call cb s else Inr s)"

definition handleEventWithGuard ::
  "nat \<Rightarrow> ('z chan_store_scheme) callbacks \<Rightarrow> int \<Rightarrow> 'z chan_store_scheme \<Rightarrow> 'z chan_store_scheme result" where
  "handleEventWithGuard a cbs receiveTime s =
     rbind (modify a (ch_eventHandling_update (\<lambda>_. True)) s) (\<lambda>s.
     rbind (when_revents a (\<lambda>r. r AND POLLHUP \<noteq> 0 \<and> \<not> r AND POLLIN \<noteq> 0) (closeCallback cbs) s) (\<lambda>s.
     rbind (when_revents a (\<lambda>r. r AND (POLLNVAL OR POLLERR) \<noteq> 0) (errorCallback cbs) s) (\<lambda>s.
     rbind (when_revents a (\<lambda>r. r AND (POLLIN OR POLLPRI OR POLLRDHUP) \<noteq> 0)
              (map_option (\<lambda>f. f receiveTime) (readCallback cbs)) s) (\<lambda>s.
     rbind (when_revents a (\<lambda>r. r AND POLLOUT \<noteq> 0) (writeCallback cbs) s) (\<lambda>s.
     modify a (ch_eventHandling_update (\<lambda>_. False)) s)))))"

text \<open>\<open>alive\<close>: whether \<open>tie_.lock()\<close> yields the object.\<close>

definition handleEvent ::
  "nat \<Rightarrow> bool \<Rightarrow> ('z chan_store_scheme) callbacks \<Rightarrow> int \<Rightarrow> 'z chan_store_scheme \<Rightarrow>
   'z chan_store_scheme result" where
  "handleEvent a alive cbs receiveTime s =
     rbind (deref a s) (\<lambda>c.
     if ch_tied c then (if alive then handleEventWithGuard a cbs receiveTime s else Inr s)
     else handleEventWithGuard a cbs receiveTime s)"

section \<open>Which callbacks run\<close>

datatype callback_kind = CloseCB | ErrorCB | ReadCB | WriteCB

definition fired :: "32 word \<Rightarrow> callback_kind list" where
  "fired r =
     (if bit r 4 \<and> \<not> bit r 0 then [CloseCB] else []) @
     (if bit r 5 \<or> bit r 3 then [ErrorCB] else []) @
     (if bit r 0 \<or> bit r 1 \<or> bit r 13 then [ReadCB] else []) @
     (if bit r 2 then [WriteCB] else [])"

definition callback_of :: "'s callbacks \<Rightarrow> int \<Rightarrow> callback_kind \<Rightarrow> 's \<Rightarrow> 's result" where
  "callback_of cbs t k = call (case k of CloseCB \<Rightarrow> closeCallback cbs | ErrorCB \<Rightarrow> errorCallback cbs
     | ReadCB \<Rightarrow> map_option (\<lambda>f. f t) (readCallback cbs) | WriteCB \<Rightarrow> writeCallback cbs)"

lemma deref_Some [simp]: "chans s a = Some c \<Longrightarrow> deref a s = Inr c"
  by (simp add: deref_def)

lemma deref_eq_Inr [simp]: "deref a s = Inr c \<longleftrightarrow> chans s a = Some c"
  by (simp add: deref_def split: option.split)

lemma modify_Some [simp]:
  "chans s a = Some c \<Longrightarrow> modify a f s = Inr (s\<lparr>chans := (chans s)(a \<mapsto> f c)\<rparr>)"
  by (simp add: modify_def)

lemma modify_eq_Inr:
  "modify a f s = Inr t \<longleftrightarrow> (\<exists>c. chans s a = Some c \<and> t = s\<lparr>chans := (chans s)(a \<mapsto> f c)\<rparr>)"
  by (auto simp: modify_def rbind_eq_Inr_conv)

text \<open>Testing one bit of a mask.\<close>

lemma and_pow2_test: "(r AND 2 ^ n \<noteq> 0) = bit r n" for r :: "32 word"
  by (simp add: and_exp_eq_0_iff_not_bit)

lemma poll_bits:
  fixes r :: "32 word"
  shows "(r AND POLLIN \<noteq> 0) = bit r 0" "(r AND POLLPRI \<noteq> 0) = bit r 1"
    "(r AND POLLOUT \<noteq> 0) = bit r 2" "(r AND POLLERR \<noteq> 0) = bit r 3"
    "(r AND POLLHUP \<noteq> 0) = bit r 4" "(r AND POLLNVAL \<noteq> 0) = bit r 5"
    "(r AND POLLRDHUP \<noteq> 0) = bit r 13"
  using and_pow2_test [of r 0] and_pow2_test [of r 1] and_pow2_test [of r 2]
    and_pow2_test [of r 3] and_pow2_test [of r 4] and_pow2_test [of r 5] and_pow2_test [of r 13]
  by (simp_all add: poll_consts)

lemma and_or_test: "(r AND (x OR y) \<noteq> 0) = (r AND x \<noteq> 0 \<or> r AND y \<noteq> 0)" for r :: "32 word"
  by (simp add: bit.conj_disj_distrib or_eq_0_iff)

lemma isWriting_bit: "isWriting c = bit (ch_events c) 2"
  by (simp add: isWriting_def kWriteEvent_def poll_bits)


lemma fired_masks:
  "fired r =
     (if r AND POLLHUP \<noteq> 0 \<and> \<not> r AND POLLIN \<noteq> 0 then [CloseCB] else []) @
     (if r AND (POLLNVAL OR POLLERR) \<noteq> 0 then [ErrorCB] else []) @
     (if r AND (POLLIN OR POLLPRI OR POLLRDHUP) \<noteq> 0 then [ReadCB] else []) @
     (if r AND POLLOUT \<noteq> 0 then [WriteCB] else [])"
  by (simp only: fired_def and_or_test poll_bits disj_assoc)

text \<open>The callbacks of a channel leave the channel itself and its reported events alone.\<close>

definition keeps_revents :: "nat \<Rightarrow> ('z chan_store_scheme) callbacks \<Rightarrow> bool" where
  "keeps_revents a cbs \<longleftrightarrow> (\<forall>t k s s' c. callback_of cbs t k s = Inr s' \<longrightarrow> chans s a = Some c \<longrightarrow>
     (\<exists>c'. chans s' a = Some c' \<and> ch_revents c' = ch_revents c))"

lemma keeps_reventsD:
  "keeps_revents a cbs \<Longrightarrow> callback_of cbs t k s = Inr s' \<Longrightarrow> chans s a = Some c \<Longrightarrow>
    \<exists>c'. chans s' a = Some c' \<and> ch_revents c' = ch_revents c"
  by (simp add: keeps_revents_def)

lemma when_revents_step:
  assumes "keeps_revents a cbs" and "chans s a = Some c" and "ch_revents c = r"
    and "\<And>s' c'. chans s' a = Some c' \<Longrightarrow> ch_revents c' = r \<Longrightarrow> rest s' = rfold (callback_of cbs t) ks s'"
    and "cb = (case k of CloseCB \<Rightarrow> closeCallback cbs | ErrorCB \<Rightarrow> errorCallback cbs
      | ReadCB \<Rightarrow> map_option (\<lambda>f. f t) (readCallback cbs) | WriteCB \<Rightarrow> writeCallback cbs)"
  shows "rbind (when_revents a p cb s) rest =
    rfold (callback_of cbs t) ((if p r then [k] else []) @ ks) s"
proof (cases "p r")
  case True
  have "rbind (callback_of cbs t k s) rest = rbind (callback_of cbs t k s) (rfold (callback_of cbs t) ks)"
  proof (cases "callback_of cbs t k s")
    case (Inr s')
    with keeps_reventsD [OF assms(1) Inr assms(2)] assms(3,4) show ?thesis by auto
  qed simp
  with True assms(2,3,5) show ?thesis by (simp add: when_revents_def callback_of_def)
next
  case False
  with assms(2,3,4) show ?thesis by (simp add: when_revents_def)
qed

lemma handleEventWithGuard_fired:
  assumes keeps: "keeps_revents a cbs" and c: "chans s a = Some c"
  shows "handleEventWithGuard a cbs t s =
    rbind (rfold (callback_of cbs t) (fired (ch_revents c))
        (s\<lparr>chans := (chans s)(a \<mapsto> c\<lparr>ch_eventHandling := True\<rparr>)\<rparr>))
      (modify a (ch_eventHandling_update (\<lambda>_. False)))"
proof -
  let ?r = "ch_revents c"
  let ?s = "s\<lparr>chans := (chans s)(a \<mapsto> c\<lparr>ch_eventHandling := True\<rparr>)\<rparr>"
  let ?close = "when_revents a (\<lambda>r. r AND POLLHUP \<noteq> 0 \<and> \<not> r AND POLLIN \<noteq> 0) (closeCallback cbs)"
  let ?err = "when_revents a (\<lambda>r. r AND (POLLNVAL OR POLLERR) \<noteq> 0) (errorCallback cbs)"
  let ?read = "when_revents a (\<lambda>r. r AND (POLLIN OR POLLPRI OR POLLRDHUP) \<noteq> 0)
    (map_option (\<lambda>f. f t) (readCallback cbs))"
  let ?wr = "when_revents a (\<lambda>r. r AND POLLOUT \<noteq> 0) (writeCallback cbs)"
  note step = when_revents_step [OF keeps, where t = t]
  have w: "rbind (?wr u) Inr = rfold (callback_of cbs t)
      ((if ?r AND POLLOUT \<noteq> 0 then [WriteCB] else []) @ []) u"
    if "chans u a = Some d" "ch_revents d = ?r" for u d
    by (rule step [OF that]) simp_all
  have r: "rbind (?read u) (\<lambda>u. rbind (?wr u) Inr) = rfold (callback_of cbs t)
      ((if ?r AND (POLLIN OR POLLPRI OR POLLRDHUP) \<noteq> 0 then [ReadCB] else []) @
       (if ?r AND POLLOUT \<noteq> 0 then [WriteCB] else []) @ []) u"
    if "chans u a = Some d" "ch_revents d = ?r" for u d
    by (rule step [OF that]) (erule (1) w, simp)
  have e: "rbind (?err u) (\<lambda>u. rbind (?read u) (\<lambda>u. rbind (?wr u) Inr)) =
      rfold (callback_of cbs t)
      ((if ?r AND (POLLNVAL OR POLLERR) \<noteq> 0 then [ErrorCB] else []) @
       (if ?r AND (POLLIN OR POLLPRI OR POLLRDHUP) \<noteq> 0 then [ReadCB] else []) @
       (if ?r AND POLLOUT \<noteq> 0 then [WriteCB] else []) @ []) u"
    if "chans u a = Some d" "ch_revents d = ?r" for u d
    by (rule step [OF that]) (erule (1) r, simp)
  have split: "fired ?r =
      (if ?r AND POLLHUP \<noteq> 0 \<and> \<not> ?r AND POLLIN \<noteq> 0 then [CloseCB] else []) @
      (if ?r AND (POLLNVAL OR POLLERR) \<noteq> 0 then [ErrorCB] else []) @
      (if ?r AND (POLLIN OR POLLPRI OR POLLRDHUP) \<noteq> 0 then [ReadCB] else []) @
      (if ?r AND POLLOUT \<noteq> 0 then [WriteCB] else []) @ []"
    by (simp only: fired_masks append_Nil2)
  have "rbind (?close ?s) (\<lambda>u. rbind (?err u) (\<lambda>u. rbind (?read u) (\<lambda>u. rbind (?wr u) Inr))) =
      rfold (callback_of cbs t) (fired ?r) ?s"
    unfolding split
    by (rule step [where c = "c\<lparr>ch_eventHandling := True\<rparr>"]) (simp, simp, erule (1) e, simp)
  from this [symmetric] show ?thesis
    using c by (simp add: handleEventWithGuard_def rbind_assoc del: rbind_Inr_right)
qed

text \<open>
  One event, the right callbacks, in the fixed order: for a channel that is not tied or
  whose owner is still alive, \<open>handleEvent\<close> runs exactly the callbacks the reported events call
  for, in the order close, error, read, write: close on a hang-up with no input left, error on
  \<open>POLLNVAL\<close> or \<open>POLLERR\<close>, read on input, priority input or peer shutdown, write on \<open>POLLOUT\<close>;
  the handling flag is up while they run and down afterwards. An error in one callback stops the
  rest.
\<close>

theorem handleEvent_dispatch:
  assumes "keeps_revents a cbs" and "chans s a = Some c" and "\<not> ch_tied c \<or> alive"
  shows "handleEvent a alive cbs t s =
    rbind (rfold (callback_of cbs t) (fired (ch_revents c))
        (s\<lparr>chans := (chans s)(a \<mapsto> c\<lparr>ch_eventHandling := True\<rparr>)\<rparr>))
      (modify a (ch_eventHandling_update (\<lambda>_. False)))"
  using assms handleEventWithGuard_fired [OF assms(1,2)] by (auto simp: handleEvent_def)

theorem handleEvent_dispatch_witness:
  "handleEvent 0 False
     \<lparr>readCallback = Some (\<lambda>t s. Inr s), writeCallback = None, closeCallback = None,
       errorCallback = Some (\<lambda>s. Inl (Fatal ''error''))\<rparr> 7
     \<lparr>chans = [0 \<mapsto> (new_channel 1 5)\<lparr>ch_revents := POLLERR OR POLLIN\<rparr>]\<rparr> = Inl (Fatal ''error'')"
proof -
  let ?cbs = "\<lparr>readCallback = Some (\<lambda>(t::int) (s::chan_store). Inr s), writeCallback = None,
    closeCallback = None, errorCallback = Some (\<lambda>s. Inl (Fatal ''error''))\<rparr>"
  have "keeps_revents 0 ?cbs"
    by (auto simp: keeps_revents_def callback_of_def call_def split: callback_kind.splits)
  moreover have "fired (POLLERR OR POLLIN) = [ErrorCB, ReadCB]"
    by (simp add: fired_def poll_consts bit_simps)
  ultimately show ?thesis
    by (subst handleEvent_dispatch) (auto simp: new_channel_def callback_of_def call_def)
qed

end
