(* ===== verification/PollPoller.thy ===== *)
theory PollPoller
  imports Channel
begin

text \<open>
  \<open>muduo/net/poller/PollPoller.cc\<close> (and \<open>Poller.h\<close>, \<open>DefaultPoller.cc\<close>): the registration of
  channels with \<open>poll(2)\<close>. \<open>pollfds\<close> is the vector handed to the system call, \<open>channels\<close> the map
  from descriptors to channels; a channel remembers the position of its entry in \<open>index_\<close>.

  \<open>short\<close> fields are words of 16 bits: \<open>ucast\<close> is the narrowing \<open>static_cast<short>\<close>, \<open>scast\<close>
  the sign-extending promotion to \<open>int\<close>. The parameter \<open>inLoop\<close> is the value of
  \<open>ownerLoop_->isInLoopThread()\<close>. The system call is a function from the vector to its return
  value and the \<open>revents\<close> it stores.
\<close>

record pollfd =
  pfd_fd :: int
  pfd_events :: "16 word"
  pfd_revents :: "16 word"

record PollPoller = chan_store +
  pollfds :: "pollfd list"
  channels :: "int \<Rightarrow> nat option"

definition assertInLoop :: "bool \<Rightarrow> unit result" where
  "assertInLoop inLoop =
     (if inLoop then Inr () else Inl (Fatal ''EventLoop::abortNotIntLoopThread''))"

definition updateChannel :: "bool \<Rightarrow> nat \<Rightarrow> 'z PollPoller_scheme \<Rightarrow> 'z PollPoller_scheme result" where
  "updateChannel inLoop a s =
     rbind (assertInLoop inLoop) (\<lambda>_.
     rbind (deref a s) (\<lambda>c.
     if ch_index c < 0 then
       rbind (guard (channels s (ch_fd c) = None) ''channels_.find(channel->fd()) == channels_.end()'') (\<lambda>_.
       let pfd = \<lparr>pfd_fd = ch_fd c, pfd_events = ucast (ch_events c), pfd_revents = 0\<rparr>;
           s = s\<lparr>pollfds := pollfds s @ [pfd]\<rparr>;
           idx = int (length (pollfds s)) - 1
       in rbind (set_index a idx s) (\<lambda>s.
          Inr (s\<lparr>channels := (channels s)(pfd_fd pfd \<mapsto> a)\<rparr>)))
     else
       rbind (guard (channels s (ch_fd c) \<noteq> None) ''channels_.find(channel->fd()) != channels_.end()'') (\<lambda>_.
       rbind (guard (channels s (ch_fd c) = Some a) ''channels_[channel->fd()] == channel'') (\<lambda>_.
       let idx = ch_index c in
       rbind (guard (0 \<le> idx \<and> idx < int (length (pollfds s))) ''0 <= idx && idx < pollfds_.size()'') (\<lambda>_.
       let pfd = pollfds s ! nat idx in
       rbind (guard (pfd_fd pfd = ch_fd c \<or> pfd_fd pfd = - ch_fd c - 1)
                ''pfd.fd == channel->fd() || pfd.fd == -channel->fd() - 1'') (\<lambda>_.
       let pfd = pfd\<lparr>pfd_events := ucast (ch_events c), pfd_revents := 0\<rparr>;
           pfd = (if isNoneEvent c then pfd\<lparr>pfd_fd := - ch_fd c - 1\<rparr> else pfd)
       in Inr (s\<lparr>pollfds := (pollfds s)[nat idx := pfd]\<rparr>)))))))"

definition removeChannel :: "bool \<Rightarrow> nat \<Rightarrow> 'z PollPoller_scheme \<Rightarrow> 'z PollPoller_scheme result" where
  "removeChannel inLoop a s =
     rbind (assertInLoop inLoop) (\<lambda>_.
     rbind (deref a s) (\<lambda>c.
     rbind (guard (channels s (ch_fd c) \<noteq> None) ''channels_.find(channel->fd()) != channels_.end()'') (\<lambda>_.
     rbind (guard (channels s (ch_fd c) = Some a) ''channels_[channel->fd()] == channel'') (\<lambda>_.
     rbind (guard (isNoneEvent c) ''channel->isNoneEvent()'') (\<lambda>_.
     let idx = ch_index c in
     rbind (guard (0 \<le> idx \<and> idx < int (length (pollfds s))) ''0 <= idx && idx < pollfds_.size()'') (\<lambda>_.
     let pfd = pollfds s ! nat idx in
     rbind (guard (pfd_fd pfd = - ch_fd c - 1 \<and> scast (pfd_events pfd) = ch_events c)
              ''pfd.fd == -channel->fd() - 1 && pfd.events == channel->events()'') (\<lambda>_.
     let s = s\<lparr>channels := (channels s)(ch_fd c := None)\<rparr> in
     if nat idx = length (pollfds s) - 1 then Inr (s\<lparr>pollfds := butlast (pollfds s)\<rparr>)
     else
       let back = last (pollfds s);
           channelAtEnd = pfd_fd back;
           s = s\<lparr>pollfds := (pollfds s)[nat idx := back, length (pollfds s) - 1 := pfd]\<rparr>;
           channelAtEnd = (if channelAtEnd < 0 then - channelAtEnd - 1 else channelAtEnd)
       in case channels s channelAtEnd of
            None \<Rightarrow> Inl (Undefined ''null Channel pointer'')
          | Some b \<Rightarrow> rbind (set_index b idx s) (\<lambda>s.
              Inr (s\<lparr>pollfds := butlast (pollfds s)\<rparr>)))))))))"

fun fillActiveChannels ::
  "pollfd list \<Rightarrow> int \<Rightarrow> nat list \<Rightarrow> 'z PollPoller_scheme \<Rightarrow> (nat list \<times> 'z PollPoller_scheme) result" where
  "fillActiveChannels [] numEvents activeChannels s = Inr (activeChannels, s)"
| "fillActiveChannels (pfd # pfds) numEvents activeChannels s =
     (if numEvents > 0 then
        if sint (pfd_revents pfd) > 0 then
          case channels s (pfd_fd pfd) of
            None \<Rightarrow> Inl (Assertion ''ch != channels_.end()'')
          | Some channel \<Rightarrow>
              rbind (deref channel s) (\<lambda>c.
              rbind (guard (ch_fd c = pfd_fd pfd) ''channel->fd() == pfd->fd'') (\<lambda>_.
              rbind (set_revents channel (scast (pfd_revents pfd)) s) (\<lambda>s.
              fillActiveChannels pfds (numEvents - 1) (activeChannels @ [channel]) s)))
        else fillActiveChannels pfds numEvents activeChannels s
      else Inr (activeChannels, s))"

text \<open>
  \<open>PollPoller::poll\<close>; \<open>&*pollfds_.begin()\<close> is undefined for an empty vector. The result is the
  time of the return, the active channels and the new state.
\<close>

definition store_revents :: "16 word list \<Rightarrow> pollfd list \<Rightarrow> pollfd list" where
  "store_revents revs pfds = map2 (\<lambda>pfd r. pfd\<lparr>pfd_revents := r\<rparr>) pfds revs"

definition poll ::
  "(pollfd list \<Rightarrow> int \<times> 16 word list) \<Rightarrow> int \<Rightarrow> nat list \<Rightarrow> 'z PollPoller_scheme \<Rightarrow>
   (int \<times> nat list \<times> 'z PollPoller_scheme) result" where
  "poll sys_poll now activeChannels s =
     (if pollfds s = [] then Inl (Undefined ''*begin() of an empty vector'') else
      case sys_poll (pollfds s) of (numEvents, revs) \<Rightarrow>
        let s = s\<lparr>pollfds := store_revents revs (pollfds s)\<rparr> in
        if numEvents > 0 then
          rbind (fillActiveChannels (pollfds s) numEvents activeChannels s) (\<lambda>(active, s).
          Inr (now, active, s))
        else Inr (now, activeChannels, s))"

section \<open>The invariant of the registration\<close>

text \<open>The descriptor an entry belongs to: a muted entry holds \<open>-fd - 1\<close>.\<close>

definition owner :: "pollfd \<Rightarrow> int" where
  "owner pfd = (if pfd_fd pfd < 0 then - pfd_fd pfd - 1 else pfd_fd pfd)"

definition registered :: "nat \<Rightarrow> 'z PollPoller_scheme \<Rightarrow> bool" where
  "registered a s \<longleftrightarrow> (\<exists>c. chans s a = Some c \<and> channels s (ch_fd c) = Some a \<and> 0 \<le> ch_index c)"

definition entry_ok :: "'z PollPoller_scheme \<Rightarrow> int \<Rightarrow> nat \<Rightarrow> bool" where
  "entry_ok s f a \<longleftrightarrow> (\<exists>c. chans s a = Some c \<and> ch_fd c = f \<and> 0 \<le> f \<and> 0 \<le> ch_index c \<and>
     nat (ch_index c) < length (pollfds s) \<and> owner (pollfds s ! nat (ch_index c)) = f)"

definition poller_ok :: "'z PollPoller_scheme \<Rightarrow> bool" where
  "poller_ok s \<longleftrightarrow>
     (\<forall>f a. channels s f = Some a \<longrightarrow> entry_ok s f a) \<and>
     (\<forall>i < length (pollfds s). \<exists>a c. channels s (owner (pollfds s ! i)) = Some a \<and>
        chans s a = Some c \<and> ch_index c = int i)"

text \<open>What \<open>poll(2)\<close> watches for each descriptor: the mask and whether the entry is muted.\<close>

definition watch :: "'z PollPoller_scheme \<Rightarrow> int \<Rightarrow> (16 word \<times> bool) option" where
  "watch s f = (case channels s f of None \<Rightarrow> None
     | Some a \<Rightarrow> (case chans s a of None \<Rightarrow> None
        | Some c \<Rightarrow> (let pfd = pollfds s ! nat (ch_index c)
                    in Some (pfd_events pfd, pfd_fd pfd < 0))))"


lemmas poller_defs = poller_ok_def entry_ok_def

lemma assertInLoop_True [simp]: "assertInLoop True = Inr ()"
  by (simp add: assertInLoop_def)

lemma assertInLoop_eq_Inr [simp]: "assertInLoop b = Inr u \<longleftrightarrow> b"
  by (simp add: assertInLoop_def)

lemma channels_entry: "poller_ok s \<Longrightarrow> channels s f = Some a \<Longrightarrow> entry_ok s f a"
  by (simp add: poller_ok_def)

lemma entry_channel:
  "poller_ok s \<Longrightarrow> i < length (pollfds s) \<Longrightarrow>
    \<exists>a c. channels s (owner (pollfds s ! i)) = Some a \<and> chans s a = Some c \<and> ch_index c = int i"
  by (simp add: poller_ok_def)

lemma registered_entry:
  assumes "poller_ok s" and "registered a s"
  obtains c where "chans s a = Some c" "channels s (ch_fd c) = Some a" "0 \<le> ch_fd c"
    "0 \<le> ch_index c" "nat (ch_index c) < length (pollfds s)"
    "owner (pollfds s ! nat (ch_index c)) = ch_fd c"
  using assms by (fastforce simp: registered_def dest: channels_entry simp: entry_ok_def)

lemma index_unique:
  assumes "poller_ok s" and "channels s f = Some a" and "chans s a = Some c"
    and "channels s g = Some b" and "chans s b = Some d" and "ch_index c = ch_index d"
  shows "a = b \<and> f = g"
  using channels_entry [OF assms(1,2)] channels_entry [OF assms(1,4)] assms
  by (auto simp: entry_ok_def)

lemma poller_ok_same_owners:
  assumes ok: "poller_ok s" and len: "length ps = length (pollfds s)"
    and own: "\<And>i. i < length ps \<Longrightarrow> owner (ps ! i) = owner (pollfds s ! i)"
  shows "poller_ok (s\<lparr>pollfds := ps\<rparr>)"
proof -
  have "entry_ok (s\<lparr>pollfds := ps\<rparr>) f a" if "channels s f = Some a" for f a
    using channels_entry [OF ok that] len own by (auto simp: entry_ok_def)
  moreover have "\<exists>a c. channels s (owner (ps ! i)) = Some a \<and> chans s a = Some c \<and> ch_index c = int i"
    if "i < length ps" for i
    using entry_channel [OF ok, of i] that len own by simp
  ultimately show ?thesis by (simp add: poller_ok_def)
qed

lemma updateChannel_new:
  assumes ok: "poller_ok s" and c: "chans s a = Some c" and idx: "ch_index c < 0"
    and fd: "0 \<le> ch_fd c" and free: "channels s (ch_fd c) = None"
  defines "p \<equiv> \<lparr>pfd_fd = ch_fd c, pfd_events = ucast (ch_events c), pfd_revents = 0\<rparr>"
  defines "s' \<equiv> s\<lparr>pollfds := pollfds s @ [p],
    chans := (chans s)(a \<mapsto> c\<lparr>ch_index := int (length (pollfds s))\<rparr>),
    channels := (channels s)(ch_fd c \<mapsto> a)\<rparr>"
  shows "updateChannel True a s = Inr s'" and "poller_ok s'"
    and "watch s' = (watch s)(ch_fd c \<mapsto> (ucast (ch_events c), False))"
proof -
  show "updateChannel True a s = Inr s'"
    using c idx free by (simp add: updateChannel_def set_index_def s'_def p_def Let_def)
  have entry: "entry_ok s' f b" if "channels s' f = Some b" for f b
  proof (cases "f = ch_fd c")
    case True
    with that fd c show ?thesis by (simp add: entry_ok_def s'_def owner_def p_def)
  next
    case False
    with that have f: "channels s f = Some b" by (simp add: s'_def)
    with channels_entry [OF ok f] False c show ?thesis
      by (auto simp: entry_ok_def s'_def nth_append)
  qed
  have "\<exists>b d. channels s' (owner (pollfds s' ! i)) = Some b \<and> chans s' b = Some d \<and> ch_index d = int i"
    if "i < length (pollfds s')" for i
  proof (cases "i < length (pollfds s)")
    case True
    from entry_channel [OF ok True] obtain b d
      where b: "channels s (owner (pollfds s ! i)) = Some b" "chans s b = Some d" "ch_index d = int i"
      by blast
    have "b \<noteq> a" using b(2,3) c idx by auto
    moreover have "owner (pollfds s ! i) \<noteq> ch_fd c" using b(1) free by auto
    ultimately show ?thesis using b True by (auto simp: s'_def nth_append)
  next
    case False
    with that have "i = length (pollfds s)" by (simp add: s'_def)
    with fd show ?thesis by (simp add: s'_def p_def owner_def)
  qed
  with entry show "poller_ok s'" by (simp add: poller_ok_def)
  show "watch s' = (watch s)(ch_fd c \<mapsto> (ucast (ch_events c), False))"
  proof
    fix f
    show "watch s' f = ((watch s)(ch_fd c \<mapsto> (ucast (ch_events c), False))) f"
    proof (cases "f = ch_fd c")
      case True
      with fd show ?thesis by (simp add: watch_def s'_def p_def)
    next
      case False
      show ?thesis
      proof (cases "channels s f")
        case None
        with False show ?thesis by (simp add: watch_def s'_def)
      next
        case (Some b)
        with channels_entry [OF ok Some] False c show ?thesis
          by (auto simp: watch_def s'_def entry_ok_def nth_append Let_def)
      qed
    qed
  qed
qed

lemma updateChannel_existing:
  assumes ok: "poller_ok s" and reg: "registered a s" and c: "chans s a = Some c"
  defines "p \<equiv> (pollfds s ! nat (ch_index c))\<lparr>pfd_events := ucast (ch_events c), pfd_revents := 0\<rparr>"
  defines "s' \<equiv> s\<lparr>pollfds := (pollfds s)[nat (ch_index c) :=
    (if isNoneEvent c then p\<lparr>pfd_fd := - ch_fd c - 1\<rparr> else p)]\<rparr>"
  shows "updateChannel True a s = Inr s'" and "poller_ok s'"
    and "watch s' = (watch s)(ch_fd c \<mapsto> (ucast (ch_events c),
      snd (the (watch s (ch_fd c))) \<or> isNoneEvent c))"
proof -
  from registered_entry [OF ok reg] c
  have ch: "channels s (ch_fd c) = Some a" and fd: "0 \<le> ch_fd c" and i0: "0 \<le> ch_index c"
    and il: "nat (ch_index c) < length (pollfds s)"
    and own: "owner (pollfds s ! nat (ch_index c)) = ch_fd c" by auto
  have il': "ch_index c < int (length (pollfds s))" using i0 il by linarith
  show "updateChannel True a s = Inr s'"
    using c ch i0 il' own by (auto simp: updateChannel_def s'_def p_def Let_def owner_def split: if_splits)
  have own': "owner (pollfds s' ! i) = owner (pollfds s ! i)" if "i < length (pollfds s)" for i
    using that own fd il by (auto simp: s'_def p_def nth_list_update owner_def)
  then show "poller_ok s'"
    unfolding s'_def by (intro poller_ok_same_owners [OF ok]) simp_all
  show "watch s' = (watch s)(ch_fd c \<mapsto> (ucast (ch_events c),
      snd (the (watch s (ch_fd c))) \<or> isNoneEvent c))"
  proof
    fix f
    show "watch s' f = ((watch s)(ch_fd c \<mapsto> (ucast (ch_events c),
        snd (the (watch s (ch_fd c))) \<or> isNoneEvent c))) f"
    proof (cases "f = ch_fd c")
      case True
      with c ch il fd show ?thesis by (simp add: watch_def s'_def p_def Let_def)
    next
      case False
      show ?thesis
      proof (cases "channels s f")
        case None
        with False show ?thesis by (simp add: watch_def s'_def)
      next
        case (Some b)
        from channels_entry [OF ok Some] obtain d where d: "chans s b = Some d" "0 \<le> ch_index d"
          "ch_fd d = f" by (auto simp: entry_ok_def)
        have "nat (ch_index d) \<noteq> nat (ch_index c)"
          using index_unique [OF ok Some d(1) ch c] False i0 d(2) by (auto simp: eq_nat_nat_iff)
        with False Some d show ?thesis by (simp add: watch_def s'_def Let_def)
      qed
    qed
  qed
qed


text \<open>
  Removal: the last entry takes the place of the removed one, so only the channel at the end
  changes its index.
\<close>

definition remove_entry :: "nat \<Rightarrow> pollfd list \<Rightarrow> pollfd list" where
  "remove_entry k ps = (if k = length ps - 1 then butlast ps else (butlast ps)[k := last ps])"

lemma length_remove_entry [simp]: "length (remove_entry k ps) = length ps - 1"
  by (simp add: remove_entry_def)

lemma nth_remove_entry:
  assumes "i < length ps - 1"
  shows "remove_entry k ps ! i = (if i = k then last ps else ps ! i)"
  using assms by (auto simp: remove_entry_def nth_butlast nth_list_update)

lemma butlast_swap:
  assumes "k < length ps - Suc 0"
  shows "butlast (ps[k := last ps, length ps - Suc 0 := x]) = (butlast ps)[k := last ps]"
  using assms by (simp add: butlast_list_update)

definition at_end :: "'z PollPoller_scheme \<Rightarrow> nat \<Rightarrow> Channel \<Rightarrow> bool" where
  "at_end s b d \<longleftrightarrow> channels s (owner (last (pollfds s))) = Some b \<and> chans s b = Some d \<and>
     nat (ch_index d) = length (pollfds s) - 1"

definition removed :: "Channel \<Rightarrow> nat \<Rightarrow> Channel \<Rightarrow> 'z PollPoller_scheme \<Rightarrow> 'z PollPoller_scheme" where
  "removed c b d s = s\<lparr>
     chans := (if nat (ch_index c) = length (pollfds s) - 1 then chans s
               else (chans s)(b \<mapsto> d\<lparr>ch_index := ch_index c\<rparr>)),
     pollfds := remove_entry (nat (ch_index c)) (pollfds s),
     channels := (channels s)(ch_fd c := None)\<rparr>"

lemma at_end_exists:
  assumes "poller_ok s" and "i < length (pollfds s)"
  shows "\<exists>b d. at_end s b d"
proof -
  from assms(2) have "length (pollfds s) - 1 < length (pollfds s)" by simp
  from entry_channel [OF assms(1) this] obtain b d
    where "channels s (owner (pollfds s ! (length (pollfds s) - 1))) = Some b" "chans s b = Some d"
      "ch_index d = int (length (pollfds s) - 1)" by blast
  moreover from assms(2) have "pollfds s \<noteq> []" by auto
  ultimately have "at_end s b d" by (simp add: at_end_def last_conv_nth)
  then show ?thesis by blast
qed

lemma other_owner:
  assumes "poller_ok s" and "channels s (ch_fd c) = Some a" and "chans s a = Some c"
    and "i < length (pollfds s)" and "i \<noteq> nat (ch_index c)"
  shows "owner (pollfds s ! i) \<noteq> ch_fd c"
  using entry_channel [OF assms(1,4)] assms(2,3,5) by auto

lemma other_owner_last:
  assumes "poller_ok s" and "channels s (ch_fd c) = Some a" and "chans s a = Some c"
    and "nat (ch_index c) < length (pollfds s) - 1"
  shows "owner (last (pollfds s)) \<noteq> ch_fd c"
proof -
  from assms(4) have "pollfds s \<noteq> []" by auto
  with other_owner [OF assms(1-3), of "length (pollfds s) - 1"] assms(4) show ?thesis
    by (simp add: last_conv_nth)
qed

text \<open>Every other channel keeps its entry, at its new position.\<close>

lemma removed_keeps:
  assumes ok: "poller_ok s" and a: "channels s (ch_fd c) = Some a" "chans s a = Some c"
    and e: "channels s f = Some e" "chans s e = Some x" and f: "f \<noteq> ch_fd c"
    and b: "at_end s b d"
  shows "\<exists>y. chans (removed c b d s) e = Some y \<and> ch_fd y = f \<and> 0 \<le> ch_index y \<and>
    nat (ch_index y) < length (pollfds s) - 1 \<and>
    remove_entry (nat (ch_index c)) (pollfds s) ! nat (ch_index y) = pollfds s ! nat (ch_index x)"
proof -
  let ?k = "nat (ch_index c)" and ?n = "length (pollfds s)"
  from channels_entry [OF ok e(1)] e(2) have x: "ch_fd x = f" "0 \<le> ch_index x" "nat (ch_index x) < ?n"
    by (auto simp: entry_ok_def)
  from channels_entry [OF ok a(1)] a(2) have k: "0 \<le> ch_index c" "?k < ?n"
    by (auto simp: entry_ok_def)
  have neq: "nat (ch_index x) \<noteq> ?k"
    using index_unique [OF ok e a] f x(2) k(1) by (auto simp: eq_nat_nat_iff)
  show ?thesis
  proof (cases "nat (ch_index x) = ?n - 1")
    case True
    have "0 \<le> ch_index d" using channels_entry [OF ok] b by (fastforce simp: at_end_def entry_ok_def)
    moreover from True b have "nat (ch_index x) = nat (ch_index d)" by (simp add: at_end_def)
    ultimately have "ch_index x = ch_index d" using x(2) by (simp only: eq_nat_nat_iff)
    with index_unique [OF ok e] b e(2) have "e = b" "x = d" by (auto simp: at_end_def)
    moreover from neq True k(2) have "?k < ?n - 1" by simp
    moreover have "pollfds s \<noteq> []" using k(2) by auto
    ultimately show ?thesis
      using x True k(1) by (simp add: removed_def nth_remove_entry last_conv_nth)
  next
    case False
    with b e(2) have "chans (removed c b d s) e = Some x" by (auto simp: removed_def at_end_def)
    with False x neq show ?thesis by (simp add: nth_remove_entry)
  qed
qed

lemma removed_ok:
  assumes ok: "poller_ok s" and a: "channels s (ch_fd c) = Some a" "chans s a = Some c"
    and b: "at_end s b d"
  shows "poller_ok (removed c b d s)"
proof -
  let ?s = "removed c b d s" and ?k = "nat (ch_index c)"
  note keeps = removed_keeps [OF ok a _ _ _ b]
  have len: "length (pollfds ?s) = length (pollfds s) - 1" by (simp add: removed_def)
  have "entry_ok ?s f e" if "channels ?s f = Some e" for f e
  proof -
    from that have f: "f \<noteq> ch_fd c" "channels s f = Some e"
      by (auto simp: removed_def split: if_splits)
    from channels_entry [OF ok f(2)] keeps [OF f(2) _ f(1)] show ?thesis
      by (fastforce simp: entry_ok_def removed_def)
  qed
  moreover have "\<exists>e y. channels ?s (owner (pollfds ?s ! i)) = Some e \<and> chans ?s e = Some y \<and>
      ch_index y = int i" if i: "i < length (pollfds ?s)" for i
  proof (cases "i = ?k")
    case True
    from i True have k: "?k < length (pollfds s) - 1" by (simp add: len)
    then have "owner (last (pollfds s)) \<noteq> ch_fd c" by (rule other_owner_last [OF ok a])
    moreover have "0 \<le> ch_index c" using channels_entry [OF ok a(1)] a(2) by (auto simp: entry_ok_def)
    ultimately show ?thesis using True k b by (auto simp: removed_def at_end_def nth_remove_entry)
  next
    case False
    from i len have "i < length (pollfds s)" by simp
    from entry_channel [OF ok this] obtain e x
      where x: "channels s (owner (pollfds s ! i)) = Some e" "chans s e = Some x" "ch_index x = int i"
      by blast
    moreover have "chans ?s e = Some x"
      using x b i by (auto simp: removed_def at_end_def)
    moreover have "owner (pollfds s ! i) \<noteq> ch_fd c"
      using other_owner [OF ok a, of i] i False by (simp add: len)
    ultimately show ?thesis using i False by (auto simp: removed_def nth_remove_entry)
  qed
  ultimately show ?thesis by (simp add: poller_ok_def)
qed

lemma removed_watch:
  assumes ok: "poller_ok s" and a: "channels s (ch_fd c) = Some a" "chans s a = Some c"
    and b: "at_end s b d"
  shows "watch (removed c b d s) = (watch s)(ch_fd c := None)"
proof
  fix f
  show "watch (removed c b d s) f = ((watch s)(ch_fd c := None)) f"
  proof (cases "f = ch_fd c \<or> channels s f = None")
    case True
    then show ?thesis by (auto simp: watch_def removed_def)
  next
    case False
    then obtain e where f: "f \<noteq> ch_fd c" "channels s f = Some e" by auto
    from channels_entry [OF ok f(2)] obtain x where x: "chans s e = Some x" by (auto simp: entry_ok_def)
    from removed_keeps [OF ok a f(2) x f(1) b] f x show ?thesis
      by (auto simp: watch_def) (auto simp: removed_def Let_def)
  qed
qed

lemma removeChannel_run:
  assumes ok: "poller_ok s" and reg: "registered a s" and c: "chans s a = Some c"
    and none: "isNoneEvent c" and muted: "watch s (ch_fd c) = Some (0, True)"
    and b: "at_end s b d"
  shows "removeChannel True a s = Inr (removed c b d s)"
proof -
  from registered_entry [OF ok reg] c
  have ch: "channels s (ch_fd c) = Some a" and i0: "0 \<le> ch_index c"
    and il: "nat (ch_index c) < length (pollfds s)"
    and own: "owner (pollfds s ! nat (ch_index c)) = ch_fd c" by auto
  have il': "ch_index c < int (length (pollfds s))" using i0 il by linarith
  have pfd: "pfd_fd (pollfds s ! nat (ch_index c)) = - ch_fd c - 1"
    "pfd_events (pollfds s ! nat (ch_index c)) = 0"
    using muted own c ch by (auto simp: watch_def Let_def owner_def split: if_splits)
  show ?thesis
  proof (cases "nat (ch_index c) = length (pollfds s) - 1")
    case True
    with c ch none i0 il' pfd show ?thesis
      by (simp add: removeChannel_def removed_def remove_entry_def isNoneEvent_def kNoneEvent_def Let_def)
  next
    case False
    with il have "nat (ch_index c) < length (pollfds s) - 1" by simp
    moreover from this have "owner (last (pollfds s)) \<noteq> ch_fd c"
      by (rule other_owner_last [OF ok ch c])
    ultimately show ?thesis
      using False c ch none i0 il' pfd b
      by (simp add: removeChannel_def removed_def remove_entry_def isNoneEvent_def kNoneEvent_def
          Let_def owner_def [symmetric] set_index_def butlast_swap at_end_def)
  qed
qed

section \<open>The registration as a map\<close>

text \<open>A channel that may be handed to \<open>updateChannel\<close>: registered already, or new.\<close>

definition updatable :: "nat \<Rightarrow> 'z PollPoller_scheme \<Rightarrow> bool" where
  "updatable a s \<longleftrightarrow> registered a s \<or>
     (\<exists>c. chans s a = Some c \<and> ch_index c < 0 \<and> 0 \<le> ch_fd c \<and> channels s (ch_fd c) = None)"

definition muted :: "int \<Rightarrow> 'z PollPoller_scheme \<Rightarrow> bool" where
  "muted f s \<longleftrightarrow> (case watch s f of None \<Rightarrow> False | Some (e, m) \<Rightarrow> m)"

text \<open>
  What an operation on channel \<open>a\<close> leaves alone: the other channels, up to their index, which of
  them are registered, and the rest of the state.
\<close>

definition forget_index :: "Channel option \<Rightarrow> Channel option" where
  "forget_index = map_option (\<lambda>c. c\<lparr>ch_index := 0\<rparr>)"

lemma forget_indexD:
  assumes "forget_index x = forget_index (Some c)"
  obtains d where "x = Some d" "ch_fd d = ch_fd c" "ch_events d = ch_events c"
    "ch_revents d = ch_revents c" "ch_eventHandling d = ch_eventHandling c" "ch_tied d = ch_tied c"
    "ch_loop d = ch_loop c"
proof -
  from assms obtain d where d: "x = Some d" "d\<lparr>ch_index := 0\<rparr> = c\<lparr>ch_index := 0\<rparr>"
    by (auto simp: forget_index_def)
  note eq = arg_cong [OF d(2)]
  show thesis
    using that [OF d(1)] eq [of ch_fd] eq [of ch_events] eq [of ch_revents] eq [of ch_eventHandling]
      eq [of ch_tied] eq [of ch_loop] by simp
qed

definition same_but :: "nat \<Rightarrow> 'z PollPoller_scheme \<Rightarrow> 'z PollPoller_scheme \<Rightarrow> bool" where
  "same_but a s s' \<longleftrightarrow> PollPoller.more s' = PollPoller.more s \<and>
     (\<forall>b. b \<noteq> a \<longrightarrow> forget_index (chans s' b) = forget_index (chans s b) \<and>
       registered b s' = registered b s)"

lemma registered_channels:
  "poller_ok s \<Longrightarrow> registered a s \<longleftrightarrow> (\<exists>f. channels s f = Some a)"
  by (fastforce simp: registered_def entry_ok_def dest: channels_entry)

lemma same_but_pollfds: "same_but a s (s\<lparr>pollfds := ps\<rparr>)"
  by (simp add: same_but_def registered_def)

lemma same_but_new:
  assumes "chans s a = Some c" and "channels s (ch_fd c) = None"
  shows "same_but a s (s\<lparr>pollfds := ps, chans := (chans s)(a \<mapsto> c\<lparr>ch_index := i\<rparr>),
    channels := (channels s)(ch_fd c \<mapsto> a)\<rparr>)"
proof -
  let ?s = "s\<lparr>pollfds := ps, chans := (chans s)(a \<mapsto> c\<lparr>ch_index := i\<rparr>),
    channels := (channels s)(ch_fd c \<mapsto> a)\<rparr>"
  have "registered b ?s = registered b s" if "b \<noteq> a" for b
    using assms that by (cases "chans s b") (auto simp: registered_def)
  then show ?thesis by (simp add: same_but_def)
qed

text \<open>
  C13. Registering and changing interest refines a map update: on a well-formed poller,
  \<open>updateChannel\<close> on a new or an already registered channel never fails an assertion, keeps
  the poller well-formed (indices, descriptors and the channel map agree), and changes the watched
  events of exactly that channel's descriptor; other channels stay registered as they were. An
  entry becomes muted when an update finds no interest left.
\<close>

theorem updateChannel_refines:
  assumes ok: "poller_ok s" and upd: "updatable a s" and c: "chans s a = Some c"
  shows "\<exists>s'. updateChannel True a s = Inr s' \<and> poller_ok s' \<and> registered a s' \<and> same_but a s s' \<and>
    forget_index (chans s' a) = forget_index (Some c) \<and>
    watch s' = (watch s)(ch_fd c \<mapsto> (ucast (ch_events c),
      muted (ch_fd c) s \<or> (registered a s \<and> isNoneEvent c)))"
proof (cases "registered a s")
  case True
  from registered_entry [OF ok True] c have "channels s (ch_fd c) = Some a" by auto
  then have "snd (the (watch s (ch_fd c))) = muted (ch_fd c) s"
    using c by (simp add: muted_def watch_def Let_def)
  moreover note updateChannel_existing [OF ok True c]
  moreover have "registered a (s\<lparr>pollfds := ps\<rparr>)" for ps using True by (simp add: registered_def)
  ultimately show ?thesis using True c by (simp add: forget_index_def same_but_pollfds)
next
  case False
  with upd c have new: "ch_index c < 0" "0 \<le> ch_fd c" "channels s (ch_fd c) = None"
    by (auto simp: updatable_def)
  have "muted (ch_fd c) s = False" using new(3) by (simp add: muted_def watch_def)
  moreover note updateChannel_new [OF ok c new] same_but_new [OF c new(3)]
  moreover have "registered a (s\<lparr>pollfds := ps, chans := (chans s)(a \<mapsto> c\<lparr>ch_index := int n\<rparr>),
      channels := (channels s)(ch_fd c \<mapsto> a)\<rparr>)" for ps n
    by (simp add: registered_def)
  ultimately show ?thesis using False by (simp add: forget_index_def)
qed


definition example_poller :: PollPoller where
  "example_poller = \<lparr>chans = [7 \<mapsto> (new_channel 1 5)\<lparr>ch_events := kReadEvent, ch_index := 0\<rparr>],
     pollfds = [\<lparr>pfd_fd = 5, pfd_events = 3, pfd_revents = 0\<rparr>], channels = [5 \<mapsto> 7]\<rparr>"

lemma example_poller_ok: "poller_ok example_poller"
  by (auto simp: poller_defs example_poller_def new_channel_def owner_def)

theorem updateChannel_refines_witness:
  "\<exists>s'. updateChannel True 9 (example_poller\<lparr>chans := (chans example_poller)(9 \<mapsto> (new_channel 1 6)\<lparr>ch_events := POLLOUT\<rparr>)\<rparr>) = Inr s' \<and>
    watch s' 6 = Some (4, False)"
proof -
  let ?c = "(new_channel 1 6)\<lparr>ch_events := POLLOUT\<rparr>"
  let ?s = "example_poller\<lparr>chans := (chans example_poller)(9 \<mapsto> ?c)\<rparr>"
  have "poller_ok ?s" by (auto simp: poller_defs example_poller_def new_channel_def owner_def)
  moreover have "updatable 9 ?s" "registered 9 ?s \<longleftrightarrow> False" "muted 6 ?s \<longleftrightarrow> False"
    by (auto simp: updatable_def registered_def example_poller_def new_channel_def muted_def watch_def)
  ultimately show ?thesis
    using updateChannel_refines [of ?s 9 ?c] by (auto simp: new_channel_def POLLOUT_def)
qed

lemma same_but_removed:
  assumes ok: "poller_ok s" and a: "channels s (ch_fd c) = Some a" "chans s a = Some c"
    and b: "at_end s b d"
  shows "same_but a s (removed c b d s)" and "forget_index (chans (removed c b d s) a) = forget_index (Some c)"
proof -
  let ?s = "removed c b d s"
  have chans: "forget_index (chans ?s e) = forget_index (chans s e)" for e
    using b by (auto simp: removed_def forget_index_def at_end_def)
  have "registered e ?s = registered e s" if "e \<noteq> a" for e
  proof -
    have "(\<exists>f. channels ?s f = Some e) = (\<exists>f. channels s f = Some e)"
      using that a(1) by (auto simp: removed_def split: if_splits) (metis option.inject)
    then show ?thesis
      using registered_channels [OF ok] registered_channels [OF removed_ok [OF ok a b]] by blast
  qed
  with chans show "same_but a s ?s" by (simp add: same_but_def removed_def)
  show "forget_index (chans ?s a) = forget_index (Some c)" using chans a(2) by simp
qed

text \<open>
  C14. Removal: for a registered channel with no interest left whose entry is muted, as
  \<open>disableAll\<close> leaves it, \<open>removeChannel\<close> fails no assertion, keeps the poller well-formed
  (the entry moved into the gap gets the right index back), and forgets exactly that descriptor.
\<close>

theorem removeChannel_refines:
  assumes ok: "poller_ok s" and reg: "registered a s" and c: "chans s a = Some c"
    and none: "isNoneEvent c" and muted: "watch s (ch_fd c) = Some (0, True)"
  shows "\<exists>s'. removeChannel True a s = Inr s' \<and> poller_ok s' \<and> same_but a s s' \<and>
    forget_index (chans s' a) = forget_index (Some c) \<and> watch s' = (watch s)(ch_fd c := None)"
proof -
  from registered_entry [OF ok reg] c
  have ch: "channels s (ch_fd c) = Some a" and il: "nat (ch_index c) < length (pollfds s)" by auto
  from at_end_exists [OF ok il] obtain b d where b: "at_end s b d" by blast
  show ?thesis
    using removeChannel_run [OF ok reg c none muted b] removed_ok [OF ok ch c b]
      removed_watch [OF ok ch c b] same_but_removed [OF ok ch c b] by blast
qed

theorem removeChannel_refines_witness:
  "\<exists>s'. removeChannel True 7 \<lparr>chans = [7 \<mapsto> (new_channel 1 5)\<lparr>ch_index := 0\<rparr>],
     pollfds = [\<lparr>pfd_fd = -6, pfd_events = 0, pfd_revents = 0\<rparr>], channels = [5 \<mapsto> 7]\<rparr> = Inr s' \<and>
     watch s' 5 = None"
proof -
  let ?c = "(new_channel 1 5)\<lparr>ch_index := 0\<rparr>"
  let ?s = "\<lparr>chans = [7 \<mapsto> ?c],
     pollfds = [\<lparr>pfd_fd = -6, pfd_events = 0, pfd_revents = 0\<rparr>], channels = [5 \<mapsto> 7]\<rparr>"
  have "poller_ok ?s" by (auto simp: poller_defs new_channel_def owner_def)
  moreover have "registered 7 ?s" "isNoneEvent ?c" "watch ?s (ch_fd ?c) = Some (0, True)"
    by (auto simp: registered_def new_channel_def isNoneEvent_def kNoneEvent_def watch_def)
  ultimately show ?thesis
    using removeChannel_refines [of ?s 7 ?c] by (auto simp: new_channel_def)
qed


section \<open>Reporting events\<close>

text \<open>
  What \<open>poll(2)\<close> documents: one \<open>revents\<close> per entry, zero where the descriptor is negative, no
  negative \<open>short\<close>; the return value counts the entries with events, or is negative.
\<close>

definition poll_contract :: "pollfd list \<Rightarrow> int \<times> 16 word list \<Rightarrow> bool" where
  "poll_contract ps r \<longleftrightarrow> length (snd r) = length ps \<and>
     (\<forall>i < length ps. 0 \<le> sint (snd r ! i) \<and> (pfd_fd (ps ! i) < 0 \<longrightarrow> snd r ! i = 0)) \<and>
     (0 \<le> fst r \<longrightarrow> fst r = int (length (filter (\<lambda>e. e \<noteq> 0) (snd r))))"

text \<open>The entries with events, and the state in which their channels know them.\<close>

abbreviation ready :: "pollfd list \<Rightarrow> pollfd list" where
  "ready ps \<equiv> filter (\<lambda>p. pfd_revents p \<noteq> 0) ps"

definition deliver :: "pollfd \<Rightarrow> 'z PollPoller_scheme \<Rightarrow> 'z PollPoller_scheme" where
  "deliver p s = s\<lparr>chans := (chans s)(the (channels s (pfd_fd p)) :=
     map_option (\<lambda>c. c\<lparr>ch_revents := scast (pfd_revents p)\<rparr>)
       (chans s (the (channels s (pfd_fd p)))))\<rparr>"

definition deliverable :: "'z PollPoller_scheme \<Rightarrow> pollfd \<Rightarrow> bool" where
  "deliverable s p \<longleftrightarrow> 0 \<le> sint (pfd_revents p) \<and> (pfd_revents p \<noteq> 0 \<longrightarrow>
     (\<exists>a c. channels s (pfd_fd p) = Some a \<and> chans s a = Some c \<and> ch_fd c = pfd_fd p))"

lemma sint_pos_iff: "0 \<le> sint w \<Longrightarrow> 0 < sint w \<longleftrightarrow> w \<noteq> 0"
  using signed_eq_0_iff [of w, where ?'a = int] by (simp add: order_less_le)

lemma deliver_simps [simp]:
  "channels (deliver p s) = channels s" "pollfds (deliver p s) = pollfds s"
  "PollPoller.more (deliver p s) = PollPoller.more s"
  by (simp_all add: deliver_def)

lemma deliver_chan:
  "chans s a = Some c \<Longrightarrow> \<exists>c'. chans (deliver p s) a = Some c' \<and> ch_fd c' = ch_fd c \<and>
    ch_index c' = ch_index c"
  by (auto simp: deliver_def)

lemma deliverable_deliver: "deliverable s q \<Longrightarrow> deliverable (deliver p s) q"
  unfolding deliverable_def by (metis deliver_chan deliver_simps(1))

lemma fillActiveChannels_correct:
  "list_all (deliverable s) ps \<Longrightarrow> n = int (length (ready ps)) \<Longrightarrow>
    fillActiveChannels ps n act s =
      Inr (act @ map (\<lambda>p. the (channels s (pfd_fd p))) (ready ps), fold deliver (ready ps) s)"
proof (induction ps arbitrary: n act s)
  case (Cons p ps)
  show ?case
  proof (cases "pfd_revents p = 0")
    case True
    with Cons show ?thesis by (cases "ready ps") simp_all
  next
    case False
    with Cons.prems(1) obtain a c where a: "channels s (pfd_fd p) = Some a" "chans s a = Some c"
      "ch_fd c = pfd_fd p" "0 < sint (pfd_revents p)"
      by (auto simp: deliverable_def sint_pos_iff)
    have "list_all (deliverable (deliver p s)) ps"
      using Cons.prems(1) by (simp add: list_all_iff deliverable_deliver)
    from Cons.IH [OF this, of "n - 1" "act @ [a]"] False Cons.prems(2) a
    show ?thesis by (simp add: set_revents_def deliver_def)
  qed
qed simp


definition chan_at :: "'z PollPoller_scheme \<Rightarrow> pollfd \<Rightarrow> nat" where
  "chan_at s p = the (channels s (pfd_fd p))"

lemma chan_at_deliver [simp]: "chan_at (deliver p s) = chan_at s"
  by (simp add: chan_at_def fun_eq_iff)

lemma chans_deliver:
  "chans (deliver p s) a = (if a = chan_at s p
     then map_option (\<lambda>c. c\<lparr>ch_revents := scast (pfd_revents p)\<rparr>) (chans s a) else chans s a)"
  by (simp add: deliver_def chan_at_def)

lemma fold_deliver_frame:
  "channels (fold deliver rs s) = channels s" "pollfds (fold deliver rs s) = pollfds s"
  "PollPoller.more (fold deliver rs s) = PollPoller.more s"
  by (induction rs arbitrary: s) simp_all

lemma fold_deliver_other:
  "a \<notin> chan_at s ` set rs \<Longrightarrow> chans (fold deliver rs s) a = chans s a"
proof (induction rs arbitrary: s)
  case (Cons r rs)
  then have "chans (fold deliver rs (deliver r s)) a = chans (deliver r s) a" by simp
  with Cons.prems show ?case by (simp add: chans_deliver)
qed simp

lemma fold_deliver_hit:
  "distinct (map (chan_at s) rs) \<Longrightarrow> p \<in> set rs \<Longrightarrow> chans s (chan_at s p) = Some c \<Longrightarrow>
    chans (fold deliver rs s) (chan_at s p) = Some (c\<lparr>ch_revents := scast (pfd_revents p)\<rparr>)"
proof (induction rs arbitrary: s)
  case (Cons r rs)
  show ?case
  proof (cases "p = r")
    case True
    have "chans (fold deliver rs (deliver r s)) (chan_at s r) = chans (deliver r s) (chan_at s r)"
      using Cons.prems(1) by (intro fold_deliver_other) simp
    with True Cons.prems(3) show ?thesis by (simp add: chans_deliver)
  next
    case False
    with Cons.prems have p: "p \<in> set rs" by simp
    with Cons.prems(1) have "chan_at s r \<noteq> chan_at s p" by auto
    with Cons.prems(3) have "chans (deliver r s) (chan_at (deliver r s) p) = Some c"
      by (simp add: chans_deliver)
    with Cons.IH [of "deliver r s"] Cons.prems(1) p show ?thesis by simp
  qed
qed simp

lemma nth_store_revents:
  "length revs = length ps \<Longrightarrow> i < length ps \<Longrightarrow>
    store_revents revs ps ! i = (ps ! i)\<lparr>pfd_revents := revs ! i\<rparr>"
  by (simp add: store_revents_def)

lemma ready_indices:
  assumes "length revs = length ps"
  shows "ready (store_revents revs ps) =
    map ((!) (store_revents revs ps)) (filter (\<lambda>i. revs ! i \<noteq> 0) [0..<length ps])"
proof -
  let ?ps = "store_revents revs ps"
  have len: "length ?ps = length ps" using assms by (simp add: store_revents_def)
  have "ready ?ps = ready (map ((!) ?ps) [0..<length ps])" by (metis len map_nth)
  also have "\<dots> = map ((!) ?ps) (filter (\<lambda>i. pfd_revents (?ps ! i) \<noteq> 0) [0..<length ps])"
    by (simp add: filter_map comp_def)
  also have "filter (\<lambda>i. pfd_revents (?ps ! i) \<noteq> 0) [0..<length ps] =
      filter (\<lambda>i. revs ! i \<noteq> 0) [0..<length ps]"
    using assms by (intro filter_cong) (simp_all add: nth_store_revents)
  finally show ?thesis .
qed

lemma count_ready:
  assumes "length revs = length ps"
  shows "length (ready (store_revents revs ps)) = length (filter (\<lambda>e. e \<noteq> 0) revs)"
proof -
  have "length (filter (\<lambda>e. e \<noteq> 0) revs) = length (filter (\<lambda>e. e \<noteq> 0) (map ((!) revs) [0..<length ps]))"
    by (metis assms map_nth)
  also have "\<dots> = length (filter (\<lambda>i. revs ! i \<noteq> 0) [0..<length ps])"
    by (simp add: filter_map comp_def)
  finally show ?thesis by (simp add: ready_indices [OF assms])
qed

text \<open>An entry with events leads to its channel, whose index is the position of the entry.\<close>

lemma ready_channel:
  assumes ok: "poller_ok s" and con: "poll_contract (pollfds s) (n, revs)"
    and i: "i < length (pollfds s)" and ev: "revs ! i \<noteq> 0"
  shows "\<exists>c. channels s (pfd_fd (pollfds s ! i)) = Some (chan_at s (pollfds s ! i)) \<and>
    chans s (chan_at s (pollfds s ! i)) = Some c \<and> ch_fd c = pfd_fd (pollfds s ! i) \<and>
    ch_index c = int i"
proof -
  from con i ev have "owner (pollfds s ! i) = pfd_fd (pollfds s ! i)"
    by (auto simp: poll_contract_def owner_def)
  with entry_channel [OF ok i] obtain a c
    where a: "channels s (pfd_fd (pollfds s ! i)) = Some a" "chans s a = Some c" "ch_index c = int i"
    by auto
  with channels_entry [OF ok a(1)] show ?thesis by (auto simp: entry_ok_def chan_at_def)
qed

lemma poller_ok_deliver:
  assumes "poller_ok s"
  shows "poller_ok (deliver p s)"
proof -
  have "entry_ok (deliver p s) f a" if "channels s f = Some a" for f a
    using channels_entry [OF assms that] deliver_chan [of s a _ p] by (fastforce simp: entry_ok_def)
  moreover have "\<exists>a c. channels s (owner (pollfds s ! i)) = Some a \<and> chans (deliver p s) a = Some c \<and>
      ch_index c = int i" if "i < length (pollfds s)" for i
    using entry_channel [OF assms that] deliver_chan [of s _ _ p] by metis
  ultimately show ?thesis by (simp add: poller_ok_def)
qed

lemma poller_ok_fold_deliver: "poller_ok s \<Longrightarrow> poller_ok (fold deliver rs s)"
  by (induction rs arbitrary: s) (simp_all add: poller_ok_deliver)


definition reported :: "'z PollPoller_scheme \<Rightarrow> 16 word list \<Rightarrow> nat \<Rightarrow> bool" where
  "reported s revs a \<longleftrightarrow> (\<exists>c. chans s a = Some c \<and> registered a s \<and> revs ! nat (ch_index c) \<noteq> 0)"

lemma ready_is_reported:
  assumes ok: "poller_ok s" and con: "poll_contract (pollfds s) (n, revs)"
  defines "I \<equiv> filter (\<lambda>i. revs ! i \<noteq> 0) [0..<length (pollfds s)]"
  shows "a \<in> (\<lambda>i. chan_at s (pollfds s ! i)) ` set I \<longleftrightarrow> reported s revs a"
    and "inj_on (\<lambda>i. chan_at s (pollfds s ! i)) (set I)"
proof -
  note ch = ready_channel [OF ok con]
  show "inj_on (\<lambda>i. chan_at s (pollfds s ! i)) (set I)"
  proof (rule inj_onI)
    fix i j
    assume "i \<in> set I" "j \<in> set I" and eq: "chan_at s (pollfds s ! i) = chan_at s (pollfds s ! j)"
    with ch [of i] ch [of j] have "int i = int j" by (auto simp: I_def)
    then show "i = j" by simp
  qed
  show "a \<in> (\<lambda>i. chan_at s (pollfds s ! i)) ` set I \<longleftrightarrow> reported s revs a"
  proof
    assume "a \<in> (\<lambda>i. chan_at s (pollfds s ! i)) ` set I"
    then obtain i where i: "a = chan_at s (pollfds s ! i)" "i < length (pollfds s)" "revs ! i \<noteq> 0"
      by (auto simp: I_def)
    with ch [of i] show "reported s revs a"
      by (auto simp: reported_def registered_channels [OF ok])
  next
    assume "reported s revs a"
    then obtain c where c: "chans s a = Some c" "registered a s" "revs ! nat (ch_index c) \<noteq> 0"
      by (auto simp: reported_def)
    from registered_entry [OF ok c(2)] c(1) have k: "nat (ch_index c) < length (pollfds s)"
      "channels s (ch_fd c) = Some a" "owner (pollfds s ! nat (ch_index c)) = ch_fd c" by auto
    with con c(3) have "pfd_fd (pollfds s ! nat (ch_index c)) = ch_fd c"
      by (auto simp: poll_contract_def owner_def split: if_splits)
    with k c(3) show "a \<in> (\<lambda>i. chan_at s (pollfds s ! i)) ` set I"
      by (intro image_eqI [of _ _ "nat (ch_index c)"]) (simp_all add: chan_at_def I_def)
  qed
qed

lemma contract_deliverable:
  assumes ok: "poller_ok s" and con: "poll_contract (pollfds s) (n, revs)"
  shows "list_all (deliverable s) (store_revents revs (pollfds s))"
  unfolding list_all_length
proof (intro allI impI)
  fix i
  assume "i < length (store_revents revs (pollfds s))"
  moreover have len: "length revs = length (pollfds s)" using con by (simp add: poll_contract_def)
  ultimately have i: "i < length (pollfds s)" by (simp add: store_revents_def)
  with con have "0 \<le> sint (revs ! i)" by (simp add: poll_contract_def)
  with ready_channel [OF ok con i] nth_store_revents [OF len i]
  show "deliverable s (store_revents revs (pollfds s) ! i)" by (auto simp: deliverable_def)
qed

text \<open>One call of \<open>poll\<close>: what the kernel filled in is delivered to the channels of the ready entries, in order.\<close>

lemma poll_run:
  assumes ok: "poller_ok s" and ne: "pollfds s \<noteq> []"
    and sys: "sys (pollfds s) = (n, revs)" "0 \<le> n" and con: "poll_contract (pollfds s) (n, revs)"
  defines "ps \<equiv> store_revents revs (pollfds s)"
  shows "poll sys now [] s =
    Inr (now, map (chan_at s) (ready ps), fold deliver (ready ps) (s\<lparr>pollfds := ps\<rparr>))"
proof -
  let ?s = "s\<lparr>pollfds := ps\<rparr>"
  have len: "length revs = length (pollfds s)" using con by (simp add: poll_contract_def)
  have n: "n = int (length (ready ps))"
    using con sys(2) by (simp add: ps_def count_ready [OF len] poll_contract_def)
  have del: "list_all (deliverable ?s) ps"
    using contract_deliverable [OF ok con] by (simp add: ps_def deliverable_def list_all_iff)
  show ?thesis
  proof (cases "n > 0")
    case True
    with ne sys fillActiveChannels_correct [OF del n, of "[]"] show ?thesis
      by (simp add: ps_def poll_def chan_at_def [abs_def])
  next
    case False
    with n have "ready ps = []" by (simp only: length_0_conv [symmetric])
    with False ne sys show ?thesis by (simp add: ps_def poll_def)
  qed
qed

lemma poll_active:
  assumes con: "poll_contract (pollfds s) (n, revs)"
  shows "map (chan_at s) (ready (store_revents revs (pollfds s))) =
    map (\<lambda>i. chan_at s (pollfds s ! i)) (filter (\<lambda>i. revs ! i \<noteq> 0) [0..<length (pollfds s)])"
proof -
  have len: "length revs = length (pollfds s)" using con by (simp add: poll_contract_def)
  show ?thesis using len by (simp add: ready_indices [OF len] nth_store_revents chan_at_def)
qed

lemma poll_delivered:
  assumes ok: "poller_ok s" and con: "poll_contract (pollfds s) (n, revs)" and a: "chans s a = Some c"
  defines "ps \<equiv> store_revents revs (pollfds s)"
  shows "chans (fold deliver (ready ps) (s\<lparr>pollfds := ps\<rparr>)) a = Some (if a \<in> set (map (chan_at s) (ready ps))
    then c\<lparr>ch_revents := scast (revs ! nat (ch_index c))\<rparr> else c)"
proof (cases "a \<in> set (map (chan_at s) (ready ps))")
  case True
  let ?s = "s\<lparr>pollfds := ps\<rparr>"
  have len: "length revs = length (pollfds s)" using con by (simp add: poll_contract_def)
  have at: "chan_at ?s = chan_at s" by (simp add: chan_at_def fun_eq_iff)
  note act = poll_active [OF con, folded ps_def]
  have distinct: "distinct (map (chan_at s) (ready ps))"
    using ready_is_reported(2) [OF ok con] by (simp add: act distinct_map)
  from True obtain i where i: "i \<in> set (filter (\<lambda>i. revs ! i \<noteq> 0) [0..<length (pollfds s)])" "a = chan_at s (pollfds s ! i)"
    by (auto simp: act)
  with ready_channel [OF ok con, of i] a have idx: "ch_index c = int i" by auto
  have "ps ! i \<in> set (ready ps)" using i(1) by (simp add: ps_def ready_indices [OF len])
  moreover have "chan_at ?s (ps ! i) = a" "pfd_revents (ps ! i) = revs ! i"
    using i len by (simp_all add: ps_def chan_at_def nth_store_revents)
  ultimately have "chans (fold deliver (ready ps) ?s) a = Some (c\<lparr>ch_revents := scast (revs ! i)\<rparr>)"
    using fold_deliver_hit [of ?s "ready ps" "ps ! i" c] distinct a by (simp add: at)
  with True idx show ?thesis by simp
next
  case False
  have "chan_at (s\<lparr>pollfds := ps\<rparr>) = chan_at s" by (simp add: chan_at_def fun_eq_iff)
  with False have "chans (fold deliver (ready ps) (s\<lparr>pollfds := ps\<rparr>)) a = chans (s\<lparr>pollfds := ps\<rparr>) a"
    by (intro fold_deliver_other) simp
  with False a show ?thesis by simp
qed

text \<open>
  C15. \<open>poll\<close> reports exactly the channels with events: on a well-formed poller and for any result
  the system call may return, no assertion fails, every registered channel whose entry has events
  is in the active list exactly once and no other channel is, its \<open>revents_\<close> are those of its
  entry, and no other channel is touched; the counting shortcut of \<open>fillActiveChannels\<close> skips none.
\<close>

theorem poll_reports:
  assumes ok: "poller_ok s" and ne: "pollfds s \<noteq> []"
    and sys: "sys (pollfds s) = (n, revs)" "0 \<le> n" and con: "poll_contract (pollfds s) (n, revs)"
  shows "\<exists>active s'. poll sys now [] s = Inr (now, active, s') \<and> poller_ok s' \<and>
    distinct active \<and> (\<forall>a. a \<in> set active \<longleftrightarrow> reported s revs a) \<and>
    (\<forall>a c. chans s a = Some c \<longrightarrow> chans s' a = Some (if a \<in> set active
       then c\<lparr>ch_revents := scast (revs ! nat (ch_index c))\<rparr> else c)) \<and>
    channels s' = channels s"
proof -
  let ?ps = "store_revents revs (pollfds s)"
  let ?act = "map (chan_at s) (ready ?ps)" and ?t = "fold deliver (ready ?ps) (s\<lparr>pollfds := ?ps\<rparr>)"
  note act = poll_active [OF con]
  have len: "length revs = length (pollfds s)" using con by (simp add: poll_contract_def)
  have "poller_ok (s\<lparr>pollfds := ?ps\<rparr>)"
    using ok len by (intro poller_ok_same_owners) (simp_all add: nth_store_revents owner_def store_revents_def)
  then have "poller_ok ?t" by (rule poller_ok_fold_deliver)
  moreover have "distinct ?act" using ready_is_reported(2) [OF ok con] by (simp add: act distinct_map)
  moreover have "a \<in> set ?act \<longleftrightarrow> reported s revs a" for a
    using ready_is_reported(1) [OF ok con, of a] by (simp only: act set_map)
  ultimately show ?thesis
    using poll_run [where sys = sys and now = now, OF ok ne sys con] poll_delivered [OF ok con] by (auto simp: fold_deliver_frame)
qed

theorem poll_reports_witness:
  "\<exists>s'. poll (\<lambda>ps. (1, [1])) 99 [] example_poller = Inr (99, [7], s') \<and>
    map_option ch_revents (chans s' 7) = Some 1"
proof -
  have "poll_contract (pollfds example_poller) (1, [1])"
    by (simp add: poll_contract_def example_poller_def)
  from poll_reports [OF example_poller_ok _ _ _ this, of "\<lambda>ps. (1, [1])" 99] obtain active s'
    where r: "poll (\<lambda>ps. (1, [1])) 99 [] example_poller = Inr (99, active, s')" "distinct active"
      "\<And>a. a \<in> set active \<longleftrightarrow> reported example_poller [1] a"
      "\<And>a c. chans example_poller a = Some c \<Longrightarrow> chans s' a = Some (if a \<in> set active
         then c\<lparr>ch_revents := scast ([1 :: 16 word] ! nat (ch_index c))\<rparr> else c)"
    by (auto simp: example_poller_def)
  have "reported example_poller [1] a \<longleftrightarrow> a = 7" for a
    by (auto simp: reported_def registered_def example_poller_def new_channel_def)
  with r(3) have set: "set active = {7}" by auto
  with distinct_card [OF r(2)] have "length active = 1" by simp
  with set have "active = [7]" by (cases active) auto
  with r(1) r(4) [of 7] show ?thesis by (simp add: example_poller_def new_channel_def)
qed


section \<open>Re-enabling a muted channel\<close>

text \<open>
  Defect: interest that comes back is never watched. Once \<open>disableAll\<close> (or dropping the last
  interest) has muted an entry, a later \<open>enableReading\<close> or \<open>enableWriting\<close> stores the new mask but
  leaves \<open>pfd.fd\<close> negative, since \<open>updateChannel\<close> only ever writes \<open>-fd - 1\<close>; the entry stays
  muted, whatever the new mask, and no call of \<open>poll(2)\<close> reports an event of that channel again.
\<close>

theorem muted_channel_stays_muted:
  assumes ok: "poller_ok s" and reg: "registered a s" and c: "chans s a = Some c"
    and muted: "muted (ch_fd c) s"
    and upd: "updateChannel True a s = Inr s'"
    and sys: "sys (pollfds s') = (n, revs)" "0 \<le> n" "poll_contract (pollfds s') (n, revs)"
  shows "muted (ch_fd c) s' \<and>
    (\<exists>active t. poll sys now [] s' = Inr (now, active, t) \<and> a \<notin> set active)"
proof -
  from updateChannel_refines [OF ok _ c] reg upd
  have s': "poller_ok s'" "registered a s'" "forget_index (chans s' a) = forget_index (Some c)"
    and watch: "watch s' = (watch s)(ch_fd c \<mapsto> (ucast (ch_events c), True))"
    using muted by (auto simp: updatable_def)
  from s'(3) obtain d where d: "chans s' a = Some d" "ch_fd d = ch_fd c"
    by (rule forget_indexD)
  with registered_entry [OF s'(1,2)] have e: "channels s' (ch_fd c) = Some a"
    "nat (ch_index d) < length (pollfds s')" by auto
  have "pfd_fd (pollfds s' ! nat (ch_index d)) < 0"
    using fun_cong [OF watch, of "ch_fd c"] e d by (simp add: watch_def Let_def)
  with sys(3) e(2) have "revs ! nat (ch_index d) = 0" by (auto simp: poll_contract_def)
  with d(1) have "\<not> reported s' revs a" by (simp add: reported_def)
  moreover have ne: "pollfds s' \<noteq> []" using e(2) by auto
  ultimately show ?thesis
    using poll_reports [where sys = sys and now = now, OF s'(1) ne sys] watch
    by (auto simp: muted_def)
qed

theorem muted_channel_stays_muted_witness:
  "\<exists>s'. updateChannel True 7 (example_poller\<lparr>pollfds := [\<lparr>pfd_fd = -6, pfd_events = 0, pfd_revents = 0\<rparr>]\<rparr>) = Inr s' \<and>
     muted 5 s' \<and> ch_events (the (chans s' 7)) = kReadEvent"
proof -
  let ?s = "example_poller\<lparr>pollfds := [\<lparr>pfd_fd = -6, pfd_events = 0, pfd_revents = 0\<rparr>]\<rparr>"
  let ?c = "(new_channel 1 5)\<lparr>ch_events := kReadEvent, ch_index := 0\<rparr>"
  let ?t = "?s\<lparr>pollfds := [\<lparr>pfd_fd = -6, pfd_events = 3, pfd_revents = 0\<rparr>]\<rparr>"
  have ok: "poller_ok ?s"
    by (auto simp: poller_defs example_poller_def new_channel_def owner_def)
  have reg: "registered 7 ?s" and c: "chans ?s 7 = Some ?c" and m: "muted (ch_fd ?c) ?s"
    by (auto simp: registered_def example_poller_def new_channel_def muted_def watch_def)
  have up: "updateChannel True 7 ?s = Inr ?t"
    by (simp add: updateChannel_def example_poller_def new_channel_def isNoneEvent_def
        kNoneEvent_def kReadEvent_def poll_consts)
  have "poll_contract (pollfds ?t) (0, [0])" by (simp add: poll_contract_def)
  from muted_channel_stays_muted [OF ok reg c m up, of "\<lambda>ps. (0, [0])", OF _ _ this] up
  show ?thesis by (simp add: new_channel_def example_poller_def)
qed

end
