(* ===== verification/EventLoop.thy ===== *)
theory EventLoop
  imports PollPoller
begin

text \<open>
  \<open>muduo/net/EventLoop.h\<close> and \<open>EventLoop.cc\<close>: the reactor. One state holds the channels and the
  poller of a loop and the loop's own members (prefix \<open>el\<close>); the type parameter \<open>'f\<close> is the type
  of functors, and \<open>run\<close> executes one. The eventfd is its counter \<open>el_wakeups\<close>: \<open>wakeup\<close> adds
  one, \<open>handleRead\<close> resets it. \<open>tid\<close> is the id of the calling thread.

  The channel operations of \<open>Channel.h\<close> that go through the loop (\<open>enableReading\<close> and the like) are
  here as well. The locale \<open>event_registry\<close> is what connections, acceptors and connectors rely on.
  The last section interleaves the loop with other threads that queue functors.
\<close>

record 'f EventLoop = PollPoller +
  el_self :: nat
  el_looping :: bool
  el_quit :: bool
  el_eventHandling :: bool
  el_callingPendingFunctors :: bool
  el_threadId :: int
  el_pollReturnTime :: int
  el_activeChannels :: "nat list"
  el_currentActiveChannel :: "nat option"
  el_pendingFunctors :: "'f list"
  el_wakeups :: nat

definition isInLoopThread :: "int \<Rightarrow> ('f, 'z) EventLoop_scheme \<Rightarrow> bool" where
  "isInLoopThread tid s \<longleftrightarrow> el_threadId s = tid"

definition assertInLoopThread :: "int \<Rightarrow> ('f, 'z) EventLoop_scheme \<Rightarrow> unit result" where
  "assertInLoopThread tid s = assertInLoop (isInLoopThread tid s)"

definition loop_updateChannel ::
  "int \<Rightarrow> nat \<Rightarrow> ('f, 'z) EventLoop_scheme \<Rightarrow> ('f, 'z) EventLoop_scheme result" where
  "loop_updateChannel tid a s =
     rbind (deref a s) (\<lambda>c.
     rbind (guard (ch_loop c = el_self s) ''channel->ownerLoop() == this'') (\<lambda>_.
     rbind (assertInLoopThread tid s) (\<lambda>_.
     updateChannel (isInLoopThread tid s) a s)))"

definition loop_removeChannel ::
  "int \<Rightarrow> nat \<Rightarrow> ('f, 'z) EventLoop_scheme \<Rightarrow> ('f, 'z) EventLoop_scheme result" where
  "loop_removeChannel tid a s =
     rbind (deref a s) (\<lambda>c.
     rbind (guard (ch_loop c = el_self s) ''channel->ownerLoop() == this'') (\<lambda>_.
     rbind (assertInLoopThread tid s) (\<lambda>_.
     rbind (guard (\<not> el_eventHandling s \<or> el_currentActiveChannel s = Some a \<or>
                   a \<notin> set (el_activeChannels s))
              ''currentActiveChannel_ == channel || not in activeChannels_'') (\<lambda>_.
     removeChannel (isInLoopThread tid s) a s))))"

section \<open>Channel operations that update the loop\<close>

definition update_events ::
  "int \<Rightarrow> nat \<Rightarrow> (32 word \<Rightarrow> 32 word) \<Rightarrow> ('f, 'z) EventLoop_scheme \<Rightarrow>
   ('f, 'z) EventLoop_scheme result" where
  "update_events tid a f s = rbind (modify a (ch_events_update f) s) (loop_updateChannel tid a)"

definition enableReading :: "int \<Rightarrow> nat \<Rightarrow> ('f, 'z) EventLoop_scheme \<Rightarrow> ('f, 'z) EventLoop_scheme result" where
  "enableReading tid a = update_events tid a (\<lambda>e. e OR kReadEvent)"

definition enableWriting :: "int \<Rightarrow> nat \<Rightarrow> ('f, 'z) EventLoop_scheme \<Rightarrow> ('f, 'z) EventLoop_scheme result" where
  "enableWriting tid a = update_events tid a (\<lambda>e. e OR kWriteEvent)"

definition disableReading :: "int \<Rightarrow> nat \<Rightarrow> ('f, 'z) EventLoop_scheme \<Rightarrow> ('f, 'z) EventLoop_scheme result" where
  "disableReading tid a = update_events tid a (\<lambda>e. e AND NOT kReadEvent)"

definition disableWriting :: "int \<Rightarrow> nat \<Rightarrow> ('f, 'z) EventLoop_scheme \<Rightarrow> ('f, 'z) EventLoop_scheme result" where
  "disableWriting tid a = update_events tid a (\<lambda>e. e AND NOT kWriteEvent)"

definition disableAll :: "int \<Rightarrow> nat \<Rightarrow> ('f, 'z) EventLoop_scheme \<Rightarrow> ('f, 'z) EventLoop_scheme result" where
  "disableAll tid a = update_events tid a (\<lambda>e. kNoneEvent)"

definition channel_remove :: "int \<Rightarrow> nat \<Rightarrow> ('f, 'z) EventLoop_scheme \<Rightarrow> ('f, 'z) EventLoop_scheme result" where
  "channel_remove tid a s =
     rbind (deref a s) (\<lambda>c.
     rbind (guard (isNoneEvent c) ''isNoneEvent()'') (\<lambda>_. loop_removeChannel tid a s))"

section \<open>Functors\<close>

definition wakeup :: "('f, 'z) EventLoop_scheme \<Rightarrow> ('f, 'z) EventLoop_scheme" where
  "wakeup s = s\<lparr>el_wakeups := el_wakeups s + 1\<rparr>"

definition handleRead :: "('f, 'z) EventLoop_scheme \<Rightarrow> ('f, 'z) EventLoop_scheme" where
  "handleRead s = s\<lparr>el_wakeups := 0\<rparr>"

definition quit :: "int \<Rightarrow> ('f, 'z) EventLoop_scheme \<Rightarrow> ('f, 'z) EventLoop_scheme" where
  "quit tid s = (let s = s\<lparr>el_quit := True\<rparr> in if \<not> isInLoopThread tid s then wakeup s else s)"

text \<open>\<open>queueInLoop\<close> in its two atomic parts, the push under the mutex and the wake-up.\<close>

definition push_functor :: "'f \<Rightarrow> ('f, 'z) EventLoop_scheme \<Rightarrow> ('f, 'z) EventLoop_scheme" where
  "push_functor cb s = s\<lparr>el_pendingFunctors := el_pendingFunctors s @ [cb]\<rparr>"

definition needs_wakeup :: "int \<Rightarrow> ('f, 'z) EventLoop_scheme \<Rightarrow> bool" where
  "needs_wakeup tid s \<longleftrightarrow> \<not> isInLoopThread tid s \<or> el_callingPendingFunctors s"

definition queueInLoop :: "int \<Rightarrow> 'f \<Rightarrow> ('f, 'z) EventLoop_scheme \<Rightarrow> ('f, 'z) EventLoop_scheme" where
  "queueInLoop tid cb s =
     (let s = push_functor cb s in if needs_wakeup tid s then wakeup s else s)"

definition runInLoop ::
  "('f \<Rightarrow> ('f, 'z) EventLoop_scheme \<Rightarrow> ('f, 'z) EventLoop_scheme result) \<Rightarrow> int \<Rightarrow> 'f \<Rightarrow>
   ('f, 'z) EventLoop_scheme \<Rightarrow> ('f, 'z) EventLoop_scheme result" where
  "runInLoop run tid cb s =
     (if isInLoopThread tid s then run cb s else Inr (queueInLoop tid cb s))"

text \<open>\<open>functors.swap(pendingFunctors_)\<close>, with the flag set before it.\<close>

definition swap_functors :: "('f, 'z) EventLoop_scheme \<Rightarrow> 'f list \<times> ('f, 'z) EventLoop_scheme" where
  "swap_functors s = (el_pendingFunctors s,
     s\<lparr>el_callingPendingFunctors := True, el_pendingFunctors := []\<rparr>)"

definition doPendingFunctors ::
  "('f \<Rightarrow> ('f, 'z) EventLoop_scheme \<Rightarrow> ('f, 'z) EventLoop_scheme result) \<Rightarrow>
   ('f, 'z) EventLoop_scheme \<Rightarrow> ('f, 'z) EventLoop_scheme result" where
  "doPendingFunctors run s =
     (case swap_functors s of (functors, s) \<Rightarrow>
        rbind (rfold run functors s) (\<lambda>s. Inr (s\<lparr>el_callingPendingFunctors := False\<rparr>)))"

section \<open>The loop\<close>

text \<open>
  \<open>env a s\<close>: whether the object channel \<open>a\<close> is tied to is alive, and the callbacks bound to it.
  One element of \<open>polls\<close> is one return of \<open>poll\<close>: the system call and the time; when the list runs
  out before \<open>quit_\<close> is set, the loop is still running, which is \<open>None\<close>.
\<close>

type_synonym 's environment = "nat \<Rightarrow> 's \<Rightarrow> bool \<times> 's callbacks"

type_synonym poll_return = "(pollfd list \<Rightarrow> int \<times> 16 word list) \<times> int"

definition handle_active ::
  "('f, 'z) EventLoop_scheme environment \<Rightarrow> nat \<Rightarrow> ('f, 'z) EventLoop_scheme \<Rightarrow>
   ('f, 'z) EventLoop_scheme result" where
  "handle_active env a s =
     (let s = s\<lparr>el_currentActiveChannel := Some a\<rparr>
      in case env a s of (alive, cbs) \<Rightarrow> handleEvent a alive cbs (el_pollReturnTime s) s)"

definition loop_iteration ::
  "('f \<Rightarrow> ('f, 'z) EventLoop_scheme \<Rightarrow> ('f, 'z) EventLoop_scheme result) \<Rightarrow>
   ('f, 'z) EventLoop_scheme environment \<Rightarrow> poll_return \<Rightarrow> ('f, 'z) EventLoop_scheme \<Rightarrow>
   ('f, 'z) EventLoop_scheme result" where
  "loop_iteration run env p s =
     rbind (poll (fst p) (snd p) [] s) (\<lambda>(time, active, s).
     let s = s\<lparr>el_activeChannels := active, el_pollReturnTime := time, el_eventHandling := True\<rparr> in
     rbind (rfold (handle_active env) active s) (\<lambda>s.
     let s = s\<lparr>el_currentActiveChannel := None, el_eventHandling := False\<rparr> in
     doPendingFunctors run s))"

fun loop_while ::
  "('f \<Rightarrow> ('f, 'z) EventLoop_scheme \<Rightarrow> ('f, 'z) EventLoop_scheme result) \<Rightarrow>
   ('f, 'z) EventLoop_scheme environment \<Rightarrow> poll_return list \<Rightarrow> ('f, 'z) EventLoop_scheme \<Rightarrow>
   ('f, 'z) EventLoop_scheme option result" where
  "loop_while run env [] s = Inr (if el_quit s then Some s else None)"
| "loop_while run env (p # polls) s =
     (if el_quit s then Inr (Some s)
      else rbind (loop_iteration run env p s) (loop_while run env polls))"

definition loop ::
  "('f \<Rightarrow> ('f, 'z) EventLoop_scheme \<Rightarrow> ('f, 'z) EventLoop_scheme result) \<Rightarrow>
   ('f, 'z) EventLoop_scheme environment \<Rightarrow> int \<Rightarrow> poll_return list \<Rightarrow>
   ('f, 'z) EventLoop_scheme \<Rightarrow> ('f, 'z) EventLoop_scheme option result" where
  "loop run env tid polls s =
     rbind (guard (\<not> el_looping s) ''!looping_'') (\<lambda>_.
     rbind (assertInLoopThread tid s) (\<lambda>_.
     rbind (loop_while run env polls (s\<lparr>el_looping := True\<rparr>)) (\<lambda>r.
     Inr (map_option (\<lambda>s. s\<lparr>el_looping := False\<rparr>) r))))"

text \<open>
  The constructor, in the thread \<open>tid\<close>; \<open>existing\<close> is \<open>t_loopInThisThread\<close>. The descriptors are what
  \<open>createTimerfd\<close> and \<open>createEventfd\<close> returned (a negative eventfd aborts), \<open>timerChan\<close> and
  \<open>wakeupChan\<close> the addresses of the two channels. \<open>callingPendingFunctors_\<close> is in no initializer list: its value \<open>garbage\<close>
  is indeterminate.
\<close>

definition new_EventLoop ::
  "bool \<Rightarrow> nat \<Rightarrow> int \<Rightarrow> nat option \<Rightarrow> nat \<times> int \<Rightarrow> nat \<times> int \<Rightarrow> 'f EventLoop result" where
  "new_EventLoop garbage self tid existing timer wake =
     (let s = \<lparr>chans = (\<lambda>_. None), pollfds = [], channels = (\<lambda>_. None), el_self = self,
        el_looping = False, el_quit = False, el_eventHandling = False,
        el_callingPendingFunctors = garbage, el_threadId = tid, el_pollReturnTime = 0,
        el_activeChannels = [], el_currentActiveChannel = None, el_pendingFunctors = [],
        el_wakeups = 0\<rparr> in
      if snd timer < 0 then Inl (Fatal ''failed in timerfd_create'') else
      rbind (enableReading tid (fst timer)
               (s\<lparr>chans := (chans s)(fst timer \<mapsto> new_channel self (snd timer))\<rparr>)) (\<lambda>s.
      if snd wake < 0 then Inl (Fatal ''Failed in eventfd'') else
      if existing \<noteq> None then Inl (Fatal ''Another EventLoop exists in this thread'') else
      enableReading tid (fst wake) (s\<lparr>chans := (chans s)(fst wake \<mapsto> new_channel self (snd wake))\<rparr>)))"

section \<open>The registry a loop offers its clients\<close>

text \<open>
  What a component that owns a channel relies on: it may change the interest of a channel that is
  enrolled or fresh, and may remove an enrolled channel that has been silenced, unless the loop is
  about to dispatch it (\<open>allowed\<close>). \<open>rest\<close> is the state the registry does not own, \<open>seen\<close> what
  stays the same of every other channel, \<open>base\<close> what stays the same of the channel itself.
\<close>

locale event_registry =
  fixes ok :: "'s \<Rightarrow> bool" and enrolled :: "nat \<Rightarrow> 's \<Rightarrow> bool" and fresh :: "nat \<Rightarrow> 's \<Rightarrow> bool"
    and interest :: "nat \<Rightarrow> 's \<Rightarrow> 32 word" and silenced :: "nat \<Rightarrow> 's \<Rightarrow> bool"
    and update :: "nat \<Rightarrow> (32 word \<Rightarrow> 32 word) \<Rightarrow> 's \<Rightarrow> 's result"
    and remove :: "nat \<Rightarrow> 's \<Rightarrow> 's result"
    and rest :: "'s \<Rightarrow> 'r" and allowed :: "nat \<Rightarrow> 'r \<Rightarrow> bool"
    and seen :: "nat \<Rightarrow> 's \<Rightarrow> 'v" and base :: "nat \<Rightarrow> 's \<Rightarrow> 'b"
  assumes update_law: "ok s \<Longrightarrow> enrolled a s \<or> fresh a s \<Longrightarrow> \<exists>s'. update a f s = Inr s' \<and> ok s' \<and>
      enrolled a s' \<and> interest a s' = f (interest a s) \<and> rest s' = rest s \<and> base a s' = base a s \<and>
      (\<forall>b. b \<noteq> a \<longrightarrow> seen b s' = seen b s) \<and>
      silenced a s' = (silenced a s \<or> enrolled a s \<and> f (interest a s) = 0)"
    and remove_law: "ok s \<Longrightarrow> enrolled a s \<Longrightarrow> silenced a s \<Longrightarrow> interest a s = 0 \<Longrightarrow>
      allowed a (rest s) \<Longrightarrow> \<exists>s'. remove a s = Inr s' \<and> ok s' \<and> \<not> enrolled a s' \<and>
      interest a s' = 0 \<and> rest s' = rest s \<and> base a s' = base a s \<and> (\<forall>b. b \<noteq> a \<longrightarrow> seen b s' = seen b s)"
begin

lemma updateE:
  assumes "ok s" and "enrolled a s \<or> fresh a s"
  obtains s' where "update a f s = Inr s'" "ok s'" "enrolled a s'" "interest a s' = f (interest a s)"
    "rest s' = rest s" "base a s' = base a s" "\<And>b. b \<noteq> a \<Longrightarrow> seen b s' = seen b s"
    "silenced a s' = (silenced a s \<or> enrolled a s \<and> f (interest a s) = 0)"
  using update_law [OF assms, of f] by blast

lemma retireE:
  assumes "ok s" and "enrolled a s" and "allowed a (rest s)"
  obtains s' where "rbind (update a (\<lambda>e. 0) s) (remove a) = Inr s'" "ok s'" "\<not> enrolled a s'"
    "rest s' = rest s" "base a s' = base a s" "\<And>b. b \<noteq> a \<Longrightarrow> seen b s' = seen b s"
proof -
  from assms obtain t where t: "update a (\<lambda>e. 0) s = Inr t" "ok t" "enrolled a t" "interest a t = 0"
    "rest t = rest s" "base a t = base a s" "\<And>b. b \<noteq> a \<Longrightarrow> seen b t = seen b s" "silenced a t"
    using updateE [of s a "\<lambda>e. 0"] by metis
  with remove_law [of t a] assms(3) that show thesis by fastforce
qed

lemma updates:
  assumes "ok s" and "enrolled a s \<or> fresh a s \<and> fs \<noteq> []"
  shows "\<exists>s'. rfold (update a) fs s = Inr s' \<and> ok s' \<and> enrolled a s' \<and>
    interest a s' = fold (\<lambda>f e. f e) fs (interest a s) \<and> rest s' = rest s \<and> base a s' = base a s \<and>
    (\<forall>b. b \<noteq> a \<longrightarrow> seen b s' = seen b s)"
  using assms
proof (induction fs arbitrary: s)
  case (Cons f fs)
  then have "enrolled a s \<or> fresh a s" by blast
  with Cons.prems(1) obtain t where t: "update a f s = Inr t" "ok t" "enrolled a t"
    "interest a t = f (interest a s)" "rest t = rest s" "base a t = base a s"
    "\<And>b. b \<noteq> a \<Longrightarrow> seen b t = seen b s"
    using updateE [of s a f] by metis
  from Cons.IH [OF t(2)] t show ?case by simp
qed simp

end

text \<open>The registry of the model.\<close>

definition loop_ok :: "int \<Rightarrow> ('f, 'z) EventLoop_scheme \<Rightarrow> bool" where
  "loop_ok tid s \<longleftrightarrow> poller_ok s \<and> el_threadId s = tid \<and>
     (\<forall>a c. registered a s \<longrightarrow> chans s a = Some c \<longrightarrow> ch_loop c = el_self s \<and>
        map_option fst (watch s (ch_fd c)) = Some (ucast (ch_events c)))"

definition fresh :: "nat \<Rightarrow> ('f, 'z) EventLoop_scheme \<Rightarrow> bool" where
  "fresh a s \<longleftrightarrow> (\<exists>c. chans s a = Some c \<and> ch_index c < 0 \<and> 0 \<le> ch_fd c \<and>
     channels s (ch_fd c) = None \<and> ch_loop c = el_self s)"

definition interest :: "nat \<Rightarrow> 'z chan_store_scheme \<Rightarrow> 32 word" where
  "interest a s = (case chans s a of None \<Rightarrow> 0 | Some c \<Rightarrow> ch_events c)"

definition silenced :: "nat \<Rightarrow> 'z PollPoller_scheme \<Rightarrow> bool" where
  "silenced a s \<longleftrightarrow> registered a s \<and> (\<exists>c. chans s a = Some c \<and> muted (ch_fd c) s)"

definition loop_rest :: "('f, 'z) EventLoop_scheme \<Rightarrow> ('f, 'z) EventLoop_scheme" where
  "loop_rest s = s\<lparr>chans := (\<lambda>_. None), pollfds := [], channels := (\<lambda>_. None)\<rparr>"

definition removable :: "nat \<Rightarrow> ('f, 'z) EventLoop_scheme \<Rightarrow> bool" where
  "removable a s \<longleftrightarrow> \<not> el_eventHandling s \<or> el_currentActiveChannel s = Some a \<or>
     a \<notin> set (el_activeChannels s)"

definition forget_events :: "Channel option \<Rightarrow> Channel option" where
  "forget_events = map_option (\<lambda>c. c\<lparr>ch_index := 0, ch_events := 0\<rparr>)"

definition chan_view :: "nat \<Rightarrow> 'z PollPoller_scheme \<Rightarrow> Channel option \<times> bool \<times> bool" where
  "chan_view b s = (forget_index (chans s b), registered b s, silenced b s)"

definition chan_base :: "nat \<Rightarrow> 'z chan_store_scheme \<Rightarrow> Channel option" where
  "chan_base a s = forget_events (chans s a)"

lemma removable_rest [simp]: "removable a (loop_rest s) = removable a s"
  by (simp add: removable_def loop_rest_def)

lemma loop_rest_eq: "loop_rest s' = loop_rest s \<longleftrightarrow> PollPoller.more s' = PollPoller.more s"
  by (cases s, cases s') (simp add: loop_rest_def)


lemma more_eqD:
  assumes "PollPoller.more s' = PollPoller.more s"
  shows "el_self s' = el_self s" "el_threadId s' = el_threadId s" "removable a s' = removable a s"
proof -
  have "loop_rest s' = loop_rest s" using assms by (simp add: loop_rest_eq)
  then have "el_self (loop_rest s') = el_self (loop_rest s)"
    "el_threadId (loop_rest s') = el_threadId (loop_rest s)"
    "removable a (loop_rest s') = removable a (loop_rest s)" by (simp_all only:)
  then show "el_self s' = el_self s" "el_threadId s' = el_threadId s" "removable a s' = removable a s"
    by (simp_all only: removable_rest) (simp_all add: loop_rest_def)
qed

lemma registered_in_map:
  "poller_ok s \<Longrightarrow> registered b s \<Longrightarrow> chans s b = Some d \<Longrightarrow> channels s (ch_fd d) = Some b"
  by (auto elim: registered_entry)

text \<open>
  An operation on channel \<open>a\<close> that leaves the others alone keeps the invariant, if the entry of \<open>a\<close>
  is right afterwards.
\<close>

lemma loop_ok_same_but:
  assumes ok: "loop_ok tid s" and ok': "poller_ok s'" and same: "same_but a s s'"
    and wat: "\<And>f. f \<noteq> g \<Longrightarrow> watch s' f = watch s f"
    and others: "\<And>b d. b \<noteq> a \<Longrightarrow> registered b s \<Longrightarrow> chans s b = Some d \<Longrightarrow> ch_fd d \<noteq> g"
    and own: "\<And>c. registered a s' \<Longrightarrow> chans s' a = Some c \<Longrightarrow> ch_loop c = el_self s \<and>
      map_option fst (watch s' (ch_fd c)) = Some (ucast (ch_events c))"
  shows "loop_ok tid s'" and "\<And>b. b \<noteq> a \<Longrightarrow> chan_view b s' = chan_view b s"
proof -
  have more: "PollPoller.more s' = PollPoller.more s" using same by (simp add: same_but_def)
  have other: "registered b s' = registered b s" "forget_index (chans s' b) = forget_index (chans s b)"
    if "b \<noteq> a" for b
    using same that by (simp_all add: same_but_def)
  have "ch_loop c = el_self s \<and> map_option fst (watch s' (ch_fd c)) = Some (ucast (ch_events c))"
    if b: "b \<noteq> a" and reg: "registered b s'" and c: "chans s' b = Some c" for b c
  proof -
    from other [OF b] c have "forget_index (chans s b) = forget_index (Some c)" by simp
    then obtain d where d: "chans s b = Some d" "ch_fd d = ch_fd c" "ch_events d = ch_events c"
      "ch_loop d = ch_loop c"
      by (rule forget_indexD)
    from reg other(1) [OF b] have r: "registered b s" by simp
    from others [OF b r d(1)] have "watch s' (ch_fd d) = watch s (ch_fd d)" by (rule wat)
    moreover from ok r d(1) have "ch_loop d = el_self s \<and>
        map_option fst (watch s (ch_fd d)) = Some (ucast (ch_events d))"
      unfolding loop_ok_def by blast
    ultimately show ?thesis by (simp only: d(2-4))
  qed
  with own have "ch_loop c = el_self s \<and> map_option fst (watch s' (ch_fd c)) = Some (ucast (ch_events c))"
    if "registered b s'" "chans s' b = Some c" for b c
    using that by (cases "b = a") blast+
  with ok ok' more_eqD [OF more] show "loop_ok tid s'"
    by (simp add: loop_ok_def)
  show "chan_view b s' = chan_view b s" if b: "b \<noteq> a" for b
  proof -
    have "silenced b s' = silenced b s"
    proof (cases "registered b s")
      case True
      then obtain d where d: "chans s b = Some d" by (auto simp: registered_def)
      from other(2) [OF b] d have "forget_index (chans s' b) = forget_index (Some d)" by simp
      then obtain c where "chans s' b = Some c" "ch_fd c = ch_fd d" by (rule forget_indexD)
      moreover from others [OF b True d] have "watch s' (ch_fd d) = watch s (ch_fd d)" by (rule wat)
      ultimately show ?thesis using d other(1) [OF b] by (simp add: silenced_def muted_def)
    qed (simp add: silenced_def other(1) [OF b])
    with other [OF b] show ?thesis by (simp add: chan_view_def)
  qed
qed

lemma poller_ok_events:
  assumes "poller_ok s" and "chans s a = Some c"
  shows "poller_ok (s\<lparr>chans := (chans s)(a \<mapsto> c\<lparr>ch_events := e\<rparr>)\<rparr>)"
proof -
  let ?s = "s\<lparr>chans := (chans s)(a \<mapsto> c\<lparr>ch_events := e\<rparr>)\<rparr>"
  have "entry_ok ?s f b" if "channels s f = Some b" for f b
    using channels_entry [OF assms(1) that] assms(2) by (auto simp: entry_ok_def)
  moreover have "\<exists>b d. channels ?s (owner (pollfds s ! i)) = Some b \<and> chans ?s b = Some d \<and> ch_index d = int i"
    if "i < length (pollfds s)" for i
    using entry_channel [OF assms(1) that] assms(2) by fastforce
  ultimately show ?thesis by (simp add: poller_ok_def)
qed

text \<open>Setting the interest of one channel, before the poller is told.\<close>

abbreviation with_events :: "nat \<Rightarrow> Channel \<Rightarrow> 32 word \<Rightarrow> 'z chan_store_scheme \<Rightarrow> 'z chan_store_scheme" where
  "with_events a c e s \<equiv> s\<lparr>chans := (chans s)(a \<mapsto> c\<lparr>ch_events := e\<rparr>)\<rparr>"

lemma with_events_frame:
  assumes c: "chans s a = Some c"
  shows "registered b (with_events a c e s) = registered b s"
    and "watch (with_events a c e s) = watch s"
    and "muted f (with_events a c e s) = muted f s"
    and "same_but a s (with_events a c e s)"
proof -
  show reg: "registered b (with_events a c e s) = registered b s" for b
    using c by (auto simp: registered_def)
  show wat: "watch (with_events a c e s) = watch s"
    using c by (auto simp: watch_def fun_eq_iff split: option.split)
  then show "muted f (with_events a c e s) = muted f s" by (simp add: muted_def)
  show "same_but a s (with_events a c e s)" using reg by (simp add: same_but_def)
qed

lemma same_but_trans: "same_but a s t \<Longrightarrow> same_but a t u \<Longrightarrow> same_but a s u"
  by (simp add: same_but_def)

lemma other_fd:
  assumes ok: "poller_ok s" and c: "chans s a = Some c"
    and a: "registered a s \<or> channels s (ch_fd c) = None"
    and b: "b \<noteq> a" "registered b s" "chans s b = Some d"
  shows "ch_fd d \<noteq> ch_fd c"
  using registered_in_map [OF ok _ c] registered_in_map [OF ok b(2,3)] a b(1) by auto

lemma update_events_law:
  assumes ok: "loop_ok tid s" and may: "registered a s \<or> fresh a s"
  shows "\<exists>s'. update_events tid a f s = Inr s' \<and> loop_ok tid s' \<and> registered a s' \<and>
    interest a s' = f (interest a s) \<and> loop_rest s' = loop_rest s \<and> chan_base a s' = chan_base a s \<and>
    (\<forall>b. b \<noteq> a \<longrightarrow> chan_view b s' = chan_view b s) \<and>
    silenced a s' = (silenced a s \<or> registered a s \<and> f (interest a s) = 0)"
proof -
  have pok: "poller_ok s" using ok by (simp add: loop_ok_def)
  from may obtain c where c: "chans s a = Some c" by (auto simp: registered_def fresh_def)
  let ?e = "f (ch_events c)"
  let ?t = "with_events a c ?e s" and ?c = "c\<lparr>ch_events := ?e\<rparr>"
  note frame = with_events_frame [OF c, where e = ?e]
  have own: "ch_loop c = el_self s" and free: "registered a s \<or> channels s (ch_fd c) = None"
    using may ok c by (auto simp: fresh_def loop_ok_def)
  have upd: "updatable a ?t"
    using may c by (auto simp: updatable_def frame(1) fresh_def)
  obtain s' where s': "updateChannel True a ?t = Inr s'" "poller_ok s'" "registered a s'" "same_but a ?t s'"
    "forget_index (chans s' a) = forget_index (Some ?c)"
    "watch s' = (watch s)(ch_fd c \<mapsto> (ucast ?e, muted (ch_fd c) s \<or> (registered a s \<and> ?e = 0)))"
    using updateChannel_refines [OF poller_ok_events [OF pok c] upd]
    by (auto simp: frame isNoneEvent_def kNoneEvent_def)
  from s'(5) obtain d where d: "chans s' a = Some d" "ch_fd d = ch_fd c" "ch_events d = ?e" "ch_loop d = ch_loop c"
    by (rule forget_indexD) simp
  have "ch_events_update f c = ?c" by (cases c) simp
  with s'(1) have upd': "updateChannel True a (s\<lparr>chans := (chans s)(a \<mapsto> ch_events_update f c)\<rparr>) = Inr s'"
    by (simp only:)
  then have run: "update_events tid a f s = Inr s'"
    using ok c own by (simp add: update_events_def loop_updateChannel_def assertInLoopThread_def
        isInLoopThread_def loop_ok_def)
  have same: "same_but a s s'" by (rule same_but_trans [OF frame(4) s'(4)])
  then have more: "PollPoller.more s' = PollPoller.more s" by (simp add: same_but_def)
  note keep = loop_ok_same_but [OF ok s'(2) same, where g = "ch_fd c"]
  have "loop_ok tid s'" "\<And>b. b \<noteq> a \<Longrightarrow> chan_view b s' = chan_view b s"
    using s'(6) other_fd [OF pok c free] d own by (auto intro!: keep)
  moreover have "chan_base a s' = chan_base a s"
    using arg_cong [OF s'(5), of "map_option (ch_events_update (\<lambda>_. 0))"] c d(1)
    by (simp add: chan_base_def forget_events_def forget_index_def)
  moreover have "silenced a s' = (silenced a s \<or> registered a s \<and> ?e = 0)"
    using c d s'(3,6) free by (auto simp: silenced_def muted_def watch_def)
  ultimately show ?thesis
    using run s'(3) c d more by (simp add: interest_def loop_rest_eq)
qed

lemma channel_remove_law:
  assumes ok: "loop_ok tid s" and reg: "registered a s" and sil: "silenced a s"
    and none: "interest a s = 0" and may: "removable a (loop_rest s)"
  shows "\<exists>s'. channel_remove tid a s = Inr s' \<and> loop_ok tid s' \<and> \<not> registered a s' \<and>
    interest a s' = 0 \<and> loop_rest s' = loop_rest s \<and> chan_base a s' = chan_base a s \<and>
    (\<forall>b. b \<noteq> a \<longrightarrow> chan_view b s' = chan_view b s)"
proof -
  have pok: "poller_ok s" using ok by (simp add: loop_ok_def)
  from sil obtain c where c: "chans s a = Some c" "muted (ch_fd c) s" by (auto simp: silenced_def)
  from ok reg c(1) none have own: "ch_loop c = el_self s" "map_option fst (watch s (ch_fd c)) = Some (ucast (0 :: 32 word))"
    by (auto simp: loop_ok_def interest_def)
  have none': "isNoneEvent c" using none c(1) by (simp add: interest_def isNoneEvent_def kNoneEvent_def)
  have wat: "watch s (ch_fd c) = Some (0, True)"
    using own(2) c(2) by (auto simp: muted_def split: option.splits)
  from removeChannel_refines [OF pok reg c(1) none' wat] obtain s'
    where s': "removeChannel True a s = Inr s'" "poller_ok s'" "same_but a s s'"
      "forget_index (chans s' a) = forget_index (Some c)" "watch s' = (watch s)(ch_fd c := None)" by blast
  from s'(4) obtain d where d: "chans s' a = Some d" "ch_fd d = ch_fd c" "ch_events d = ch_events c"
    by (rule forget_indexD)
  have none_d: "interest a s' = 0" using none c(1) d by (simp add: interest_def)
  have gone: "\<not> registered a s'"
  proof
    assume r: "registered a s'"
    from registered_in_map [OF s'(2) r d(1)] s'(5) d show False
      by (simp add: watch_def fun_eq_iff Let_def split: option.splits)
        (metis d(1) option.distinct(1))
  qed
  have run: "channel_remove tid a s = Inr s'"
    using ok c(1) own(1) none' may s'(1) by (auto simp: channel_remove_def loop_removeChannel_def
        assertInLoopThread_def isInLoopThread_def loop_ok_def removable_def loop_rest_def)
  have more: "PollPoller.more s' = PollPoller.more s" using s'(3) by (simp add: same_but_def)
  have "loop_ok tid s'" "\<And>b. b \<noteq> a \<Longrightarrow> chan_view b s' = chan_view b s"
    using other_fd [OF pok c(1)] reg s'(5) gone
    by (auto intro!: loop_ok_same_but [OF ok s'(2,3), where g = "ch_fd c"])
  moreover have "chan_base a s' = chan_base a s"
    using arg_cong [OF s'(4), of "map_option (ch_events_update (\<lambda>_. 0))"] c(1) d(1)
    by (simp add: chan_base_def forget_events_def forget_index_def)
  ultimately show ?thesis using run gone more none_d by (simp add: loop_rest_eq)
qed

interpretation loop_reg: event_registry "loop_ok tid" registered fresh interest silenced
  "update_events tid" "channel_remove tid" loop_rest removable chan_view chan_base
  for tid :: int
  by unfold_locales (simp_all add: update_events_law channel_remove_law)

text \<open>
  C17. The life of a channel: after any changes of interest on a channel that is registered, or new
  and first given an interest, \<open>disableAll\<close> followed by \<open>remove\<close> succeeds unless the loop is about to
  dispatch that channel; the poller forgets it, no other channel changes, and neither do the loop's
  own members.
\<close>

theorem channel_lifecycle:
  assumes "loop_ok tid s" and "registered a s \<or> fresh a s \<and> fs \<noteq> []" and "removable a s"
  shows "\<exists>s'. rbind (rfold (update_events tid a) fs s)
      (\<lambda>s. rbind (disableAll tid a s) (channel_remove tid a)) = Inr s' \<and> loop_ok tid s' \<and>
    \<not> registered a s' \<and> loop_rest s' = loop_rest s \<and>
    (\<forall>b. b \<noteq> a \<longrightarrow> chan_view b s' = chan_view b s)"
proof -
  from loop_reg.updates [OF assms(1,2)] obtain t where t: "rfold (update_events tid a) fs s = Inr t"
    "loop_ok tid t" "registered a t" "loop_rest t = loop_rest s"
    "\<forall>b. b \<noteq> a \<longrightarrow> chan_view b t = chan_view b s" by blast
  moreover have "removable a (loop_rest t)" using assms(3) t(4) by simp
  ultimately show ?thesis
    using loop_reg.retireE [OF t(2,3)] by (simp add: disableAll_def kNoneEvent_def) metis
qed

definition example_loop :: "nat EventLoop" where
  "example_loop = \<lparr>chans = [20 \<mapsto> new_channel 1 9], pollfds = [], channels = (\<lambda>_. None), el_self = 1,
     el_looping = False, el_quit = False, el_eventHandling = False, el_callingPendingFunctors = False,
     el_threadId = 77, el_pollReturnTime = 0, el_activeChannels = [], el_currentActiveChannel = None,
     el_pendingFunctors = [], el_wakeups = 0\<rparr>"

text \<open>A loop with no channel yet, and the creation of a channel.\<close>

lemma loop_ok_empty: "channels s = (\<lambda>_. None) \<Longrightarrow> pollfds s = [] \<Longrightarrow> loop_ok (el_threadId s) s"
  by (simp add: loop_ok_def poller_ok_def registered_def)

theorem channel_lifecycle_witness:
  "\<exists>s'. rbind (enableReading 77 20 example_loop)
     (\<lambda>s. rbind (disableAll 77 20 s) (channel_remove 77 20)) = Inr s' \<and> \<not> registered 20 s'"
proof -
  have "loop_ok 77 example_loop" "fresh 20 example_loop" "removable 20 example_loop"
    using loop_ok_empty [of example_loop] by (simp_all add: example_loop_def fresh_def new_channel_def removable_def)
  moreover have "rfold (update_events 77 20) [] = (Inr :: nat EventLoop \<Rightarrow> _)" by (rule ext) simp
  ultimately show ?thesis
    using channel_lifecycle [of 77 example_loop 20 "[\<lambda>e. e OR kReadEvent]"]
    by (auto simp: enableReading_def)
qed

lemma loop_ok_set_channel:
  assumes ok: "loop_ok tid s" and no_a: "\<And>f. channels s f \<noteq> Some a"
  shows "loop_ok tid (s\<lparr>chans := (chans s)(a := x)\<rparr>)"
    and "registered b (s\<lparr>chans := (chans s)(a := x)\<rparr>) \<longleftrightarrow> b \<noteq> a \<and> registered b s"
proof -
  let ?s = "s\<lparr>chans := (chans s)(a := x)\<rparr>"
  have pok: "poller_ok s" using ok by (simp add: loop_ok_def)
  have ne: "channels s f = Some b \<Longrightarrow> b \<noteq> a" for f b using no_a by auto
  have "entry_ok ?s f b" if "channels s f = Some b" for f b
    using channels_entry [OF pok that] ne [OF that] by (simp add: entry_ok_def)
  moreover have "\<exists>b d. channels ?s (owner (pollfds s ! i)) = Some b \<and> chans ?s b = Some d \<and> ch_index d = int i"
    if "i < length (pollfds s)" for i
    using entry_channel [OF pok that] ne by fastforce
  ultimately have pok': "poller_ok ?s" by (simp add: poller_ok_def)
  have reg: "registered b ?s \<longleftrightarrow> b \<noteq> a \<and> registered b s" for b
    using ne by (auto simp: registered_def)
  have "watch ?s = watch s"
    using ne by (auto simp: watch_def fun_eq_iff split: option.split)
  with ok pok' reg show "loop_ok tid ?s" by (auto simp: loop_ok_def)
  show "registered b ?s \<longleftrightarrow> b \<noteq> a \<and> registered b s" by (rule reg)
qed

lemma no_entry: "loop_ok tid s \<Longrightarrow> \<not> registered a s \<Longrightarrow> channels s f \<noteq> Some a"
  unfolding loop_ok_def using channels_entry by (fastforce simp: entry_ok_def registered_def)

lemma loop_ok_new_channel:
  assumes ok: "loop_ok tid s" and "chans s a = None"
  shows "loop_ok tid (s\<lparr>chans := (chans s)(a \<mapsto> c)\<rparr>)"
    and "registered b (s\<lparr>chans := (chans s)(a \<mapsto> c)\<rparr>) \<longleftrightarrow> b \<noteq> a \<and> registered b s"
proof -
  have "\<not> registered a s" using assms(2) by (simp add: registered_def)
  note free = no_entry [OF ok this]
  show "loop_ok tid (s\<lparr>chans := (chans s)(a \<mapsto> c)\<rparr>)"
    and "registered b (s\<lparr>chans := (chans s)(a \<mapsto> c)\<rparr>) \<longleftrightarrow> b \<noteq> a \<and> registered b s"
    using loop_ok_set_channel [OF ok free] by blast+
qed

lemma queueInLoop_eq:
  "\<exists>n. queueInLoop tid f s = s\<lparr>el_pendingFunctors := el_pendingFunctors s @ [f], el_wakeups := n\<rparr>"
proof (cases "needs_wakeup tid (push_functor f s)")
  case True
  then show ?thesis
    by (intro exI [of _ "el_wakeups s + 1"]) (simp add: queueInLoop_def push_functor_def wakeup_def Let_def)
next
  case False
  then show ?thesis
    by (intro exI [of _ "el_wakeups s"]) (simp add: queueInLoop_def push_functor_def Let_def)
qed

text \<open>An operation of the registry changes the channels and the poller only.\<close>

lemma loop_rest_update:
  assumes "loop_rest s' = loop_rest s"
  shows "\<exists>x y z. s' = s\<lparr>chans := x, pollfds := y, channels := z\<rparr>"
proof -
  have "s' = s\<lparr>chans := chans s', pollfds := pollfds s', channels := channels s'\<rparr>"
    using assms by (cases s, cases s') (simp add: loop_rest_eq)
  then show ?thesis by blast
qed

text \<open>
  The constructor leaves a working loop: with two distinct descriptors, in a thread that has no
  loop yet, it succeeds, the invariant of the loop holds, and the timer's and the wake-up channel
  are registered with the poller for reading; an existing loop of the thread aborts it.
\<close>

theorem new_EventLoop_correct:
  assumes "a \<noteq> b" and "tfd \<noteq> wfd" and "0 \<le> tfd" and "0 \<le> wfd"
  shows "(\<exists>s. new_EventLoop garbage self tid None (a, tfd) (b, wfd) = Inr s \<and> loop_ok tid s \<and>
      registered a s \<and> registered b s \<and> interest a s = kReadEvent \<and> interest b s = kReadEvent \<and>
      \<not> el_looping s \<and> \<not> el_quit s \<and> el_pendingFunctors s = []) \<and>
    new_EventLoop garbage self tid (Some l) (a, tfd) (b, wfd) =
      Inl (Fatal ''Another EventLoop exists in this thread'')"
proof -
  let ?c = "\<lambda>fd i. (new_channel self fd)\<lparr>ch_events := kReadEvent, ch_index := i\<rparr>"
  let ?s = "\<lparr>chans = [a \<mapsto> ?c tfd 0, b \<mapsto> ?c wfd 1],
      pollfds = [\<lparr>pfd_fd = tfd, pfd_events = 3, pfd_revents = 0\<rparr>, \<lparr>pfd_fd = wfd, pfd_events = 3, pfd_revents = 0\<rparr>],
      channels = [tfd \<mapsto> a, wfd \<mapsto> b], el_self = self,
      el_looping = False, el_quit = False, el_eventHandling = False,
      el_callingPendingFunctors = garbage, el_threadId = tid, el_pollReturnTime = 0,
      el_activeChannels = [], el_currentActiveChannel = None, el_pendingFunctors = [],
      el_wakeups = 0\<rparr>"
  note defs = new_EventLoop_def enableReading_def update_events_def loop_updateChannel_def
    updateChannel_def assertInLoopThread_def isInLoopThread_def set_index_def new_channel_def Let_def
  have ev: "ucast kReadEvent = (3 :: 16 word)" "0 OR kReadEvent = kReadEvent"
    by (simp_all add: kReadEvent_def poll_consts)
  have run: "new_EventLoop garbage self tid None (a, tfd) (b, wfd) = Inr ?s"
    using assms by (simp add: defs ev)
  have "poller_ok ?s"
    using assms by (auto simp: poller_defs owner_def new_channel_def less_Suc_eq)
  then have ok: "loop_ok tid ?s"
    using assms by (auto simp: loop_ok_def registered_def watch_def new_channel_def ev Let_def)
  have reg: "registered a ?s" "registered b ?s" "interest a ?s = kReadEvent" "interest b ?s = kReadEvent"
    using assms by (auto simp: registered_def new_channel_def interest_def)
  have "new_EventLoop garbage self tid (Some l) (a, tfd) (b, wfd) =
      Inl (Fatal ''Another EventLoop exists in this thread'')"
    using assms by (simp add: defs ev)
  then show ?thesis by (intro conjI exI [of _ ?s] run ok reg) simp_all
qed

theorem new_EventLoop_correct_witness:
  "\<exists>s. new_EventLoop True 1 77 None (10, 3) (11, 4) = Inr s \<and> registered 11 s"
  using new_EventLoop_correct [of 10 11 3 4 True 1 77] by auto


section \<open>Other threads: no wake-up is lost\<close>

text \<open>
  The loop thread \<open>tid\<close> goes through the phases of \<open>loop\<close>: about to test \<open>quit_\<close> for the first time,
  blocked in \<open>poll\<close>, handling events, running a batch of functors. Other threads queue functors and ask the loop to quit at any
  moment; their wake-up comes in a later step, \<open>rs_waking\<close> counting those still to come. \<open>spawn f\<close>
  is what functor \<open>f\<close> queues when it runs. \<open>rs_posted\<close> and \<open>rs_executed\<close> record history.
\<close>

datatype 'f phase = Starting | Polling | Handling | Running "'f list" | Stopped

record 'f run_state =
  rs_loop :: "'f EventLoop"
  rs_phase :: "'f phase"
  rs_waking :: nat
  rs_posted :: "'f list"
  rs_executed :: "'f list"

inductive loop_step :: "int \<Rightarrow> ('f \<Rightarrow> 'f list) \<Rightarrow> 'f run_state \<Rightarrow> 'f run_state \<Rightarrow> bool"
  for tid :: int and spawn :: "'f \<Rightarrow> 'f list" where
  other_post: "t \<noteq> tid \<Longrightarrow> l = push_functor f (rs_loop s) \<Longrightarrow>
    loop_step tid spawn s (s\<lparr>rs_loop := l, rs_posted := rs_posted s @ [f],
      rs_waking := rs_waking s + (if needs_wakeup t l then 1 else 0)\<rparr>)"
| other_quit: "t \<noteq> tid \<Longrightarrow> l = (rs_loop s)\<lparr>el_quit := True\<rparr> \<Longrightarrow>
    loop_step tid spawn s (s\<lparr>rs_loop := l,
      rs_waking := rs_waking s + (if \<not> isInLoopThread t l then 1 else 0)\<rparr>)"
| other_wakeup: "rs_waking s = Suc n \<Longrightarrow>
    loop_step tid spawn s (s\<lparr>rs_loop := wakeup (rs_loop s), rs_waking := n\<rparr>)"
| enter: "rs_phase s = Starting \<Longrightarrow>
    loop_step tid spawn s (s\<lparr>rs_phase := if el_quit (rs_loop s) then Stopped else Polling\<rparr>)"
| poll_returns: "rs_phase s = Polling \<Longrightarrow> loop_step tid spawn s (s\<lparr>rs_phase := Handling\<rparr>)"
| read_wakeup: "rs_phase s = Handling \<Longrightarrow>
    loop_step tid spawn s (s\<lparr>rs_loop := handleRead (rs_loop s)\<rparr>)"
| own_post: "rs_phase s = Handling \<Longrightarrow>
    loop_step tid spawn s (s\<lparr>rs_loop := queueInLoop tid f (rs_loop s), rs_posted := rs_posted s @ [f]\<rparr>)"
| own_quit: "rs_phase s = Handling \<or> rs_phase s = Running fs \<Longrightarrow>
    loop_step tid spawn s (s\<lparr>rs_loop := quit tid (rs_loop s)\<rparr>)"
| start_functors: "rs_phase s = Handling \<Longrightarrow> swap_functors (rs_loop s) = (fs, l) \<Longrightarrow>
    loop_step tid spawn s (s\<lparr>rs_loop := l, rs_phase := Running fs\<rparr>)"
| run_functor: "rs_phase s = Running (f # fs) \<Longrightarrow>
    loop_step tid spawn s (s\<lparr>rs_loop := fold (queueInLoop tid) (spawn f) (rs_loop s),
      rs_phase := Running fs, rs_posted := rs_posted s @ spawn f, rs_executed := rs_executed s @ [f]\<rparr>)"
| end_functors: "rs_phase s = Running [] \<Longrightarrow> l = (rs_loop s)\<lparr>el_callingPendingFunctors := False\<rparr> \<Longrightarrow>
    loop_step tid spawn s (s\<lparr>rs_loop := l, rs_phase := if el_quit l then Stopped else Polling\<rparr>)"

definition run_start :: "int \<Rightarrow> 'f run_state \<Rightarrow> bool" where
  "run_start tid s \<longleftrightarrow> el_threadId (rs_loop s) = tid \<and> el_pendingFunctors (rs_loop s) = [] \<and>
     \<not> el_quit (rs_loop s) \<and> rs_phase s = Starting \<and> rs_posted s = [] \<and> rs_executed s = []"

definition batch :: "'f run_state \<Rightarrow> 'f list" where
  "batch s = (case rs_phase s of Running fs \<Rightarrow> fs | _ \<Rightarrow> [])"

abbreviation wake_due :: "'f run_state \<Rightarrow> bool" where
  "wake_due s \<equiv> 0 < el_wakeups (rs_loop s) \<or> 0 < rs_waking s"

definition run_inv :: "int \<Rightarrow> 'f run_state \<Rightarrow> bool" where
  "run_inv tid s \<longleftrightarrow> el_threadId (rs_loop s) = tid \<and>
     rs_executed s @ batch s @ el_pendingFunctors (rs_loop s) = rs_posted s \<and>
     (rs_phase s = Starting \<or> rs_phase s = Polling \<longrightarrow>
       el_pendingFunctors (rs_loop s) \<noteq> [] \<or> el_quit (rs_loop s) \<longrightarrow> wake_due s) \<and>
     (\<forall>fs. rs_phase s = Running fs \<longrightarrow> el_callingPendingFunctors (rs_loop s) \<and>
       (el_pendingFunctors (rs_loop s) \<noteq> [] \<longrightarrow> wake_due s))"

inductive_cases loop_stepE: "loop_step tid spawn s s'"

text \<open>What queueing from the loop's own thread does.\<close>

lemma queueInLoop_own:
  fixes tid :: int
  assumes "el_threadId l = tid"
  shows "el_threadId (fold (queueInLoop tid) fs l) = tid"
    and "el_pendingFunctors (fold (queueInLoop tid) fs l) = el_pendingFunctors l @ fs"
    and "el_callingPendingFunctors (fold (queueInLoop tid) fs l) = el_callingPendingFunctors l"
    and "el_wakeups (fold (queueInLoop tid) fs l) =
      el_wakeups l + (if el_callingPendingFunctors l then length fs else 0)"
proof -
  have "el_threadId (fold (queueInLoop tid) fs l) = tid \<and>
    el_pendingFunctors (fold (queueInLoop tid) fs l) = el_pendingFunctors l @ fs \<and>
    el_callingPendingFunctors (fold (queueInLoop tid) fs l) = el_callingPendingFunctors l \<and>
    el_wakeups (fold (queueInLoop tid) fs l) =
      el_wakeups l + (if el_callingPendingFunctors l then length fs else 0)"
    using assms
    by (induction fs arbitrary: l) (simp_all add: queueInLoop_def push_functor_def needs_wakeup_def
        isInLoopThread_def wakeup_def Let_def)
  then show "el_threadId (fold (queueInLoop tid) fs l) = tid"
    "el_pendingFunctors (fold (queueInLoop tid) fs l) = el_pendingFunctors l @ fs"
    "el_callingPendingFunctors (fold (queueInLoop tid) fs l) = el_callingPendingFunctors l"
    "el_wakeups (fold (queueInLoop tid) fs l) =
      el_wakeups l + (if el_callingPendingFunctors l then length fs else 0)" by blast+
qed

lemmas queueInLoop_own1 = queueInLoop_own [where fs = "[f]" for f, simplified]

lemma run_inv_step:
  assumes "loop_step tid spawn s s'" and "run_inv tid s"
  shows "run_inv tid s'"
  using assms
proof (cases rule: loop_step.cases)
  case (run_functor f fs)
  define l where "l = fold (queueInLoop tid) (spawn f) (rs_loop s)"
  have "el_threadId (rs_loop s) = tid" using assms(2) by (simp add: run_inv_def)
  note queueInLoop_own [OF this, of "spawn f", folded l_def]
  with run_functor [folded l_def] assms(2) show ?thesis
    by (auto simp: run_inv_def batch_def)
qed (auto simp: run_inv_def batch_def push_functor_def needs_wakeup_def isInLoopThread_def wakeup_def
    handleRead_def quit_def swap_functors_def queueInLoop_own1 split: phase.splits)

lemma run_inv_reachable:
  assumes "(loop_step tid spawn)\<^sup>*\<^sup>* s s'" and "run_start tid s"
  shows "run_inv tid s'"
  using assms
proof (induction rule: rtranclp_induct)
  case base
  then show ?case by (simp add: run_start_def run_inv_def batch_def)
next
  case (step t u)
  then show ?case by (blast intro: run_inv_step)
qed

text \<open>A run of the loop and the other threads in which \<open>poll\<close> returns \<open>k\<close> times.\<close>

inductive polls_run :: "int \<Rightarrow> ('f \<Rightarrow> 'f list) \<Rightarrow> nat \<Rightarrow> 'f run_state \<Rightarrow> 'f run_state \<Rightarrow> bool"
  for tid :: int and spawn :: "'f \<Rightarrow> 'f list" where
  stay: "polls_run tid spawn 0 s s"
| move: "polls_run tid spawn k s t \<Longrightarrow> loop_step tid spawn t u \<Longrightarrow>
    polls_run tid spawn (if rs_phase t = Polling \<and> rs_phase u = Handling then k + 1 else k) s u"

text \<open>How often \<open>poll\<close> can still return once \<open>quit_\<close> is set.\<close>

definition polls_left :: "'f run_state \<Rightarrow> nat" where
  "polls_left s = (if rs_phase s = Polling then 1 else 0)"

lemma quit_step:
  assumes "loop_step tid spawn s s'" "el_quit (rs_loop s)"
  shows "el_quit (rs_loop s') \<and>
    polls_left s' + (if rs_phase s = Polling \<and> rs_phase s' = Handling then 1 else 0) = polls_left s"
proof -
  have keep: "el_quit (fold (queueInLoop tid) fs l) = el_quit l" for fs and l :: "'a EventLoop"
    by (induction fs arbitrary: l) (simp_all add: queueInLoop_def push_functor_def wakeup_def Let_def)
  from assms(1) show ?thesis
    by cases (use assms(2) keep [of "[f]" for f, simplified] in \<open>auto simp: polls_left_def push_functor_def wakeup_def
        handleRead_def quit_def swap_functors_def keep Let_def\<close>)
qed

lemma quit_run:
  assumes "polls_run tid spawn k s s'" "el_quit (rs_loop s)"
  shows "el_quit (rs_loop s') \<and> polls_left s' + k = polls_left s"
  using assms
proof (induction rule: polls_run.induct)
  case (move k s t u)
  with quit_step [OF move(2)] show ?case by (auto split: if_splits)
qed simp

lemma polls_run_reaches: "polls_run tid spawn k s s' \<Longrightarrow> (loop_step tid spawn)\<^sup>*\<^sup>* s s'"
  by (induction rule: polls_run.induct) (auto elim: rtranclp.rtrancl_into_rtrancl)

text \<open>A loop that is to quit can finish by itself.\<close>

lemma batch_finishes:
  assumes "rs_phase s = Running fs" "el_quit (rs_loop s)"
  shows "\<exists>s'. (loop_step tid spawn)\<^sup>*\<^sup>* s s' \<and> rs_phase s' = Stopped"
  using assms
proof (induction fs arbitrary: s)
  case Nil
  from end_functors [OF Nil(1) refl, of tid spawn] Nil(2) show ?case
    by (intro exI conjI) (erule r_into_rtranclp, simp)
next
  case (Cons f fs)
  note one = run_functor [OF Cons.prems(1), of tid spawn]
  from Cons.IH [OF _ quit_step [OF one Cons.prems(2), THEN conjunct1]] one show ?case
    by simp (blast intro: converse_rtranclp_into_rtranclp)
qed

lemma loop_finishes:
  assumes "el_quit (rs_loop s)"
  shows "\<exists>s'. (loop_step tid spawn)\<^sup>*\<^sup>* s s' \<and> rs_phase s' = Stopped"
proof -
  have handling: "\<exists>s'. (loop_step tid spawn)\<^sup>*\<^sup>* s s' \<and> rs_phase s' = Stopped"
    if "rs_phase s = Handling" "el_quit (rs_loop s)" for s
  proof -
    obtain fs l where fl: "swap_functors (rs_loop s) = (fs, l)" by fastforce
    note one = start_functors [OF that(1) fl, of tid spawn]
    from batch_finishes [OF _ quit_step [OF one that(2), THEN conjunct1]] one show ?thesis
      by simp (blast intro: converse_rtranclp_into_rtranclp)
  qed
  show ?thesis
  proof (cases "rs_phase s")
    case Starting
    from enter [OF this, of tid spawn] assms show ?thesis
      by (intro exI conjI) (erule r_into_rtranclp, simp)
  next
    case Polling
    note one = poll_returns [OF this, of tid spawn]
    from handling [OF _ quit_step [OF one assms, THEN conjunct1]] one show ?thesis
      by simp (blast intro: converse_rtranclp_into_rtranclp)
  qed (use assms handling batch_finishes in blast)+
qed



text \<open>
  C16. \<open>quit\<close> ends the loop. From a reachable state in which it was asked for, by any thread and at any moment, and
  whatever the loop and the other threads do next: the request stays, \<open>poll\<close> returns at most once more, and
  not at all if the loop was not blocked in it; if the loop is blocked, a wake-up is due; and the loop can
  always run to its end.
\<close>

theorem loop_quits:
  assumes "run_start tid s0" "(loop_step tid spawn)\<^sup>*\<^sup>* s0 s" "el_quit (rs_loop s)" "polls_run tid spawn k s s'"
  shows "el_quit (rs_loop s') \<and> k \<le> 1 \<and> (rs_phase s \<noteq> Polling \<longrightarrow> k = 0 \<and> rs_phase s' \<noteq> Polling) \<and>
    (rs_phase s' = Polling \<longrightarrow> 0 < el_wakeups (rs_loop s') \<or> 0 < rs_waking s') \<and>
    (\<exists>s''. (loop_step tid spawn)\<^sup>*\<^sup>* s' s'' \<and> rs_phase s'' = Stopped)"
proof -
  have "(loop_step tid spawn)\<^sup>*\<^sup>* s0 s'" using assms(2) polls_run_reaches [OF assms(4)] by (rule rtranclp_trans)
  from run_inv_reachable [OF this assms(1)] have inv: "run_inv tid s'" .
  from quit_run [OF assms(4,3)] have q: "el_quit (rs_loop s')" "polls_left s' + k = polls_left s" by simp_all
  from q(2) have "k \<le> 1" "rs_phase s \<noteq> Polling \<longrightarrow> k = 0 \<and> rs_phase s' \<noteq> Polling"
    by (auto simp: polls_left_def split: if_splits)
  moreover have "rs_phase s' = Polling \<longrightarrow> wake_due s'" using inv q(1) by (simp add: run_inv_def)
  ultimately show ?thesis using q(1) loop_finishes [OF q(1)] by blast
qed

theorem loop_quits_witness:
  "\<exists>s s' :: nat run_state. rs_phase s = Polling \<and> polls_run 77 (\<lambda>f. []) 1 s s' \<and> rs_phase s' = Handling \<and>
     el_quit (rs_loop s') \<and> (\<exists>s''. (loop_step 77 (\<lambda>f. []))\<^sup>*\<^sup>* s' s'' \<and> rs_phase s'' = Stopped)"
proof -
  let ?r = "\<lparr>rs_loop = example_loop, rs_phase = Starting, rs_waking = 0, rs_posted = [], rs_executed = []\<rparr>"
  let ?p = "?r\<lparr>rs_phase := Polling\<rparr>"
  let ?s = "?p\<lparr>rs_loop := example_loop\<lparr>el_quit := True\<rparr>, rs_waking := 1\<rparr>"
  let ?t = "?s\<lparr>rs_phase := Handling\<rparr>"
  have "loop_step 77 (\<lambda>f. []) ?r ?p"
    using loop_step.enter [of ?r 77 "\<lambda>f. []"] by (simp add: example_loop_def)
  moreover have "loop_step 77 (\<lambda>f. []) ?p ?s"
    using loop_step.other_quit [of 78 77 "example_loop\<lparr>el_quit := True\<rparr>" ?p "\<lambda>f. []"]
    by (simp add: isInLoopThread_def example_loop_def)
  ultimately have reach: "(loop_step 77 (\<lambda>f. []))\<^sup>*\<^sup>* ?r ?s"
    by (meson converse_rtranclp_into_rtranclp rtranclp.rtrancl_refl)
  have "loop_step 77 (\<lambda>f. []) ?s ?t" using loop_step.poll_returns [of ?s 77 "\<lambda>f. []"] by simp
  from move [OF stay this] have run: "polls_run 77 (\<lambda>f. []) 1 ?s ?t" by simp
  from loop_quits [OF _ reach _ run] have "\<exists>s''. (loop_step 77 (\<lambda>f. []))\<^sup>*\<^sup>* ?t s'' \<and> rs_phase s'' = Stopped"
    by (simp add: run_start_def example_loop_def)
  with run show ?thesis by (intro exI [of _ ?s] exI [of _ ?t]) simp
qed

end
