(* ===== verification/TcpConnection.thy ===== *)
theory TcpConnection
  imports Buffer EventLoop
begin

text \<open>
  \<open>muduo/net/TcpConnection.h\<close> and \<open>TcpConnection.cc\<close>: one connection on its event loop. The state extends
  that of the loop with the connection's members (prefix \<open>tc\<close>) and with the socket as the code sees
  it: \<open>tc_kernel\<close> answers the \<open>n\<close>-th \<open>write\<close>, given whether the write side has been shut down and how
  many bytes are offered; \<open>tc_out\<close> are the bytes it has taken, \<open>tc_fin\<close> whether \<open>shutdownWrite\<close> was
  called. Two histories are kept: \<open>tc_sent\<close>, the messages handed to \<open>sendInLoop\<close> and whether they were
  accepted, and \<open>tc_ups\<close>, what \<open>connected()\<close> said at each call of the connection callback.

  User callbacks may send and shut down; the message callback first retrieves some bytes of the
  input. They are the record \<open>tcp_app\<close>, an argument of the operations. \<open>closeCallback_\<close> is what
  \<open>TcpServer\<close> and \<open>TcpClient\<close> install: it queues \<open>connectDestroyed\<close>.
\<close>

datatype stateE = kDisconnected | kConnecting | kConnected | kDisconnecting

datatype tcp_functor =
  SendInLoop string | ShutdownInLoop | WriteComplete | HighWaterMark nat | ConnectDestroyed

datatype write_result = Wrote nat | WriteErr nat

record TcpConnection = "tcp_functor EventLoop" +
  tc_name :: string
  tc_state :: stateE
  tc_channel :: nat
  tc_highWaterMark :: nat
  tc_inputBuffer :: Buffer
  tc_outputBuffer :: Buffer
  tc_kernel :: "nat \<Rightarrow> bool \<Rightarrow> nat \<Rightarrow> write_result"
  tc_writes :: nat
  tc_out :: string
  tc_fin :: bool
  tc_sent :: "(string \<times> bool) list"
  tc_ups :: "bool list"

datatype tcp_command = Send string | Shutdown

record tcp_app =
  app_connection :: "TcpConnection \<Rightarrow> tcp_command list"
  app_message :: "TcpConnection \<Rightarrow> nat \<times> tcp_command list"
  app_writeComplete :: "(TcpConnection \<Rightarrow> tcp_command list) option"
  app_highWaterMark :: "(nat \<Rightarrow> TcpConnection \<Rightarrow> tcp_command list) option"

definition EWOULDBLOCK :: nat where "EWOULDBLOCK = 11"

definition EPIPE :: nat where "EPIPE = 32"

definition connected :: "TcpConnection \<Rightarrow> bool" where
  "connected s \<longleftrightarrow> tc_state s = kConnected"

section \<open>Sending\<close>

definition sys_write :: "string \<Rightarrow> TcpConnection \<Rightarrow> write_result \<times> TcpConnection" where
  "sys_write data s =
     (let r = tc_kernel s (tc_writes s) (tc_fin s) (length data)
      in (r, s\<lparr>tc_writes := tc_writes s + 1,
               tc_out := tc_out s @ (case r of Wrote n \<Rightarrow> take n data | WriteErr e \<Rightarrow> [])\<rparr>))"

text \<open>The direct write of \<open>sendInLoop\<close>: bytes written, bytes remaining, \<open>error\<close>.\<close>

definition direct_write ::
  "int \<Rightarrow> tcp_app \<Rightarrow> string \<Rightarrow> TcpConnection \<Rightarrow> (nat \<times> nat \<times> bool) \<times> TcpConnection" where
  "direct_write tid app data s =
     (case sys_write data s of
        (Wrote nwrote, s) \<Rightarrow>
          (let remaining = length data - nwrote
           in ((nwrote, remaining, False),
               if remaining = 0 \<and> app_writeComplete app \<noteq> None then queueInLoop tid WriteComplete s else s))
      | (WriteErr errno, s) \<Rightarrow> ((0, length data, errno \<noteq> EWOULDBLOCK \<and> errno = EPIPE), s))"

definition note_sent :: "string \<Rightarrow> bool \<Rightarrow> TcpConnection \<Rightarrow> TcpConnection" where
  "note_sent data accepted s = s\<lparr>tc_sent := tc_sent s @ [(data, accepted)]\<rparr>"

text \<open>The high-water mark; buffering what is left and asking for \<open>POLLOUT\<close>.\<close>

definition check_highWaterMark :: "int \<Rightarrow> tcp_app \<Rightarrow> nat \<Rightarrow> TcpConnection \<Rightarrow> TcpConnection" where
  "check_highWaterMark tid app remaining s =
     (let oldLen = readableBytes (tc_outputBuffer s)
      in if oldLen + remaining \<ge> tc_highWaterMark s \<and> oldLen < tc_highWaterMark s \<and>
            app_highWaterMark app \<noteq> None
         then queueInLoop tid (HighWaterMark (oldLen + remaining)) s else s)"

definition buffer_rest :: "int \<Rightarrow> tcp_app \<Rightarrow> nat \<Rightarrow> string \<Rightarrow> TcpConnection \<Rightarrow> TcpConnection result" where
  "buffer_rest tid app nwrote data s =
     (let s = check_highWaterMark tid app (length data - nwrote) s
      in rbind (append_buf (drop nwrote data) (tc_outputBuffer s)) (\<lambda>b.
         let s = note_sent data True (s\<lparr>tc_outputBuffer := b\<rparr>) in
         rbind (deref (tc_channel s) s) (\<lambda>c.
         if \<not> isWriting c then enableWriting tid (tc_channel s) s else Inr s)))"

definition sendInLoop :: "int \<Rightarrow> tcp_app \<Rightarrow> string \<Rightarrow> TcpConnection \<Rightarrow> TcpConnection result" where
  "sendInLoop tid app data s =
     rbind (assertInLoopThread tid s) (\<lambda>_.
     if tc_state s = kDisconnected then Inr (note_sent data False s) else
     rbind (deref (tc_channel s) s) (\<lambda>c.
     case (if \<not> isWriting c \<and> readableBytes (tc_outputBuffer s) = 0
           then direct_write tid app data s else ((0, length data, False), s)) of
       ((nwrote, remaining, error), s) \<Rightarrow>
     rbind (guard (nwrote \<le> length data) ''remaining <= len'') (\<lambda>_.
     if \<not> error \<and> remaining > 0 then buffer_rest tid app nwrote data s
     else Inr (note_sent data (\<not> error) s))))"

definition send :: "int \<Rightarrow> tcp_app \<Rightarrow> string \<Rightarrow> TcpConnection \<Rightarrow> TcpConnection result" where
  "send tid app data s =
     (if tc_state s = kConnected then
        if isInLoopThread tid s then sendInLoop tid app data s
        else runInLoop (\<lambda>_. sendInLoop tid app data) tid (SendInLoop data) s
      else Inr s)"

definition send_buffer ::
  "int \<Rightarrow> tcp_app \<Rightarrow> Buffer \<Rightarrow> TcpConnection \<Rightarrow> (Buffer \<times> TcpConnection) result" where
  "send_buffer tid app buf s =
     (if tc_state s = kConnected then
        if isInLoopThread tid s then
          rbind (sendInLoop tid app (contents buf) s) (\<lambda>s. Inr (retrieveAll buf, s))
        else
          rbind (retrieveAllAsString buf) (\<lambda>(message, buf).
          rbind (runInLoop (\<lambda>_. sendInLoop tid app message) tid (SendInLoop message) s) (\<lambda>s.
          Inr (buf, s)))
      else Inr (buf, s))"

definition shutdownInLoop :: "int \<Rightarrow> TcpConnection \<Rightarrow> TcpConnection result" where
  "shutdownInLoop tid s =
     rbind (assertInLoopThread tid s) (\<lambda>_.
     rbind (deref (tc_channel s) s) (\<lambda>c.
     Inr (if \<not> isWriting c then s\<lparr>tc_fin := True\<rparr> else s)))"

definition shutdown :: "int \<Rightarrow> TcpConnection \<Rightarrow> TcpConnection result" where
  "shutdown tid s =
     (if tc_state s = kConnected
      then runInLoop (\<lambda>_. shutdownInLoop tid) tid ShutdownInLoop (s\<lparr>tc_state := kDisconnecting\<rparr>)
      else Inr s)"

definition run_tcp_command :: "int \<Rightarrow> tcp_app \<Rightarrow> tcp_command \<Rightarrow> TcpConnection \<Rightarrow> TcpConnection result" where
  "run_tcp_command tid app c = (case c of Send data \<Rightarrow> send tid app data | Shutdown \<Rightarrow> shutdown tid)"

abbreviation run_tcp_commands where "run_tcp_commands tid app \<equiv> rfold (run_tcp_command tid app)"

section \<open>The connection's life\<close>

definition connectionCallback :: "int \<Rightarrow> tcp_app \<Rightarrow> TcpConnection \<Rightarrow> TcpConnection result" where
  "connectionCallback tid app s =
     (let s = s\<lparr>tc_ups := tc_ups s @ [connected s]\<rparr>
      in run_tcp_commands tid app (app_connection app s) s)"

definition closeCallback :: "int \<Rightarrow> TcpConnection \<Rightarrow> TcpConnection result" where
  "closeCallback tid s = Inr (queueInLoop tid ConnectDestroyed s)"

definition connectEstablished :: "int \<Rightarrow> tcp_app \<Rightarrow> TcpConnection \<Rightarrow> TcpConnection result" where
  "connectEstablished tid app s =
     rbind (assertInLoopThread tid s) (\<lambda>_.
     rbind (guard (tc_state s = kConnecting) ''state_ == kConnecting'') (\<lambda>_.
     let s = s\<lparr>tc_state := kConnected\<rparr> in
     rbind (tie (tc_channel s) s) (\<lambda>s.
     rbind (enableReading tid (tc_channel s) s) (\<lambda>s.
     connectionCallback tid app s))))"

definition connectDestroyed :: "int \<Rightarrow> tcp_app \<Rightarrow> TcpConnection \<Rightarrow> TcpConnection result" where
  "connectDestroyed tid app s =
     rbind (assertInLoopThread tid s) (\<lambda>_.
     rbind (if tc_state s = kConnected then
              let s = s\<lparr>tc_state := kDisconnected\<rparr> in
              rbind (disableAll tid (tc_channel s) s) (\<lambda>s. connectionCallback tid app s)
            else Inr s) (\<lambda>s.
     channel_remove tid (tc_channel s) s))"

definition handleClose :: "int \<Rightarrow> tcp_app \<Rightarrow> TcpConnection \<Rightarrow> TcpConnection result" where
  "handleClose tid app s =
     rbind (assertInLoopThread tid s) (\<lambda>_.
     rbind (guard (tc_state s = kConnected \<or> tc_state s = kDisconnecting)
              ''state_ == kConnected || state_ == kDisconnecting'') (\<lambda>_.
     let s = s\<lparr>tc_state := kDisconnected\<rparr> in
     rbind (disableAll tid (tc_channel s) s) (\<lambda>s.
     rbind (connectionCallback tid app s) (\<lambda>s.
     closeCallback tid s))))"

definition handleError :: "TcpConnection \<Rightarrow> TcpConnection result" where
  "handleError s = Inr s"

definition messageCallback :: "int \<Rightarrow> tcp_app \<Rightarrow> TcpConnection \<Rightarrow> TcpConnection result" where
  "messageCallback tid app s =
     (case app_message app s of (n, cs) \<Rightarrow>
        rbind (retrieve n (tc_inputBuffer s)) (\<lambda>b.
        run_tcp_commands tid app cs (s\<lparr>tc_inputBuffer := b\<rparr>)))"

definition tcp_handleRead :: "int \<Rightarrow> tcp_app \<Rightarrow> io_read \<Rightarrow> TcpConnection \<Rightarrow> TcpConnection result" where
  "tcp_handleRead tid app io s =
     rbind (assertInLoopThread tid s) (\<lambda>_.
     rbind (readFd io (tc_inputBuffer s)) (\<lambda>(n, savedErrno, b).
     let s = s\<lparr>tc_inputBuffer := b\<rparr> in
     if n > 0 then messageCallback tid app s
     else if n = 0 then handleClose tid app s
     else handleError s))"

text \<open>When the output buffer has been emptied, and when \<open>n > 0\<close> bytes of it were written.\<close>

definition output_empty :: "int \<Rightarrow> tcp_app \<Rightarrow> TcpConnection \<Rightarrow> TcpConnection result" where
  "output_empty tid app s =
     rbind (disableWriting tid (tc_channel s) s) (\<lambda>s.
     let s = (if app_writeComplete app \<noteq> None then queueInLoop tid WriteComplete s else s) in
     if tc_state s = kDisconnecting then shutdownInLoop tid s else Inr s)"

definition output_written :: "int \<Rightarrow> tcp_app \<Rightarrow> nat \<Rightarrow> TcpConnection \<Rightarrow> TcpConnection result" where
  "output_written tid app n s =
     rbind (retrieve n (tc_outputBuffer s)) (\<lambda>b.
     let s = s\<lparr>tc_outputBuffer := b\<rparr> in
     if readableBytes b = 0 then output_empty tid app s else Inr s)"

definition tcp_handleWrite :: "int \<Rightarrow> tcp_app \<Rightarrow> TcpConnection \<Rightarrow> TcpConnection result" where
  "tcp_handleWrite tid app s =
     rbind (assertInLoopThread tid s) (\<lambda>_.
     rbind (deref (tc_channel s) s) (\<lambda>c.
     if isWriting c then
       case sys_write (contents (tc_outputBuffer s)) s of
         (WriteErr e, s) \<Rightarrow> Inr s
       | (Wrote n, s) \<Rightarrow> if n > 0 then output_written tid app n s else Inr s
     else Inr s))"

text \<open>The functors a connection queues, and the callbacks of its channel.\<close>

definition run_tcp :: "int \<Rightarrow> tcp_app \<Rightarrow> tcp_functor \<Rightarrow> TcpConnection \<Rightarrow> TcpConnection result" where
  "run_tcp tid app f s = (case f of
     SendInLoop message \<Rightarrow> sendInLoop tid app message s
   | ShutdownInLoop \<Rightarrow> shutdownInLoop tid s
   | WriteComplete \<Rightarrow> (case app_writeComplete app of None \<Rightarrow> Inr s
       | Some cb \<Rightarrow> run_tcp_commands tid app (cb s) s)
   | HighWaterMark n \<Rightarrow> (case app_highWaterMark app of None \<Rightarrow> Inr s
       | Some cb \<Rightarrow> run_tcp_commands tid app (cb n s) s)
   | ConnectDestroyed \<Rightarrow> connectDestroyed tid app s)"

definition conn_callback :: "int \<Rightarrow> tcp_app \<Rightarrow> io_read \<Rightarrow> callback_kind \<Rightarrow> TcpConnection \<Rightarrow> TcpConnection result" where
  "conn_callback tid app io k = (case k of
     CloseCB \<Rightarrow> handleClose tid app
   | ErrorCB \<Rightarrow> handleError
   | ReadCB \<Rightarrow> tcp_handleRead tid app io
   | WriteCB \<Rightarrow> tcp_handleWrite tid app)"

text \<open>The constructor; \<open>chan\<close> is the address of the new channel of \<open>sockfd\<close>.\<close>

definition new_TcpConnection :: "string \<Rightarrow> int \<Rightarrow> nat \<Rightarrow> TcpConnection \<Rightarrow> TcpConnection" where
  "new_TcpConnection nameArg sockfd chan s = s\<lparr>
     chans := (chans s)(chan \<mapsto> new_channel (el_self s) sockfd),
     tc_name := nameArg, tc_state := kConnecting, tc_channel := chan,
     tc_highWaterMark := 64 * 1024 * 1024, tc_inputBuffer := new_buffer, tc_outputBuffer := new_buffer,
     tc_out := [], tc_fin := False, tc_sent := [], tc_ups := []\<rparr>"

section \<open>The connection and its channel\<close>

text \<open>
  What matters of the channel: the loop is well-formed and would let the channel go, the channel
  exists, is fresh, is registered, is silenced, and its interest.
\<close>

type_synonym view = "bool \<times> bool \<times> bool \<times> bool \<times> bool \<times> 32 word"

definition loop_view :: "int \<Rightarrow> nat \<Rightarrow> TcpConnection \<Rightarrow> view" where
  "loop_view tid a s = (loop_ok tid s \<and> removable a s, chan_base a s \<noteq> None, fresh a s,
     registered a s, silenced a s, interest a s)"

fun link_ok :: "stateE \<Rightarrow> bool \<Rightarrow> view \<Rightarrow> bool" where
  "link_ok kConnecting e (ok, ex, fr, reg, sil, w) \<longleftrightarrow> ok \<and> ex \<and> fr \<and> \<not> reg \<and> \<not> sil \<and> w = 0 \<and> e"
| "link_ok kDisconnected e (ok, ex, fr, reg, sil, w) \<longleftrightarrow> ok \<and> ex \<and> w = 0 \<and> (reg \<longrightarrow> sil)"
| "link_ok _ e (ok, ex, fr, reg, sil, w) \<longleftrightarrow> ok \<and> ex \<and> reg \<and> \<not> sil \<and>
     w = (if e then kReadEvent else kReadEvent OR kWriteEvent)"

lemma loop_view_cong:
  assumes "chans s' = chans s" "pollfds s' = pollfds s" "channels s' = channels s"
    "el_threadId s' = el_threadId s" "el_self s' = el_self s" "el_eventHandling s' = el_eventHandling s"
    "el_currentActiveChannel s' = el_currentActiveChannel s" "el_activeChannels s' = el_activeChannels s"
  shows "loop_view tid a s' = loop_view tid a s"
  unfolding loop_view_def loop_ok_def poller_ok_def entry_ok_def registered_def watch_def
    removable_def chan_base_def fresh_def silenced_def muted_def interest_def assms ..

lemma loop_view_frame [simp]:
  "loop_view tid a (s\<lparr>tc_name := x0\<rparr>) = loop_view tid a s"
  "loop_view tid a (s\<lparr>tc_state := x1\<rparr>) = loop_view tid a s"
  "loop_view tid a (s\<lparr>tc_highWaterMark := x2\<rparr>) = loop_view tid a s"
  "loop_view tid a (s\<lparr>tc_inputBuffer := x3\<rparr>) = loop_view tid a s"
  "loop_view tid a (s\<lparr>tc_outputBuffer := x4\<rparr>) = loop_view tid a s"
  "loop_view tid a (s\<lparr>tc_kernel := x5\<rparr>) = loop_view tid a s"
  "loop_view tid a (s\<lparr>tc_writes := x6\<rparr>) = loop_view tid a s"
  "loop_view tid a (s\<lparr>tc_out := x7\<rparr>) = loop_view tid a s"
  "loop_view tid a (s\<lparr>tc_fin := x8\<rparr>) = loop_view tid a s"
  "loop_view tid a (s\<lparr>tc_sent := x9\<rparr>) = loop_view tid a s"
  "loop_view tid a (s\<lparr>tc_ups := x10\<rparr>) = loop_view tid a s"
  "loop_view tid a (s\<lparr>el_pendingFunctors := x11\<rparr>) = loop_view tid a s"
  "loop_view tid a (s\<lparr>el_wakeups := x12\<rparr>) = loop_view tid a s"
  "loop_view tid a (s\<lparr>el_callingPendingFunctors := x13\<rparr>) = loop_view tid a s"
  by (rule loop_view_cong; simp)+

lemma view_exists: "loop_view tid a s = (ok, True, v) \<Longrightarrow> \<exists>c. chans s a = Some c \<and> interest a s = ch_events c"
  by (cases "chans s a") (auto simp: loop_view_def chan_base_def forget_events_def interest_def)

lemma rest_eq_update:
  fixes s s' :: TcpConnection
  assumes "loop_rest s' = loop_rest s"
  shows "\<exists>x y z. s' = s\<lparr>chans := x, pollfds := y, channels := z\<rparr>"
proof -
  have "s' = s\<lparr>chans := chans s', pollfds := pollfds s', channels := channels s'\<rparr>"
    using assms by (cases s, cases s') (simp add: loop_rest_eq)
  then show ?thesis by blast
qed

text \<open>The laws of the registry, on views.\<close>

lemma update_view:
  fixes s :: TcpConnection
  assumes v: "loop_view tid a s = (True, ex, fr, reg, sil, w)" and "reg \<or> fr"
  shows "\<exists>x y z s'. update_events tid a f s = Inr s' \<and> s' = s\<lparr>chans := x, pollfds := y, channels := z\<rparr> \<and>
    (\<exists>fr'. loop_view tid a s' = (True, ex, fr', True, sil \<or> reg \<and> f w = 0, f w))"
proof -
  from assms have "loop_ok tid s" "registered a s \<or> fresh a s" by (auto simp: loop_view_def)
  then obtain s' where s': "update_events tid a f s = Inr s'" "loop_ok tid s'" "registered a s'"
    "interest a s' = f (interest a s)" "loop_rest s' = loop_rest s" "chan_base a s' = chan_base a s"
    "silenced a s' = (silenced a s \<or> registered a s \<and> f (interest a s) = 0)"
    using loop_reg.updateE [of tid s a f] by metis
  moreover have "removable a s' = removable a s" using s'(5) by (metis removable_rest)
  ultimately have "loop_view tid a s' = (True, ex, fresh a s', True, sil \<or> reg \<and> f w = 0, f w)"
    using v by (auto simp: loop_view_def)
  with s'(1) rest_eq_update [OF s'(5)] show ?thesis by blast
qed

lemma remove_view:
  fixes s :: TcpConnection
  assumes v: "loop_view tid a s = (True, ex, fr, True, True, 0)"
  shows "\<exists>x y z s'. channel_remove tid a s = Inr s' \<and> s' = s\<lparr>chans := x, pollfds := y, channels := z\<rparr> \<and>
    (\<exists>fr' sil'. loop_view tid a s' = (True, ex, fr', False, sil', 0))"
proof -
  from v have "loop_ok tid s" "registered a s" "silenced a s" "interest a s = 0" "removable a (loop_rest s)"
    by (auto simp: loop_view_def)
  from loop_reg.remove_law [OF this] obtain s' where s': "channel_remove tid a s = Inr s'" "loop_ok tid s'"
    "\<not> registered a s'" "loop_rest s' = loop_rest s" "chan_base a s' = chan_base a s" "interest a s' = 0" by blast
  moreover have "removable a s' = removable a s" using s'(4) by (metis removable_rest)
  ultimately have "loop_view tid a s' = (True, ex, fresh a s', False, silenced a s', 0)"
    using v by (auto simp: loop_view_def)
  with s'(1) rest_eq_update [OF s'(4)] show ?thesis by blast
qed

lemma write_events [simp]:
  "bit kReadEvent 2 = False" "bit (kReadEvent OR kWriteEvent) 2"
  "kReadEvent \<noteq> 0" "kReadEvent OR kWriteEvent \<noteq> 0"
  "(kReadEvent OR kWriteEvent) AND NOT kWriteEvent = kReadEvent" "0 OR kReadEvent = kReadEvent"
  by (simp_all add: kReadEvent_def kWriteEvent_def poll_consts bit_or_iff)

section \<open>The invariant\<close>

text \<open>
  \<open>tcp_kernel_ok\<close> is what \<open>write(2)\<close> documents: it takes at most what is offered, and fails with
  \<open>EPIPE\<close> once the write side is shut down. \<open>fs\<close> are the functors of the batch still to run.
\<close>

definition tcp_kernel_ok :: "(nat \<Rightarrow> bool \<Rightarrow> nat \<Rightarrow> write_result) \<Rightarrow> bool" where
  "tcp_kernel_ok k \<longleftrightarrow> (\<forall>i len n. k i False len = Wrote n \<longrightarrow> n \<le> len) \<and> (\<forall>i len. k i True len = WriteErr EPIPE)"

definition pending_out :: "TcpConnection \<Rightarrow> string" where
  "pending_out s = contents (tc_outputBuffer s)"

definition accepted :: "TcpConnection \<Rightarrow> string" where
  "accepted s = concat (map fst (filter snd (tc_sent s)))"

definition todo :: "tcp_functor list \<Rightarrow> TcpConnection \<Rightarrow> tcp_functor list" where
  "todo fs s = fs @ el_pendingFunctors s"

definition data_ok :: "TcpConnection \<Rightarrow> bool" where
  "data_ok s \<longleftrightarrow> buffer_ok (tc_inputBuffer s) \<and> buffer_ok (tc_outputBuffer s) \<and> tcp_kernel_ok (tc_kernel s) \<and>
     tc_out s @ pending_out s = accepted s"

definition enlisted :: "int \<Rightarrow> TcpConnection \<Rightarrow> bool" where
  "enlisted tid s = (case loop_view tid (tc_channel s) s of (ok, ex, fr, reg, sil, w) \<Rightarrow> reg)"

definition fin_ok :: "int \<Rightarrow> tcp_functor list \<Rightarrow> TcpConnection \<Rightarrow> bool" where
  "fin_ok tid fs s \<longleftrightarrow>
     (tc_fin s \<longrightarrow> (tc_state s = kDisconnecting \<and> pending_out s = []) \<or> tc_state s = kDisconnected) \<and>
     (ShutdownInLoop \<in> set (todo fs s) \<longrightarrow> tc_state s = kDisconnecting \<or> tc_state s = kDisconnected) \<and>
     (tc_state s = kDisconnecting \<longrightarrow> tc_fin s \<or> pending_out s \<noteq> [] \<or> ShutdownInLoop \<in> set (todo fs s)) \<and>
     count_list (todo fs s) ConnectDestroyed = (if tc_state s = kDisconnected \<and> enlisted tid s then 1 else 0) \<and>
     (tc_state s = kConnecting \<longrightarrow> todo fs s = [])"

definition conn_ok :: "int \<Rightarrow> tcp_functor list \<Rightarrow> TcpConnection \<Rightarrow> bool" where
  "conn_ok tid fs s \<longleftrightarrow> link_ok (tc_state s) (pending_out s = []) (loop_view tid (tc_channel s) s) \<and>
     data_ok s \<and> fin_ok tid fs s"

text \<open>An open connection: registered, not silenced, writing exactly when output is pending.\<close>

abbreviation open_view :: "int \<Rightarrow> TcpConnection \<Rightarrow> bool \<Rightarrow> bool" where
  "open_view tid s e \<equiv> \<exists>fr. loop_view tid (tc_channel s) s =
     (True, True, fr, True, False, if e then kReadEvent else kReadEvent OR kWriteEvent)"

lemma link_open:
  "st = kConnected \<or> st = kDisconnecting \<Longrightarrow> link_ok st e (loop_view tid (tc_channel s) s) = open_view tid s e"
  by (cases "loop_view tid (tc_channel s) s") auto

lemma open_channel:
  assumes "open_view tid s e"
  shows "\<exists>c. chans s (tc_channel s) = Some c \<and> isWriting c = (\<not> e) \<and>
    ch_events c = (if e then kReadEvent else kReadEvent OR kWriteEvent)"
proof -
  from assms obtain fr where v: "loop_view tid (tc_channel s) s =
    (True, True, fr, True, False, if e then kReadEvent else kReadEvent OR kWriteEvent)" by blast
  from view_exists [OF v] obtain c where c: "chans s (tc_channel s) = Some c"
    "interest (tc_channel s) s = ch_events c" by blast
  with v have "ch_events c = (if e then kReadEvent else kReadEvent OR kWriteEvent)"
    by (simp add: loop_view_def)
  with c(1) show ?thesis by (simp add: isWriting_bit)
qed

lemma in_loop_view: "loop_view tid a s = (True, v) \<Longrightarrow> assertInLoopThread tid s = Inr () \<and> isInLoopThread tid s"
  by (simp add: loop_view_def loop_ok_def assertInLoopThread_def isInLoopThread_def)

text \<open>What the sending operations leave alone.\<close>

definition same_conn :: "TcpConnection \<Rightarrow> TcpConnection \<Rightarrow> bool" where
  "same_conn s s' \<longleftrightarrow> tc_state s' = tc_state s \<and> tc_channel s' = tc_channel s \<and> tc_kernel s' = tc_kernel s \<and>
     tc_inputBuffer s' = tc_inputBuffer s \<and> tc_fin s' = tc_fin s \<and> tc_ups s' = tc_ups s"

lemma check_highWaterMark_eq:
  "\<exists>new m. check_highWaterMark tid app r s =
     s\<lparr>el_pendingFunctors := el_pendingFunctors s @ new, el_wakeups := m\<rparr> \<and> set new \<subseteq> range HighWaterMark"
proof -
  let ?f = "HighWaterMark (readableBytes (tc_outputBuffer s) + r)"
  obtain k where k: "queueInLoop tid ?f s = s\<lparr>el_pendingFunctors := el_pendingFunctors s @ [?f], el_wakeups := k\<rparr>"
    using queueInLoop_eq [of tid ?f s] by (rule exE)
  have "check_highWaterMark tid app r s = queueInLoop tid ?f s \<or> check_highWaterMark tid app r s = s"
    by (simp add: check_highWaterMark_def Let_def)
  then show ?thesis
  proof
    assume "check_highWaterMark tid app r s = queueInLoop tid ?f s"
    then show ?thesis using k by (intro exI [of _ "[?f]"] exI [of _ k]) simp
  next
    assume "check_highWaterMark tid app r s = s"
    then show ?thesis by (intro exI [of _ "[]"] exI [of _ "el_wakeups s"]) simp
  qed
qed

lemma buffer_rest_run:
  assumes view: "open_view tid s (pending_out s = [])" and buf: "buffer_ok (tc_outputBuffer s)"
    and n: "nwrote < length data"
  shows "\<exists>s' new. buffer_rest tid app nwrote data s = Inr s' \<and> same_conn s s' \<and> tc_out s' = tc_out s \<and>
    pending_out s' = pending_out s @ drop nwrote data \<and> buffer_ok (tc_outputBuffer s') \<and>
    tc_sent s' = tc_sent s @ [(data, True)] \<and> open_view tid s' False \<and>
    el_pendingFunctors s' = el_pendingFunctors s @ new \<and> set new \<subseteq> range HighWaterMark"
proof -
  define t where "t = check_highWaterMark tid app (length data - nwrote) s"
  obtain new m where t: "t = s\<lparr>el_pendingFunctors := el_pendingFunctors s @ new, el_wakeups := m\<rparr>"
    and new: "set new \<subseteq> range HighWaterMark"
    using check_highWaterMark_eq [of tid app "length data - nwrote" s] unfolding t_def by blast
  from buf.enq [OF buf, of "drop nwrote data"] obtain b where
    b: "append_buf (drop nwrote data) (tc_outputBuffer s) = Inr b" "buffer_ok b"
      "contents b = pending_out s @ drop nwrote data" by (auto simp: pending_out_def)
  define u where "u = note_sent data True (t\<lparr>tc_outputBuffer := b\<rparr>)"
  have u: "u = t\<lparr>tc_outputBuffer := b, tc_sent := tc_sent s @ [(data, True)]\<rparr>"
    by (simp add: u_def note_sent_def t)
  have ch: "tc_channel u = tc_channel s" "chans u = chans s" by (simp_all add: u t)
  have view_u: "loop_view tid (tc_channel s) u = loop_view tid (tc_channel s) s" by (simp add: u t)
  from open_channel [OF view] obtain c where
    c: "chans s (tc_channel s) = Some c" "isWriting c \<longleftrightarrow> pending_out s \<noteq> []" by auto
  have run: "buffer_rest tid app nwrote data s =
      (if pending_out s = [] then enableWriting tid (tc_channel s) u else Inr u)"
  proof -
    have "tc_outputBuffer t = tc_outputBuffer s" by (simp add: t)
    then have "buffer_rest tid app nwrote data s = rbind (deref (tc_channel u) u)
        (\<lambda>c. if \<not> isWriting c then enableWriting tid (tc_channel u) u else Inr u)"
      by (simp only: buffer_rest_def Let_def t_def [symmetric] b(1) rbind_Inr u_def [symmetric])
    with c ch show ?thesis by simp
  qed
  have facts: "same_conn s u" "tc_out u = tc_out s" "pending_out u = pending_out s @ drop nwrote data"
    "buffer_ok (tc_outputBuffer u)" "tc_sent u = tc_sent s @ [(data, True)]"
    "el_pendingFunctors u = el_pendingFunctors s @ new"
    using b by (simp_all add: u t same_conn_def pending_out_def)
  show ?thesis
  proof (cases "pending_out s = []")
    case True
    with view view_u obtain fr where "loop_view tid (tc_channel s) u = (True, True, fr, True, False, kReadEvent)" by auto
    from update_view [OF this, of "\<lambda>e. e OR kWriteEvent"] obtain x y z s' fr' where
      s': "enableWriting tid (tc_channel s) u = Inr s'" "s' = u\<lparr>chans := x, pollfds := y, channels := z\<rparr>"
        "loop_view tid (tc_channel s) s' = (True, True, fr', True, False, kReadEvent OR kWriteEvent)"
      by (auto simp: enableWriting_def)
    moreover have "tc_channel s' = tc_channel s" using s'(2) ch by simp
    ultimately show ?thesis using run True facts new
      by (intro exI [of _ s'] exI [of _ new]) (simp add: same_conn_def pending_out_def)
  next
    case False
    with run facts new view view_u ch show ?thesis by (intro exI [of _ u] exI [of _ new]) simp
  qed
qed

definition internal :: "tcp_functor set" where
  "internal = insert WriteComplete (range HighWaterMark)"

lemma open_view_cong:
  "loop_view tid (tc_channel s') s' = loop_view tid (tc_channel s) s \<Longrightarrow> open_view tid s' e = open_view tid s e"
  by simp

text \<open>The result of sending on an open connection: the message is appended to the stream, or refused as a whole.\<close>

definition sent_one :: "int \<Rightarrow> string \<Rightarrow> bool \<Rightarrow> TcpConnection \<Rightarrow> TcpConnection \<Rightarrow> bool" where
  "sent_one tid data acc s s' \<longleftrightarrow> same_conn s s' \<and> buffer_ok (tc_outputBuffer s') \<and>
     open_view tid s' (pending_out s' = []) \<and> tc_sent s' = tc_sent s @ [(data, acc)] \<and>
     tc_out s' @ pending_out s' = tc_out s @ pending_out s @ (if acc then data else []) \<and>
     (\<exists>new. el_pendingFunctors s' = el_pendingFunctors s @ new \<and> set new \<subseteq> internal) \<and>
     (tc_fin s \<and> pending_out s = [] \<longrightarrow> pending_out s' = []) \<and>
     (pending_out s \<noteq> [] \<longrightarrow> pending_out s' \<noteq> []) \<and>
     (\<not> acc \<longrightarrow> tc_kernel s (tc_writes s) (tc_fin s) (length data) = WriteErr EPIPE)"

lemma sent_one_buffer:
  assumes view: "open_view tid s (pending_out s = [])" and buf: "buffer_ok (tc_outputBuffer s)"
    and n: "nwrote < length data" and out: "tc_out s = tc_out s0 @ take nwrote data"
    and same: "same_conn s0 s" "pending_out s = pending_out s0" "tc_sent s = tc_sent s0"
      "el_pendingFunctors s = el_pendingFunctors s0"
    and none: "pending_out s0 = [] \<or> nwrote = 0" and fin: "\<not> (tc_fin s0 \<and> pending_out s0 = [])"
  shows "\<exists>s'. buffer_rest tid app nwrote data s = Inr s' \<and> sent_one tid data True s0 s'"
proof -
  from buffer_rest_run [OF view buf n, of app] obtain s' new where
    s': "buffer_rest tid app nwrote data s = Inr s'" "same_conn s s'" "tc_out s' = tc_out s"
    "pending_out s' = pending_out s @ drop nwrote data" "buffer_ok (tc_outputBuffer s')"
    "tc_sent s' = tc_sent s @ [(data, True)]" "open_view tid s' False"
    "el_pendingFunctors s' = el_pendingFunctors s @ new" "set new \<subseteq> range HighWaterMark" by blast
  have "pending_out s' \<noteq> []" using s'(4) n by simp
  moreover have "tc_out s' @ pending_out s' = tc_out s0 @ pending_out s0 @ data"
    using s'(3,4) out none same(2) by auto
  moreover have "set new \<subseteq> internal" using s'(9) by (auto simp: internal_def)
  ultimately have "sent_one tid data True s0 s'"
    using s' same fin by (auto simp: sent_one_def same_conn_def)
  with s'(1) show ?thesis by blast
qed

lemma sent_one_note:
  assumes view: "open_view tid s (pending_out s = [])"
    and u: "same_conn s u" "pending_out u = pending_out s" "buffer_ok (tc_outputBuffer u)" "tc_sent u = tc_sent s"
      "loop_view tid (tc_channel s) u = loop_view tid (tc_channel s) s"
      "tc_out u = tc_out s @ (if acc then msg else [])" "pending_out s = [] \<or> msg = []"
      "el_pendingFunctors u = el_pendingFunctors s @ new" "set new \<subseteq> internal"
      "\<not> acc \<longrightarrow> tc_kernel s (tc_writes s) (tc_fin s) (length msg) = WriteErr EPIPE"
  shows "sent_one tid msg acc s (note_sent msg acc u)"
  using u view by (auto simp: sent_one_def note_sent_def same_conn_def pending_out_def)

text \<open>The write-complete callback is queued if there is one.\<close>

lemma write_complete_queued:
  obtains new m where
    "(if app_writeComplete app \<noteq> None then queueInLoop tid WriteComplete u else u) =
      u\<lparr>el_pendingFunctors := el_pendingFunctors u @ new, el_wakeups := m\<rparr>" "set new \<subseteq> internal"
proof (cases "app_writeComplete app = None")
  case True
  with that [where new = "[]" and m = "el_wakeups u"] show ?thesis by simp
next
  case False
  obtain k where "queueInLoop tid WriteComplete u = u\<lparr>el_pendingFunctors := el_pendingFunctors u @ [WriteComplete], el_wakeups := k\<rparr>"
    using queueInLoop_eq [of tid WriteComplete u] by (rule exE)
  with False that [where new = "[WriteComplete]" and m = k] show ?thesis by (auto simp: internal_def)
qed

lemma sys_write_frame:
  assumes "sys_write msg s = (r, u)"
  shows "same_conn s u" "pending_out u = pending_out s" "tc_sent u = tc_sent s"
    "el_pendingFunctors u = el_pendingFunctors s" "tc_outputBuffer u = tc_outputBuffer s"
    "tc_channel u = tc_channel s" "loop_view tid (tc_channel s) u = loop_view tid (tc_channel s) s"
    "tc_kernel s (tc_writes s) (tc_fin s) (length msg) = r"
    "tc_out u = tc_out s @ (case r of Wrote n \<Rightarrow> take n msg | WriteErr e \<Rightarrow> [])"
  using assms by (auto simp: sys_write_def Let_def same_conn_def pending_out_def)

text \<open>The three ways of \<open>sendInLoop\<close> on an open connection: behind what is pending, after a write, after a failed one.\<close>

lemma send_behind:
  assumes run: "sendInLoop tid app msg s =
      (if length msg > 0 then buffer_rest tid app 0 msg s else Inr (note_sent msg True s))"
    and view: "open_view tid s (pending_out s = [])" and buf: "buffer_ok (tc_outputBuffer s)" and ne: "pending_out s \<noteq> []"
  shows "\<exists>s' acc. sendInLoop tid app msg s = Inr s' \<and> sent_one tid msg acc s s'"
proof (cases "msg = []")
  case True
  with sent_one_note [OF view, where u = s and acc = True and new = "[]" and msg = msg] buf
  have "sent_one tid msg True s (note_sent msg True s)" by (simp add: same_conn_def)
  with run True show ?thesis by auto
next
  case False
  have "same_conn s s" by (simp add: same_conn_def)
  with sent_one_buffer [OF view buf, of 0 msg s app] ne False run show ?thesis by auto
qed

lemma send_wrote:
  assumes view: "open_view tid s (pending_out s = [])" and buf: "buffer_ok (tc_outputBuffer s)"
    and empty: "pending_out s = []" and sys: "sys_write msg s = (Wrote n, u)" and n: "n \<le> length msg" "\<not> tc_fin s"
    and run: "sendInLoop tid app msg s = (if n = length msg
      then Inr (note_sent msg True (if app_writeComplete app \<noteq> None then queueInLoop tid WriteComplete u else u))
      else buffer_rest tid app n msg u)"
  shows "\<exists>s' acc. sendInLoop tid app msg s = Inr s' \<and> sent_one tid msg acc s s'"
proof (cases "n = length msg")
  note u = sys_write_frame [OF sys]
  case True
  obtain new m where v: "(if app_writeComplete app \<noteq> None then queueInLoop tid WriteComplete u else u) =
      u\<lparr>el_pendingFunctors := el_pendingFunctors u @ new, el_wakeups := m\<rparr>" and new: "set new \<subseteq> internal"
    by (rule write_complete_queued)
  have "sent_one tid msg True s (note_sent msg True (u\<lparr>el_pendingFunctors := el_pendingFunctors u @ new, el_wakeups := m\<rparr>))"
    using u new True buf empty by (intro sent_one_note [OF view, where new = new]) (simp_all add: same_conn_def pending_out_def)
  with run True v show ?thesis by auto
next
  note u = sys_write_frame [OF sys]
  case False
  then have lt: "n < length msg" using n by simp
  have "open_view tid u (pending_out u = [])" "buffer_ok (tc_outputBuffer u)" "tc_out u = tc_out s @ take n msg"
    using view buf u by simp_all
  from sent_one_buffer [OF this(1,2) lt this(3) u(1-4), of app] empty n(2) run False show ?thesis by auto
qed

lemma send_failed:
  assumes view: "open_view tid s (pending_out s = [])" and data: "data_ok s"
    and empty: "pending_out s = []" and sys: "sys_write msg s = (WriteErr e, u)"
    and run: "sendInLoop tid app msg s = (if e = EPIPE then Inr (note_sent msg False u)
      else if length msg > 0 then buffer_rest tid app 0 msg u else Inr (note_sent msg True u))"
  shows "\<exists>s' acc. sendInLoop tid app msg s = Inr s' \<and> sent_one tid msg acc s s'"
proof -
  note u = sys_write_frame [OF sys]
  have buf: "buffer_ok (tc_outputBuffer u)" and view_u: "open_view tid u (pending_out u = [])"
    using data view u by (simp_all add: data_ok_def)
  show ?thesis
  proof (cases "e = EPIPE")
    case True
    then have "sent_one tid msg False s (note_sent msg False u)"
      using u buf empty by (intro sent_one_note [OF view, where new = "[]"]) simp_all
    with run True show ?thesis by auto
  next
    case other: False
    have notfin: "\<not> tc_fin s"
      using data u(8) other by (cases "tc_fin s") (auto simp: data_ok_def tcp_kernel_ok_def)
    show ?thesis
    proof (cases "msg = []")
      case True
      then have "sent_one tid msg True s (note_sent msg True u)"
        using u buf by (intro sent_one_note [OF view, where new = "[]"]) simp_all
      with run other True show ?thesis by auto
    next
      case False
      with sent_one_buffer [OF view_u buf, of 0 msg s app] u run notfin empty other show ?thesis by auto
    qed
  qed
qed

lemma sendInLoop_open:
  assumes st: "tc_state s = kConnected \<or> tc_state s = kDisconnecting"
    and view: "open_view tid s (pending_out s = [])" and data: "data_ok s"
  shows "\<exists>s' acc. sendInLoop tid app msg s = Inr s' \<and> sent_one tid msg acc s s'"
proof -
  have buf: "buffer_ok (tc_outputBuffer s)" and kern: "tcp_kernel_ok (tc_kernel s)"
    using data by (simp_all add: data_ok_def)
  have read: "readableBytes (tc_outputBuffer s) = length (pending_out s)"
    using length_contents [OF buf] by (simp add: pending_out_def)
  from open_channel [OF view] obtain c where
    c: "chans s (tc_channel s) = Some c" "isWriting c \<longleftrightarrow> pending_out s \<noteq> []" by auto
  have here: "assertInLoopThread tid s = Inr ()" using view in_loop_view by blast
  show ?thesis
  proof (cases "pending_out s = []")
    case False
    then have "sendInLoop tid app msg s =
        (if length msg > 0 then buffer_rest tid app 0 msg s else Inr (note_sent msg True s))"
      using here st c by (auto simp: sendInLoop_def)
    from send_behind [OF this view buf False] show ?thesis .
  next
    case True
    obtain r u where sys: "sys_write msg s = (r, u)" by (cases "sys_write msg s")
    show ?thesis
    proof (cases r)
      case (Wrote n)
      have w: "sys_write msg s = (Wrote n, u)" using sys Wrote by simp
      have n: "n \<le> length msg" "\<not> tc_fin s"
        using kern sys_write_frame(8) [OF w] by (cases "tc_fin s"; force simp: tcp_kernel_ok_def)+
      have "sendInLoop tid app msg s = (if n = length msg
          then Inr (note_sent msg True (if app_writeComplete app \<noteq> None then queueInLoop tid WriteComplete u else u))
          else buffer_rest tid app n msg u)"
        using w here st c True read n by (auto simp: sendInLoop_def direct_write_def)
      from send_wrote [OF view buf True w n this] show ?thesis .
    next
      case (WriteErr e)
      have w: "sys_write msg s = (WriteErr e, u)" using sys WriteErr by simp
      have "sendInLoop tid app msg s = (if e = EPIPE then Inr (note_sent msg False u)
          else if length msg > 0 then buffer_rest tid app 0 msg u else Inr (note_sent msg True u))"
        using w here st c True read by (auto simp: sendInLoop_def direct_write_def EWOULDBLOCK_def EPIPE_def)
      from send_failed [OF view data True w this] show ?thesis .
    qed
  qed
qed

section \<open>Every operation keeps the invariant\<close>

lemma conn_thread:
  assumes "conn_ok tid fs s"
  shows "el_threadId s = tid" "isInLoopThread t s \<longleftrightarrow> t = tid" "assertInLoopThread tid s = Inr ()"
    "\<exists>c. chans s (tc_channel s) = Some c"
proof -
  obtain ok ex v where v: "loop_view tid (tc_channel s) s = (ok, ex, v)" by (metis surj_pair)
  have "link_ok (tc_state s) (pending_out s = []) (ok, ex, v)" using assms by (simp add: conn_ok_def v)
  then have "ok \<and> ex" by (cases v; cases "tc_state s") auto
  with v have view: "loop_view tid (tc_channel s) s = (True, True, v)" by simp
  show "el_threadId s = tid" using view by (simp add: loop_view_def loop_ok_def)
  then show "isInLoopThread t s \<longleftrightarrow> t = tid" "assertInLoopThread tid s = Inr ()"
    by (auto simp: isInLoopThread_def assertInLoopThread_def)
  show "\<exists>c. chans s (tc_channel s) = Some c" using view_exists [OF view] by blast
qed

lemma count_internal: "set new \<subseteq> internal \<Longrightarrow> count_list new ConnectDestroyed = 0 \<and> ShutdownInLoop \<notin> set new"
  by (induction new) (auto simp: internal_def)

lemma sendInLoop_conn:
  assumes ok: "conn_ok tid fs s" and st: "tc_state s \<noteq> kConnecting"
  shows "\<exists>s' acc. sendInLoop tid app msg s = Inr s' \<and> conn_ok tid fs s' \<and>
    tc_sent s' = tc_sent s @ [(msg, acc)] \<and>
    (\<not> acc \<longrightarrow> tc_state s = kDisconnected \<or> tc_kernel s (tc_writes s) (tc_fin s) (length msg) = WriteErr EPIPE)"
proof (cases "tc_state s = kDisconnected")
  case True
  then have "sendInLoop tid app msg s = Inr (note_sent msg False s)"
    using conn_thread [OF ok] by (simp add: sendInLoop_def)
  moreover have "conn_ok tid fs (note_sent msg False s)"
    using ok by (simp add: note_sent_def conn_ok_def data_ok_def fin_ok_def pending_out_def accepted_def
        todo_def enlisted_def)
  ultimately show ?thesis using True by (auto simp: note_sent_def)
next
  case False
  with st have st': "tc_state s = kConnected \<or> tc_state s = kDisconnecting" by (cases "tc_state s") auto
  have view: "open_view tid s (pending_out s = [])" and data: "data_ok s"
    using ok link_open [OF st'] by (auto simp: conn_ok_def)
  from sendInLoop_open [OF st' view data] obtain s' acc where
    s': "sendInLoop tid app msg s = Inr s'" "sent_one tid msg acc s s'" by blast
  from s'(2) obtain new where new: "el_pendingFunctors s' = el_pendingFunctors s @ new" "set new \<subseteq> internal"
    by (auto simp: sent_one_def)
  have same: "tc_state s' = tc_state s" "tc_fin s' = tc_fin s" using s'(2) by (auto simp: sent_one_def same_conn_def)
  have st'': "tc_state s' = kConnected \<or> tc_state s' = kDisconnecting" using st' same by simp
  have "link_ok (tc_state s') (pending_out s' = []) (loop_view tid (tc_channel s') s')"
    unfolding link_open [OF st''] using s'(2) by (simp add: sent_one_def)
  moreover have "data_ok s'"
    using s'(2) data by (auto simp: sent_one_def same_conn_def data_ok_def accepted_def)
  moreover have "fin_ok tid fs s'"
    using ok s'(2) new count_internal [OF new(2)] False st same
    by (auto simp: conn_ok_def fin_ok_def todo_def sent_one_def)
  ultimately have "conn_ok tid fs s'" by (simp add: conn_ok_def)
  with s' show ?thesis by (auto simp: sent_one_def)
qed

lemma conn_drop:
  assumes "conn_ok tid (f # fs) s" and "f \<noteq> ShutdownInLoop" "f \<noteq> ConnectDestroyed"
  shows "conn_ok tid fs s" and "tc_state s \<noteq> kConnecting"
  using assms by (auto simp: conn_ok_def fin_ok_def todo_def)

text \<open>What draining the output leaves alone.\<close>

definition same_output :: "TcpConnection \<Rightarrow> TcpConnection \<Rightarrow> bool" where
  "same_output s s' \<longleftrightarrow> tc_outputBuffer s' = tc_outputBuffer s \<and> tc_kernel s' = tc_kernel s \<and>
     tc_state s' = tc_state s"

lemma shutdownInLoop_conn:
  assumes ok: "conn_ok tid (ShutdownInLoop # fs) s"
  shows "\<exists>s'. shutdownInLoop tid s = Inr s' \<and> conn_ok tid fs s' \<and> same_output s s'"
proof -
  from conn_thread [OF ok] obtain c where c: "chans s (tc_channel s) = Some c" by blast
  let ?s = "if \<not> isWriting c then s\<lparr>tc_fin := True\<rparr> else s"
  have run: "shutdownInLoop tid s = Inr ?s"
    using conn_thread(3) [OF ok] c by (simp add: shutdownInLoop_def)
  have st: "tc_state s = kDisconnecting \<or> tc_state s = kDisconnected"
    using ok by (auto simp: conn_ok_def fin_ok_def todo_def)
  have wr: "isWriting c \<longleftrightarrow> pending_out s \<noteq> []" if "tc_state s = kDisconnecting"
    using open_channel [of tid s "pending_out s = []"] link_open [of "tc_state s"] ok that c
    by (auto simp: conn_ok_def)
  have "conn_ok tid fs ?s"
    using ok st wr by (auto simp: conn_ok_def data_ok_def fin_ok_def todo_def pending_out_def accepted_def enlisted_def)
  moreover have "same_output s ?s" by (simp add: same_output_def)
  ultimately show ?thesis using run by blast
qed

lemma conn_queue:
  assumes ok: "conn_ok tid (f # fs) s"
  shows "conn_ok tid fs (queueInLoop t f s)"
proof -
  obtain k where q: "queueInLoop t f s = s\<lparr>el_pendingFunctors := el_pendingFunctors s @ [f], el_wakeups := k\<rparr>"
    (is "_ = ?q") using queueInLoop_eq [of t f s] by (rule exE)
  have todo: "set (todo fs ?q) = set (todo (f # fs) s)"
    "count_list (todo fs ?q) g = count_list (todo (f # fs) s) g" for g
    by (auto simp: todo_def)
  have "fin_ok tid fs ?q"
    using ok unfolding conn_ok_def fin_ok_def todo by (simp add: enlisted_def pending_out_def todo_def)
  moreover have "data_ok ?q"
    using ok by (simp add: conn_ok_def data_ok_def pending_out_def accepted_def)
  ultimately show ?thesis
    using ok unfolding q by (simp add: conn_ok_def pending_out_def)
qed

lemma conn_add:
  assumes "conn_ok tid fs s" and "f \<noteq> ShutdownInLoop" "f \<noteq> ConnectDestroyed" "tc_state s \<noteq> kConnecting"
  shows "conn_ok tid (f # fs) s"
  using assms by (auto simp: conn_ok_def fin_ok_def todo_def)

lemma conn_disconnecting:
  assumes ok: "conn_ok tid fs s" and "tc_state s = kConnected"
  shows "conn_ok tid (ShutdownInLoop # fs) (s\<lparr>tc_state := kDisconnecting\<rparr>)"
proof -
  have "link_ok kDisconnecting (pending_out s = []) (loop_view tid (tc_channel s) s)"
    using assms link_open [of "tc_state s"] link_open [of kDisconnecting] by (auto simp: conn_ok_def)
  with assms show ?thesis
    by (auto simp: conn_ok_def data_ok_def fin_ok_def todo_def pending_out_def accepted_def)
qed

lemma command_conn:
  assumes ok: "conn_ok tid fs s"
  shows "\<exists>s'. run_tcp_command t app c s = Inr s' \<and> conn_ok tid fs s'"
proof (cases "tc_state s = kConnected")
  case False
  with ok show ?thesis by (cases c) (simp_all add: run_tcp_command_def send_def shutdown_def)
next
  case True
  show ?thesis
  proof (cases c)
    case (Send msg)
    show ?thesis
    proof (cases "t = tid")
      case tid: True
      from sendInLoop_conn [OF ok] True obtain s' where "sendInLoop tid app msg s = Inr s'" "conn_ok tid fs s'"
        by fastforce
      with Send True tid conn_thread [OF ok] show ?thesis by (simp add: run_tcp_command_def send_def)
    next
      case False
      have "conn_ok tid (SendInLoop msg # fs) s" using conn_add [OF ok] True by simp
      with Send True False conn_thread [OF ok] show ?thesis
        by (simp add: run_tcp_command_def send_def runInLoop_def conn_queue)
    qed
  next
    case Shutdown
    note dis = conn_disconnecting [OF ok True]
    show ?thesis
    proof (cases "t = tid")
      case tid: True
      with Shutdown True conn_thread [OF dis] shutdownInLoop_conn [OF dis] show ?thesis
        by (auto simp: run_tcp_command_def shutdown_def runInLoop_def)
    next
      case False
      with Shutdown True conn_thread [OF dis] dis show ?thesis
        by (simp add: run_tcp_command_def shutdown_def runInLoop_def conn_queue)
    qed
  qed
qed

lemma commands_conn:
  "conn_ok tid fs s \<Longrightarrow> \<exists>s'. run_tcp_commands t app cs s = Inr s' \<and> conn_ok tid fs s'"
  by (rule rfold_total) (use command_conn in blast)+

lemma connectionCallback_conn:
  assumes "conn_ok tid fs s"
  shows "\<exists>s'. connectionCallback t app s = Inr s' \<and> conn_ok tid fs s'"
proof -
  have "conn_ok tid fs (s\<lparr>tc_ups := tc_ups s @ [connected s]\<rparr>)"
    using assms by (simp add: conn_ok_def data_ok_def fin_ok_def todo_def pending_out_def accepted_def enlisted_def)
  from commands_conn [OF this] show ?thesis by (simp add: connectionCallback_def Let_def)
qed

text \<open>User code can shut an open connection down and change its state in no other way.\<close>

definition may_shut :: "stateE \<Rightarrow> stateE \<Rightarrow> bool" where
  "may_shut st st' \<longleftrightarrow> st' = st \<or> st = kConnected \<and> st' = kDisconnecting"

lemma queue_state: "tc_state (queueInLoop t f s) = tc_state s"
  using queueInLoop_eq [of t f s] by auto

lemma command_state:
  assumes ok: "conn_ok tid fs s" and run: "run_tcp_command t app c s = Inr s'"
  shows "may_shut (tc_state s) (tc_state s')"
proof (cases "tc_state s = kConnected")
  case False
  with run show ?thesis by (cases c) (simp_all add: run_tcp_command_def send_def shutdown_def may_shut_def)
next
  case True
  show ?thesis
  proof (cases c)
    case (Send msg)
    show ?thesis
    proof (cases "t = tid")
      case tid: True
      have "open_view tid s (pending_out s = [])" "data_ok s"
        using ok link_open [of "tc_state s"] True by (auto simp: conn_ok_def)
      from sendInLoop_open [OF _ this, of app msg] True obtain u acc where
        "sendInLoop tid app msg s = Inr u" "sent_one tid msg acc s u" by blast
      with run Send True tid conn_thread [OF ok] show ?thesis
        by (auto simp: run_tcp_command_def send_def sent_one_def same_conn_def may_shut_def)
    next
      case False
      then have "s' = queueInLoop t (SendInLoop msg) s"
        using run Send True conn_thread(2) [OF ok, of t]
        by (simp add: run_tcp_command_def send_def runInLoop_def)
      then show ?thesis by (simp add: queue_state may_shut_def)
    qed
  next
    case Shutdown
    let ?s = "s\<lparr>tc_state := kDisconnecting\<rparr>"
    have "s' = queueInLoop t ShutdownInLoop ?s \<or> shutdownInLoop t ?s = Inr s'"
      using run True Shutdown by (simp add: run_tcp_command_def shutdown_def runInLoop_def split: if_splits)
    moreover have "tc_state s' = kDisconnecting" if "shutdownInLoop t ?s = Inr s'"
    proof -
      from that obtain c where "Inr (if \<not> isWriting c then ?s\<lparr>tc_fin := True\<rparr> else ?s) = (Inr s' :: TcpConnection result)"
        unfolding shutdownInLoop_def by (blast elim: rbind_InrE)
      then have "s' = (if \<not> isWriting c then ?s\<lparr>tc_fin := True\<rparr> else ?s)" by (rule sum.inject(2) [THEN iffD1, symmetric])
      then show ?thesis by simp
    qed
    ultimately show ?thesis using True by (auto simp: queue_state may_shut_def)
  qed
qed

lemma callback_state:
  assumes ok: "conn_ok tid fs s" and run: "connectionCallback t app s = Inr s'"
  shows "may_shut (tc_state s) (tc_state s')"
proof -
  let ?s = "s\<lparr>tc_ups := tc_ups s @ [connected s]\<rparr>"
  have "conn_ok tid fs ?s"
    using ok by (simp add: conn_ok_def data_ok_def fin_ok_def todo_def pending_out_def accepted_def enlisted_def)
  then have "conn_ok tid fs ?s \<and> may_shut (tc_state s) (tc_state ?s)" by (simp add: may_shut_def)
  moreover have "conn_ok tid fs v \<and> may_shut (tc_state s) (tc_state v)"
    if "conn_ok tid fs u \<and> may_shut (tc_state s) (tc_state u)" "run_tcp_command t app c u = Inr v" for c u v
    using that command_conn [of tid fs u t app c] command_state [of tid fs u t app c v]
    by (auto simp: may_shut_def)
  ultimately have "conn_ok tid fs s' \<and> may_shut (tc_state s) (tc_state s')"
    using run rfold_invariant [where P = "\<lambda>u. conn_ok tid fs u \<and> may_shut (tc_state s) (tc_state u)"]
    unfolding connectionCallback_def Let_def by blast
  then show ?thesis by blast
qed

lemma link_enlisted:
  "tc_state s = kConnected \<or> tc_state s = kDisconnecting \<Longrightarrow> conn_ok tid fs s \<Longrightarrow> enlisted tid s"
  using link_open [of "tc_state s"] by (fastforce simp: conn_ok_def enlisted_def)

text \<open>Disconnecting the channel of an open connection; the functor that destroys it is then due.\<close>

lemma close_channel:
  assumes ok: "conn_ok tid fs s" and st: "tc_state s = kConnected \<or> tc_state s = kDisconnecting"
  shows "\<exists>s'. disableAll tid (tc_channel s) (s\<lparr>tc_state := kDisconnected\<rparr>) = Inr s' \<and>
    conn_ok tid (ConnectDestroyed # fs) s' \<and> tc_state s' = kDisconnected \<and> tc_channel s' = tc_channel s"
proof -
  let ?s = "s\<lparr>tc_state := kDisconnected\<rparr>"
  have "open_view tid s (pending_out s = [])" using ok link_open [OF st] by (simp add: conn_ok_def)
  then obtain fr w where v: "loop_view tid (tc_channel s) ?s = (True, True, fr, True, False, w)" by auto
  from update_view [OF v, of "\<lambda>e. kNoneEvent"] obtain x y z s' fr' where
    s': "disableAll tid (tc_channel s) ?s = Inr s'" "s' = ?s\<lparr>chans := x, pollfds := y, channels := z\<rparr>"
      "loop_view tid (tc_channel s) s' = (True, True, fr', True, True, 0)"
    by (auto simp: disableAll_def kNoneEvent_def)
  have ch: "tc_channel s' = tc_channel s" "tc_state s' = kDisconnected" using s'(2) by simp_all
  have "enlisted tid s'" using s'(3) ch by (simp add: enlisted_def)
  moreover have "data_ok s'" using ok s'(2) by (simp add: conn_ok_def data_ok_def pending_out_def accepted_def)
  moreover have "todo fs s' = todo fs s" using s'(2) by (simp add: todo_def)
  moreover have "count_list (todo fs s) ConnectDestroyed = 0" using ok st by (auto simp: conn_ok_def fin_ok_def)
  ultimately have "conn_ok tid (ConnectDestroyed # fs) s'"
    using s'(3) ch by (simp add: conn_ok_def fin_ok_def todo_def)
  with s'(1) ch show ?thesis by blast
qed

lemma handleClose_conn:
  assumes ok: "conn_ok tid fs s" and st: "tc_state s = kConnected \<or> tc_state s = kDisconnecting"
  shows "\<exists>s'. handleClose tid app s = Inr s' \<and> conn_ok tid fs s'"
proof -
  from close_channel [OF ok st] obtain u where
    u: "disableAll tid (tc_channel s) (s\<lparr>tc_state := kDisconnected\<rparr>) = Inr u"
      "conn_ok tid (ConnectDestroyed # fs) u" by blast
  from connectionCallback_conn [OF u(2)] obtain v where
    v: "connectionCallback tid app u = Inr v" "conn_ok tid (ConnectDestroyed # fs) v" by blast
  from conn_queue [OF v(2)] u(1) v(1) st conn_thread(3) [OF ok] show ?thesis
    by (simp add: handleClose_def closeCallback_def Let_def)
qed

lemma remove_conn:
  assumes ok: "conn_ok tid (ConnectDestroyed # fs) s"
  shows "\<exists>s'. channel_remove tid (tc_channel s) s = Inr s' \<and> conn_ok tid fs s' \<and> \<not> enlisted tid s' \<and>
    tc_state s' = kDisconnected"
proof -
  have st: "tc_state s = kDisconnected" and en: "enlisted tid s"
    and cnt: "count_list (todo fs s) ConnectDestroyed = 0"
    using ok by (auto simp: conn_ok_def fin_ok_def todo_def split: if_splits)
  obtain ok' ex fr reg sil w where v: "loop_view tid (tc_channel s) s = (ok', ex, fr, reg, sil, w)"
    by (metis surj_pair)
  with ok st en have "loop_view tid (tc_channel s) s = (True, True, fr, True, True, 0)"
    by (auto simp: conn_ok_def enlisted_def)
  from remove_view [OF this] obtain x y z s' fr' sil' where
    s': "channel_remove tid (tc_channel s) s = Inr s'" "s' = s\<lparr>chans := x, pollfds := y, channels := z\<rparr>"
      "loop_view tid (tc_channel s) s' = (True, True, fr', False, sil', 0)" by blast
  have ch: "tc_channel s' = tc_channel s" "tc_state s' = kDisconnected" using s'(2) st by simp_all
  have "\<not> enlisted tid s'" using s'(3) ch by (simp add: enlisted_def)
  moreover have "data_ok s'" using ok s'(2) by (simp add: conn_ok_def data_ok_def pending_out_def accepted_def)
  moreover have "todo fs s' = todo fs s" using s'(2) by (simp add: todo_def)
  ultimately have "conn_ok tid fs s'"
    using s'(3) ch cnt by (simp add: conn_ok_def fin_ok_def todo_def)
  with s'(1) ch \<open>\<not> enlisted tid s'\<close> show ?thesis by blast
qed

lemma connectDestroyed_conn:
  assumes ok: "conn_ok tid (ConnectDestroyed # fs) s"
  shows "\<exists>s'. connectDestroyed tid app s = Inr s' \<and> conn_ok tid fs s'"
proof -
  have "tc_state s = kDisconnected"
    using ok by (auto simp: conn_ok_def fin_ok_def todo_def split: if_splits)
  with remove_conn [OF ok] conn_thread(3) [OF ok] show ?thesis by (auto simp: connectDestroyed_def)
qed

text \<open>What the message callback may do, and reading.\<close>

definition app_ok :: "tcp_app \<Rightarrow> bool" where
  "app_ok app \<longleftrightarrow> (\<forall>s. fst (app_message app s) \<le> readableBytes (tc_inputBuffer s))"

lemma conn_input:
  "conn_ok tid fs s \<Longrightarrow> buffer_ok b \<Longrightarrow> conn_ok tid fs (s\<lparr>tc_inputBuffer := b\<rparr>)"
  by (simp add: conn_ok_def data_ok_def fin_ok_def todo_def pending_out_def accepted_def enlisted_def)

lemma handleRead_conn:
  assumes ok: "conn_ok tid fs s" and st: "tc_state s = kConnected \<or> tc_state s = kDisconnecting"
    and app: "app_ok app"
  shows "\<exists>s'. tcp_handleRead tid app io s = Inr s' \<and> conn_ok tid fs s'"
proof (cases io)
  case (ReadErr e)
  then show ?thesis
    using ok conn_thread(3) [OF ok] by (simp add: tcp_handleRead_def readFd_error handleError_def)
next
  case (Got data)
  have "buffer_ok (tc_inputBuffer s)" using ok by (simp add: conn_ok_def data_ok_def)
  from readFd_correct [OF this, of data] obtain b where
    b: "readFd (Got data) (tc_inputBuffer s) = Inr (int (length data), None, b)" "buffer_ok b" by blast
  let ?s = "s\<lparr>tc_inputBuffer := b\<rparr>"
  have ok': "conn_ok tid fs ?s" by (rule conn_input [OF ok b(2)])
  show ?thesis
  proof (cases "data = []")
    case True
    with Got b handleClose_conn [OF ok', of app] st conn_thread(3) [OF ok] show ?thesis
      by (simp add: tcp_handleRead_def)
  next
    case False
    obtain n cs where m: "app_message app ?s = (n, cs)" by fastforce
    have "fst (app_message app ?s) \<le> readableBytes (tc_inputBuffer ?s)" using app by (simp only: app_ok_def)
    then have "n \<le> readableBytes b" using m by simp
    from retrieve_correct [OF b(2) this] obtain b' where b': "retrieve n b = Inr b'" "buffer_ok b'" by blast
    from commands_conn [OF conn_input [OF ok b'(2)], of tid app cs] False Got b b' m conn_thread(3) [OF ok]
    show ?thesis by (simp add: tcp_handleRead_def messageCallback_def)
  qed
qed

text \<open>Queueing the write-complete callback.\<close>

lemma conn_complete:
  assumes "conn_ok tid fs s" and "tc_state s \<noteq> kConnecting"
  shows "conn_ok tid fs (if app_writeComplete app \<noteq> None then queueInLoop tid WriteComplete s else s)"
  using assms conn_queue [OF conn_add [OF assms(1), of WriteComplete], of tid] by simp

lemma queue_output [simp]: "tc_state (queueInLoop tid f s) = tc_state s"
  "tc_outputBuffer (queueInLoop tid f s) = tc_outputBuffer s" "tc_kernel (queueInLoop tid f s) = tc_kernel s"
  using queueInLoop_eq [of tid f s] by auto

lemma output_empty_conn:
  assumes view: "loop_view tid (tc_channel s) s = (True, True, fr, True, False, kReadEvent OR kWriteEvent)"
    and data: "data_ok s" and empty: "pending_out s = []"
    and st: "tc_state s = kConnected \<or> tc_state s = kDisconnecting"
    and fin: "fin_ok tid fs s0" "todo fs s = todo fs s0" "tc_state s = tc_state s0" "\<not> tc_fin s"
  shows "\<exists>s'. output_empty tid app s = Inr s' \<and> conn_ok tid fs s' \<and> same_output s s'"
proof -
  from update_view [OF view, of "\<lambda>e. e AND NOT kWriteEvent"] obtain x y z u fr' where
    u: "disableWriting tid (tc_channel s) s = Inr u" "u = s\<lparr>chans := x, pollfds := y, channels := z\<rparr>"
      "loop_view tid (tc_channel s) u = (True, True, fr', True, False, kReadEvent)"
    by (auto simp: disableWriting_def)
  have same: "tc_channel u = tc_channel s" "tc_state u = tc_state s" "\<not> tc_fin u"
    "pending_out u = []" "todo fs u = todo fs s0" "data_ok u"
    using u(2) empty data fin by (simp_all add: pending_out_def todo_def data_ok_def accepted_def)
  let ?fs = "if tc_state s = kDisconnecting then ShutdownInLoop # fs else fs"
  have "link_ok (tc_state u) (pending_out u = []) (loop_view tid (tc_channel u) u)"
    using st u(3) same by auto
  moreover have "fin_ok tid ?fs u"
  proof -
    have td: "todo (ShutdownInLoop # fs) u = ShutdownInLoop # todo fs s0"
      using same(5) by (simp add: todo_def)
    have st0: "tc_state u = tc_state s0" using same(2) fin(3) by simp
    show ?thesis
      using st fin(1) same(3) unfolding fin(3) by (elim disjE) (simp_all add: fin_ok_def td same(4,5) st0)
  qed
  ultimately have ok: "conn_ok tid ?fs u" using same by (simp add: conn_ok_def)
  let ?v = "if app_writeComplete app \<noteq> None then queueInLoop tid WriteComplete u else u"
  have "tc_state u \<noteq> kConnecting" using st same(2) by auto
  from conn_complete [OF ok this] have v: "conn_ok tid ?fs ?v" .
  have "same_output u ?v" by (cases "app_writeComplete app") (simp_all add: same_output_def)
  then have keep: "same_output s ?v" using u(2) by (simp add: same_output_def)
  then have stv: "tc_state ?v = tc_state s" by (simp only: same_output_def)
  have run: "output_empty tid app s = (if tc_state ?v = kDisconnecting then shutdownInLoop tid ?v else Inr ?v)"
    using u(1) by (simp only: output_empty_def rbind_Inr Let_def)
  show ?thesis
  proof (cases "tc_state s = kDisconnecting")
    case True
    with v have "conn_ok tid (ShutdownInLoop # fs) ?v" by (simp only: if_True simp_thms)
    from shutdownInLoop_conn [OF this] obtain w where
      "shutdownInLoop tid ?v = Inr w" "conn_ok tid fs w" "same_output ?v w" by blast
    moreover from this(3) keep have "same_output s w" by (simp only: same_output_def)
    ultimately show ?thesis using run True stv by (simp only: if_True simp_thms) blast
  next
    case False
    with v have "conn_ok tid fs ?v" by (simp only: if_False)
    with run False stv keep show ?thesis by (simp only: if_False simp_thms) blast
  qed
qed

lemma idle_not_writing:
  assumes ok: "conn_ok tid fs s" and "tc_state s = kDisconnected \<or> tc_state s = kConnecting"
    and c: "chans s (tc_channel s) = Some c"
  shows "\<not> isWriting c"
proof -
  obtain ok' ex fr reg sil w where v: "loop_view tid (tc_channel s) s = (ok', ex, fr, reg, sil, w)"
    by (metis surj_pair)
  with assms have "w = 0" by (auto simp: conn_ok_def)
  with v c have "ch_events c = 0" by (auto simp: loop_view_def interest_def)
  then show ?thesis by (simp add: isWriting_def)
qed

lemma kernel_took:
  assumes "data_ok s" and "\<not> tc_fin s" and "sys_write (pending_out s) s = (Wrote n, u)"
  shows "n \<le> length (pending_out s) \<and> u = s\<lparr>tc_writes := tc_writes s + 1, tc_out := tc_out s @ take n (pending_out s)\<rparr>"
  using assms by (auto simp: sys_write_def Let_def data_ok_def tcp_kernel_ok_def)

lemma conn_written:
  assumes ok: "conn_ok tid fs s" and b: "buffer_ok b" "contents b = drop n (pending_out s)" "contents b \<noteq> []"
  shows "conn_ok tid fs (s\<lparr>tc_writes := k, tc_out := tc_out s @ take n (pending_out s), tc_outputBuffer := b\<rparr>)"
proof -
  have ne: "(pending_out s = []) = False" using b by auto
  then show ?thesis
    using ok b unfolding conn_ok_def ne by (auto simp: data_ok_def fin_ok_def todo_def pending_out_def accepted_def enlisted_def)
qed

lemma conn_retry:
  "conn_ok tid fs s \<Longrightarrow> conn_ok tid fs (s\<lparr>tc_writes := k\<rparr>)"
  by (simp add: conn_ok_def data_ok_def fin_ok_def todo_def pending_out_def accepted_def enlisted_def)

lemma output_written_conn:
  assumes ok: "conn_ok tid fs s" and st: "tc_state s = kConnected \<or> tc_state s = kDisconnecting"
    and ne: "pending_out s \<noteq> []" and n: "n \<le> length (pending_out s)"
  shows "\<exists>s'. output_written tid app n (s\<lparr>tc_writes := k, tc_out := tc_out s @ take n (pending_out s)\<rparr>) = Inr s' \<and>
    conn_ok tid fs s' \<and> pending_out s' = drop n (pending_out s) \<and> tc_state s' = tc_state s \<and> tc_kernel s' = tc_kernel s"
proof -
  let ?u = "s\<lparr>tc_writes := k, tc_out := tc_out s @ take n (pending_out s)\<rparr>"
  have data: "data_ok s" and buf: "buffer_ok (tc_outputBuffer s)" and fin: "fin_ok tid fs s"
    using ok by (simp_all add: conn_ok_def data_ok_def)
  have view: "open_view tid s (pending_out s = [])" using ok link_open [OF st] by (simp add: conn_ok_def)
  have nofin: "\<not> tc_fin s" using fin st ne by (auto simp: fin_ok_def)
  have "n \<le> readableBytes (tc_outputBuffer s)" using n length_contents [OF buf] by (simp add: pending_out_def)
  from retrieve_correct [OF buf this] obtain b where
    b: "retrieve n (tc_outputBuffer s) = Inr b" "buffer_ok b" "contents b = drop n (pending_out s)"
    by (auto simp: pending_out_def)
  define v where "v = ?u\<lparr>tc_outputBuffer := b\<rparr>"
  have run: "output_written tid app n ?u = (if contents b = [] then output_empty tid app v else Inr v)"
  proof -
    have "readableBytes b = 0 \<longleftrightarrow> contents b = []" using length_contents [OF b(2)] by (metis length_0_conv)
    with b(1) show ?thesis by (simp add: output_written_def v_def Let_def)
  qed
  show ?thesis
  proof (cases "contents b = []")
    case False
    with conn_written [OF ok b(2,3)] run b(3) show ?thesis by (simp add: v_def pending_out_def)
  next
    case True
    have "loop_view tid (tc_channel v) v = loop_view tid (tc_channel s) s" by (simp add: v_def)
    with view ne obtain fr where
      vv: "loop_view tid (tc_channel v) v = (True, True, fr, True, False, kReadEvent OR kWriteEvent)" by auto
    have dv: "data_ok v" using data b n True by (auto simp: v_def data_ok_def pending_out_def accepted_def)
    have "pending_out v = []" "tc_state v = kConnected \<or> tc_state v = kDisconnecting"
      "todo fs v = todo fs s" "tc_state v = tc_state s" "\<not> tc_fin v"
      using True st nofin by (simp_all add: v_def pending_out_def todo_def)
    note this(1,2) fin this(3-5)
    from output_empty_conn [OF vv dv this, of app] run True b(3) show ?thesis
      by (auto simp: same_output_def v_def pending_out_def)
  qed
qed

lemma handleWrite_conn:
  assumes ok: "conn_ok tid fs s"
  shows "\<exists>s'. tcp_handleWrite tid app s = Inr s' \<and> conn_ok tid fs s'"
proof -
  from conn_thread [OF ok] obtain c where c: "chans s (tc_channel s) = Some c"
    and here: "assertInLoopThread tid s = Inr ()" by blast
  show ?thesis
  proof (cases "isWriting c")
    case False
    with ok c here show ?thesis by (simp add: tcp_handleWrite_def)
  next
    case True
    then have st': "tc_state s = kConnected \<or> tc_state s = kDisconnecting"
      using idle_not_writing [OF ok _ c] by (cases "tc_state s") auto
    have "open_view tid s (pending_out s = [])" using ok link_open [OF st'] by (simp add: conn_ok_def)
    from open_channel [OF this] c True have ne: "pending_out s \<noteq> []" by auto
    have data: "data_ok s" using ok by (simp add: conn_ok_def)
    have nofin: "\<not> tc_fin s" using ok st' ne by (auto simp: conn_ok_def fin_ok_def)
    obtain r u where sys: "sys_write (pending_out s) s = (r, u)" by fastforce
    have run: "tcp_handleWrite tid app s = (case r of WriteErr e \<Rightarrow> Inr u
       | Wrote n \<Rightarrow> if n > 0 then output_written tid app n u else Inr u)"
      using here c True sys by (simp add: tcp_handleWrite_def pending_out_def)
    show ?thesis
    proof (cases r)
      case (WriteErr e)
      with sys have "u = s\<lparr>tc_writes := tc_writes s + 1\<rparr>" by (auto simp: sys_write_def Let_def)
      with run WriteErr conn_retry [OF ok] show ?thesis by simp
    next
      case (Wrote n)
      with kernel_took [OF data nofin] sys have n: "n \<le> length (pending_out s)"
        and u: "u = s\<lparr>tc_writes := tc_writes s + 1, tc_out := tc_out s @ take n (pending_out s)\<rparr>" by auto
      show ?thesis
      proof (cases "n = 0")
        case True
        with u have "u = s\<lparr>tc_writes := tc_writes s + 1\<rparr>" by simp
        with run Wrote True conn_retry [OF ok] show ?thesis by simp
      next
        case False
        with run Wrote output_written_conn [OF ok st' ne n] u show ?thesis by auto
      qed
    qed
  qed
qed

section \<open>Establishing a connection\<close>

lemma tie_view:
  fixes s :: TcpConnection
  assumes "loop_view tid a s = (True, True, v)"
  shows "\<exists>c. tie a s = Inr (s\<lparr>chans := (chans s)(a \<mapsto> c)\<rparr>) \<and>
    loop_view tid a (s\<lparr>chans := (chans s)(a \<mapsto> c)\<rparr>) = loop_view tid a s"
proof -
  from view_exists [OF assms] obtain c where c: "chans s a = Some c" by blast
  let ?c = "c\<lparr>ch_tied := True\<rparr>"
  let ?s = "s\<lparr>chans := (chans s)(a \<mapsto> ?c)\<rparr>"
  have ok: "loop_ok tid s" using assms by (simp add: loop_view_def)
  have pok: "poller_ok s" using ok by (simp add: loop_ok_def)
  have "entry_ok ?s f b" if "channels s f = Some b" for f b
    using channels_entry [OF pok that] c by (auto simp: entry_ok_def)
  moreover have "\<exists>b d. channels ?s (owner (pollfds s ! i)) = Some b \<and> chans ?s b = Some d \<and> ch_index d = int i"
    if "i < length (pollfds s)" for i
    using entry_channel [OF pok that] c by fastforce
  ultimately have pok': "poller_ok ?s" by (simp add: poller_ok_def)
  have reg: "registered b ?s = registered b s" for b using c by (auto simp: registered_def)
  have wat: "watch ?s = watch s" using c by (auto simp: watch_def fun_eq_iff split: option.split)
  have "loop_ok tid ?s" using ok pok' c by (auto simp: loop_ok_def reg wat)
  moreover have "fresh a ?s = fresh a s" "interest a ?s = interest a s" "silenced a ?s = silenced a s"
    "removable a ?s = removable a s" "chan_base a ?s \<noteq> None"
    using c by (simp_all add: fresh_def interest_def silenced_def muted_def wat reg removable_def
        chan_base_def forget_events_def)
  ultimately have "loop_view tid a ?s = loop_view tid a s"
    using assms reg by (auto simp: loop_view_def)
  with c show ?thesis by (auto simp: tie_def)
qed

lemma connectEstablished_conn:
  assumes ok: "conn_ok tid [] s" and st: "tc_state s = kConnecting"
  shows "\<exists>s'. connectEstablished tid app s = Inr s' \<and> conn_ok tid [] s' \<and>
    (tc_state s' = kConnected \<or> tc_state s' = kDisconnecting)"
proof -
  let ?s = "s\<lparr>tc_state := kConnected\<rparr>"
  obtain ok' ex fr reg sil w where v0: "loop_view tid (tc_channel s) s = (ok', ex, fr, reg, sil, w)"
    by (metis surj_pair)
  with ok st have v: "loop_view tid (tc_channel s) ?s = (True, True, True, False, False, 0)"
    and empty: "pending_out s = []" by (auto simp: conn_ok_def)
  from tie_view [OF v] obtain c where
    t: "tie (tc_channel s) ?s = Inr (?s\<lparr>chans := (chans s)(tc_channel s \<mapsto> c)\<rparr>)"
    "loop_view tid (tc_channel s) (?s\<lparr>chans := (chans s)(tc_channel s \<mapsto> c)\<rparr>) =
      (True, True, True, False, False, 0)" using v by auto
  let ?t = "?s\<lparr>chans := (chans s)(tc_channel s \<mapsto> c)\<rparr>"
  from update_view [OF t(2), of "\<lambda>e. e OR kReadEvent"] obtain x y z u fr' where
    u: "enableReading tid (tc_channel s) ?t = Inr u" "u = ?t\<lparr>chans := x, pollfds := y, channels := z\<rparr>"
      "loop_view tid (tc_channel s) u = (True, True, fr', True, False, kReadEvent)"
    by (auto simp: enableReading_def)
  have same: "tc_channel u = tc_channel s" "tc_state u = kConnected" "tc_fin u = tc_fin s"
    "pending_out u = []" "todo [] u = []" "data_ok u"
    using u(2) empty ok st by (simp_all add: conn_ok_def fin_ok_def pending_out_def todo_def data_ok_def accepted_def)
  have "conn_ok tid [] u"
    using u(3) same ok st by (simp add: conn_ok_def fin_ok_def)
  with connectionCallback_conn [OF this, of tid app] callback_state [OF this, of tid app] same(2)
  obtain s' where "connectionCallback tid app u = Inr s'" "conn_ok tid [] s'"
    "tc_state s' = kConnected \<or> tc_state s' = kDisconnecting" by (auto simp: may_shut_def)
  with t(1) u(1) st conn_thread(3) [OF ok] show ?thesis
    by (simp add: connectEstablished_def Let_def)
qed

section \<open>Any traffic\<close>

datatype tcp_event =
  Establish
| Call int tcp_command \<comment> \<open>a thread calls \<open>send\<close> or \<open>shutdown\<close>\<close>
| Functors \<comment> \<open>the loop runs its functors\<close>
| Ready "32 word" io_read \<comment> \<open>\<open>poll\<close> reports events; what \<open>readv\<close> then returns\<close>

text \<open>
  \<open>poll\<close> reports a channel only while it is registered and not silenced; the callbacks it then runs
  are \<open>fired r\<close>, in this order (see \<open>handleEvent_dispatch\<close>).
\<close>

definition tcp_step :: "int \<Rightarrow> tcp_app \<Rightarrow> tcp_event \<Rightarrow> TcpConnection \<Rightarrow> TcpConnection result" where
  "tcp_step tid app ev s = (case ev of
     Establish \<Rightarrow> if tc_state s = kConnecting then connectEstablished tid app s else Inr s
   | Call t c \<Rightarrow> run_tcp_command t app c s
   | Functors \<Rightarrow> doPendingFunctors (run_tcp tid app) s
   | Ready r io \<Rightarrow> if registered (tc_channel s) s \<and> \<not> silenced (tc_channel s) s
       then rfold (conn_callback tid app io) (fired r) s else Inr s)"

text \<open>A hang-up without input comes without the other reading events.\<close>

definition ready_ok :: "tcp_event \<Rightarrow> bool" where
  "ready_ok ev = (case ev of Ready r io \<Rightarrow> \<not> (CloseCB \<in> set (fired r) \<and> ReadCB \<in> set (fired r)) | _ \<Rightarrow> True)"

lemma run_tcp_conn:
  assumes ok: "conn_ok tid (f # fs) s"
  shows "\<exists>s'. run_tcp tid app f s = Inr s' \<and> conn_ok tid fs s'"
proof (cases f)
  case (SendInLoop msg)
  with conn_drop [OF ok] have "conn_ok tid fs s" "tc_state s \<noteq> kConnecting" by simp_all
  from sendInLoop_conn [OF this] SendInLoop show ?thesis by (auto simp: run_tcp_def)
next
  case ShutdownInLoop
  with shutdownInLoop_conn [of tid fs s] ok show ?thesis by (auto simp: run_tcp_def)
next
  case WriteComplete
  with conn_drop [OF ok] have "conn_ok tid fs s" by simp
  with commands_conn [OF this] WriteComplete show ?thesis
    by (cases "app_writeComplete app") (simp_all add: run_tcp_def)
next
  case (HighWaterMark n)
  with conn_drop [OF ok] have "conn_ok tid fs s" by simp
  with commands_conn [OF this] HighWaterMark show ?thesis
    by (cases "app_highWaterMark app") (simp_all add: run_tcp_def)
next
  case ConnectDestroyed
  with connectDestroyed_conn [of tid fs s] ok show ?thesis by (simp add: run_tcp_def)
qed

lemma functors_conn:
  "conn_ok tid fs s \<Longrightarrow> \<exists>s'. rfold (run_tcp tid app) fs s = Inr s' \<and> conn_ok tid [] s'"
proof (induction fs arbitrary: s)
  case (Cons f fs)
  from run_tcp_conn [OF Cons.prems, of app] obtain u where "run_tcp tid app f s = Inr u" "conn_ok tid fs u" by blast
  with Cons.IH [of u] show ?case by simp
qed simp

lemma dispatch_conn:
  assumes ok: "conn_ok tid [] s" and st: "tc_state s = kConnected \<or> tc_state s = kDisconnecting"
    and app: "app_ok app" and r: "\<not> (CloseCB \<in> set (fired r) \<and> ReadCB \<in> set (fired r))"
  shows "\<exists>s'. rfold (conn_callback tid app io) (fired r) s = Inr s' \<and> conn_ok tid [] s'"
proof -
  have wr: "\<exists>s'. rfold (conn_callback tid app io) (if b then [WriteCB] else []) u = Inr s' \<and> conn_ok tid [] s'"
    if "conn_ok tid [] u" for u b
    using handleWrite_conn [OF that, of app] that by (cases b) (auto simp: conn_callback_def)
  have "\<exists>u. rfold (conn_callback tid app io) (if CloseCB \<in> set (fired r) then [CloseCB] else
      if ReadCB \<in> set (fired r) then [ReadCB] else []) s = Inr u \<and> conn_ok tid [] u"
    using handleClose_conn [OF ok st, of app] handleRead_conn [OF ok st app, of io] ok
    by (auto simp: conn_callback_def)
  then obtain u where u: "rfold (conn_callback tid app io) (if CloseCB \<in> set (fired r) then [CloseCB] else
      if ReadCB \<in> set (fired r) then [ReadCB] else []) s = Inr u" "conn_ok tid [] u" by blast
  define first where "first = (if bit r 4 \<and> \<not> bit r 0 then [CloseCB] else []) @
    (if bit r 5 \<or> bit r 3 then [ErrorCB] else []) @ (if bit r 0 \<or> bit r 1 \<or> bit r 13 then [ReadCB] else [])"
  have "fired r = first @ (if bit r 2 then [WriteCB] else [])" by (simp only: fired_def first_def append_assoc)
  moreover have "rfold (conn_callback tid app io) [ErrorCB] = Inr"
    by (rule ext) (simp add: conn_callback_def handleError_def)
  then have "rfold (conn_callback tid app io) first s = rfold (conn_callback tid app io)
      (if CloseCB \<in> set (fired r) then [CloseCB] else if ReadCB \<in> set (fired r) then [ReadCB] else []) s"
    using r by (auto simp: fired_def first_def conn_callback_def handleError_def [abs_def] simp del: rfold.simps(2))
      (auto simp: conn_callback_def handleError_def)
  ultimately have "rfold (conn_callback tid app io) (fired r) s =
      rbind (rfold (conn_callback tid app io) (if CloseCB \<in> set (fired r) then [CloseCB] else
        if ReadCB \<in> set (fired r) then [ReadCB] else []) s)
       (rfold (conn_callback tid app io) (if bit r 2 then [WriteCB] else []))"
    by (simp only: rfold_append)
  with u wr [OF u(2), of "bit r 2"] show ?thesis by simp
qed

lemma tcp_step_conn:
  assumes ok: "conn_ok tid [] s" and app: "app_ok app" and ev: "ready_ok ev"
  shows "\<exists>s'. tcp_step tid app ev s = Inr s' \<and> conn_ok tid [] s'"
proof (cases ev)
  case Establish
  with connectEstablished_conn [OF ok, of app] ok show ?thesis by (auto simp: tcp_step_def)
next
  case (Call t c)
  with command_conn [OF ok, of t app c] show ?thesis by (simp add: tcp_step_def)
next
  case Functors
  let ?s = "s\<lparr>el_callingPendingFunctors := True, el_pendingFunctors := []\<rparr>"
  have "conn_ok tid (el_pendingFunctors s) ?s"
    using ok by (simp add: conn_ok_def data_ok_def fin_ok_def todo_def pending_out_def accepted_def enlisted_def)
  from functors_conn [OF this, of app] obtain u where
    "rfold (run_tcp tid app) (el_pendingFunctors s) ?s = Inr u" "conn_ok tid [] u" by blast
  moreover have "conn_ok tid [] (u\<lparr>el_callingPendingFunctors := False\<rparr>)"
    using calculation(2) by (simp add: conn_ok_def data_ok_def fin_ok_def todo_def pending_out_def accepted_def enlisted_def)
  ultimately show ?thesis using Functors by (simp add: tcp_step_def doPendingFunctors_def swap_functors_def)
next
  case (Ready r io)
  show ?thesis
  proof (cases "registered (tc_channel s) s \<and> \<not> silenced (tc_channel s) s")
    case True
    then have "tc_state s = kConnected \<or> tc_state s = kDisconnecting"
      using ok by (cases "tc_state s") (auto simp: conn_ok_def loop_view_def)
    from dispatch_conn [OF ok this app] ev Ready True show ?thesis by (simp add: tcp_step_def ready_ok_def)
  next
    case False
    then have "tcp_step tid app ev s = Inr s" unfolding tcp_step_def Ready tcp_event.case by (rule if_not_P)
    with ok show ?thesis by simp
  qed
qed

section \<open>Examples\<close>

text \<open>A new connection, and one that is shutting down with five bytes still to write.\<close>

definition example_kernel :: "nat \<Rightarrow> bool \<Rightarrow> nat \<Rightarrow> write_result" where
  "example_kernel i fin len = (if fin then WriteErr EPIPE else Wrote (min len 2))"

definition hello_buffer :: Buffer where
  "hello_buffer = \<lparr>buffer = replicate 8 (CHR ''-'') @ ''hello'', readerIndex = 8, writerIndex = 13\<rparr>"

definition idle_conn :: TcpConnection where
  "idle_conn = \<lparr>chans = [20 \<mapsto> new_channel 1 9], pollfds = [], channels = (\<lambda>_. None), el_self = 1,
     el_looping = False, el_quit = False, el_eventHandling = False, el_callingPendingFunctors = False,
     el_threadId = 77, el_pollReturnTime = 0, el_activeChannels = [], el_currentActiveChannel = None,
     el_pendingFunctors = [], el_wakeups = 0,
     tc_name = ''example'', tc_state = kConnecting, tc_channel = 20, tc_highWaterMark = 64 * 1024 * 1024,
     tc_inputBuffer = new_buffer, tc_outputBuffer = new_buffer, tc_kernel = example_kernel,
     tc_writes = 0, tc_out = [], tc_fin = False, tc_sent = [], tc_ups = []\<rparr>"

definition closing_conn :: TcpConnection where
  "closing_conn = idle_conn\<lparr>chans := [20 \<mapsto> (new_channel 1 9)\<lparr>ch_events := kReadEvent OR kWriteEvent, ch_index := 0\<rparr>],
     pollfds := [\<lparr>pfd_fd = 9, pfd_events = 7, pfd_revents = 0\<rparr>], channels := [9 \<mapsto> 20],
     tc_state := kDisconnecting, tc_outputBuffer := hello_buffer, tc_sent := [(''hello'', True)]\<rparr>"

definition echo_app :: tcp_app where
  "echo_app = \<lparr>app_connection = (\<lambda>s. []), app_message = (\<lambda>s. (readableBytes (tc_inputBuffer s),
     [Send (contents (tc_inputBuffer s)), Shutdown])), app_writeComplete = None, app_highWaterMark = None\<rparr>"

lemma example_kernel_ok: "tcp_kernel_ok example_kernel"
  by (auto simp: tcp_kernel_ok_def example_kernel_def)

lemma echo_app_ok: "app_ok echo_app"
  by (simp add: app_ok_def echo_app_def)

lemma idle_conn_ok: "conn_ok 77 [] idle_conn"
proof -
  have "loop_ok 77 idle_conn" using loop_ok_empty [of idle_conn] by (simp add: idle_conn_def)
  then have "loop_view 77 20 idle_conn = (True, True, True, False, False, 0)"
    by (simp add: loop_view_def) (simp add: idle_conn_def removable_def chan_base_def forget_events_def fresh_def
        new_channel_def registered_def silenced_def interest_def)
  moreover have "tc_state idle_conn = kConnecting" "tc_channel idle_conn = 20" "pending_out idle_conn = []"
    by (simp_all add: idle_conn_def pending_out_def)
  moreover have "data_ok idle_conn" "fin_ok 77 [] idle_conn"
    by (simp_all add: data_ok_def fin_ok_def idle_conn_def pending_out_def accepted_def example_kernel_ok todo_def)
  ultimately show ?thesis by (simp add: conn_ok_def)
qed

lemma hello_buffer_ok: "buffer_ok hello_buffer" "contents hello_buffer = ''hello''"
  by (simp_all add: hello_buffer_def buffer_ok_def contents_def bytes_at_def kCheapPrepend_def)

lemma closing_conn_ok: "conn_ok 77 [] closing_conn"
proof -
  have seven: "ucast (kReadEvent OR kWriteEvent) = (7 :: 16 word)"
    by (simp add: kReadEvent_def kWriteEvent_def poll_consts)
  have "poller_ok closing_conn"
    by (auto simp: poller_defs closing_conn_def new_channel_def owner_def)
  then have "loop_ok 77 closing_conn"
    by (auto simp: loop_ok_def) (auto simp: closing_conn_def idle_conn_def registered_def new_channel_def watch_def Let_def seven split: if_splits)
  then have "loop_view 77 20 closing_conn = (True, True, fresh 20 closing_conn, True, False, kReadEvent OR kWriteEvent)"
    by (simp add: loop_view_def) (simp add: closing_conn_def idle_conn_def removable_def chan_base_def forget_events_def
        new_channel_def registered_def silenced_def interest_def muted_def watch_def Let_def)
  moreover have "tc_state closing_conn = kDisconnecting" "tc_channel closing_conn = 20"
    "pending_out closing_conn = ''hello''"
    by (simp_all add: closing_conn_def idle_conn_def pending_out_def hello_buffer_ok)
  moreover from this have "data_ok closing_conn" "fin_ok 77 [] closing_conn"
    by (simp_all add: data_ok_def fin_ok_def accepted_def todo_def)
      (simp_all add: closing_conn_def idle_conn_def hello_buffer_ok example_kernel_ok)
  ultimately show ?thesis by (simp add: conn_ok_def)
qed

section \<open>Properties\<close>

lemma tcp_run_conn:
  assumes "conn_ok tid [] s" and "app_ok app" and "list_all ready_ok evs"
  shows "\<exists>s'. rfold (tcp_step tid app) evs s = Inr s' \<and> conn_ok tid [] s'"
  using assms(1)
proof (rule rfold_total)
  fix ev u
  assume "ev \<in> set evs" and u: "conn_ok tid [] u"
  with assms(3) have "ready_ok ev" by (auto simp: list_all_iff)
  with tcp_step_conn [OF u assms(2)] show "\<exists>t. tcp_step tid app ev u = Inr t \<and> conn_ok tid [] t" by blast
qed

lemma conn_closed:
  assumes "conn_ok tid [] s" and "tc_state s = kDisconnected" and "el_pendingFunctors s = []"
  shows "\<not> registered (tc_channel s) s"
  using assms by (auto simp: conn_ok_def fin_ok_def todo_def enlisted_def loop_view_def)





text \<open>
  C25. \<open>sendInLoop\<close> takes a message as a whole or not at all, and refuses one only on a closed
  connection or when the kernel answers \<open>EPIPE\<close> to the direct write.
\<close>

theorem send_all_or_nothing:
  assumes "conn_ok tid [] s" and "tc_state s \<noteq> kConnecting"
  shows "\<exists>s' acc. sendInLoop tid app msg s = Inr s' \<and>
    tc_out s' @ pending_out s' = tc_out s @ pending_out s @ (if acc then msg else []) \<and>
    (\<not> acc \<longrightarrow> tc_state s = kDisconnected \<or>
       tc_kernel s (tc_writes s) (tc_fin s) (length msg) = WriteErr EPIPE)"
proof -
  from sendInLoop_conn [OF assms, of app msg] obtain s' acc where s': "sendInLoop tid app msg s = Inr s'"
    "conn_ok tid [] s'" "tc_sent s' = tc_sent s @ [(msg, acc)]"
    "\<not> acc \<longrightarrow> tc_state s = kDisconnected \<or> tc_kernel s (tc_writes s) (tc_fin s) (length msg) = WriteErr EPIPE"
    by blast
  moreover have "tc_out s' @ pending_out s' = tc_out s @ pending_out s @ (if acc then msg else [])"
    using assms(1) s'(2,3) by (simp add: conn_ok_def data_ok_def accepted_def)
  ultimately show ?thesis by blast
qed

theorem send_all_or_nothing_witness:
  "\<exists>s' acc. sendInLoop 77 echo_app ''!!'' closing_conn = Inr s' \<and>
    tc_out s' @ pending_out s' = ''hello'' @ (if acc then ''!!'' else [])"
proof -
  have "tc_state closing_conn \<noteq> kConnecting" "tc_out closing_conn = []" "pending_out closing_conn = ''hello''"
    by (simp_all add: closing_conn_def idle_conn_def pending_out_def hello_buffer_ok)
  note conn = this
  show ?thesis
    using send_all_or_nothing [OF closing_conn_ok conn(1), of echo_app "''!!''"]
    unfolding conn(2,3) append_Nil by blast
qed

lemma drain_step:
  assumes ok: "conn_ok tid [] s" and st: "tc_state s = kConnected \<or> tc_state s = kDisconnecting"
    and prog: "\<And>i len. 0 < len \<Longrightarrow> \<exists>n>0. tc_kernel s i False len = Wrote n"
  shows "\<exists>s'. tcp_handleWrite tid app s = Inr s' \<and> conn_ok tid [] s' \<and> tc_state s' = tc_state s \<and>
    tc_kernel s' = tc_kernel s \<and> length (pending_out s') \<le> length (pending_out s) - 1"
proof -
  from conn_thread [OF ok] obtain c where c: "chans s (tc_channel s) = Some c"
    and here: "assertInLoopThread tid s = Inr ()" by blast
  have view: "open_view tid s (pending_out s = [])" using ok link_open [OF st] by (simp add: conn_ok_def)
  from open_channel [OF view] c have wr: "isWriting c \<longleftrightarrow> pending_out s \<noteq> []" by auto
  show ?thesis
  proof (cases "pending_out s = []")
    case True
    with ok c here wr show ?thesis by (simp add: tcp_handleWrite_def)
  next
    case False
    have data: "data_ok s" using ok by (simp add: conn_ok_def)
    have nofin: "\<not> tc_fin s" using ok st False by (auto simp: conn_ok_def fin_ok_def)
    from prog [of "length (pending_out s)" "tc_writes s"] False obtain n where
      n: "0 < n" "tc_kernel s (tc_writes s) False (length (pending_out s)) = Wrote n" by auto
    obtain r u where sys: "sys_write (pending_out s) s = (r, u)" by fastforce
    with n nofin have "r = Wrote n" by (simp add: sys_write_def Let_def)
    with kernel_took [OF data nofin] sys have le: "n \<le> length (pending_out s)"
      and u: "u = s\<lparr>tc_writes := tc_writes s + 1, tc_out := tc_out s @ take n (pending_out s)\<rparr>" by auto
    have "tcp_handleWrite tid app s = output_written tid app n u"
      using here c wr False sys \<open>r = Wrote n\<close> n by (simp add: tcp_handleWrite_def pending_out_def)
    with output_written_conn [OF ok st False le, of app "tc_writes s + 1"] u n(1) show ?thesis
      by (auto intro: diff_le_mono2)
  qed
qed

lemma drain_steps:
  assumes "conn_ok tid [] s" and "tc_state s = kConnected \<or> tc_state s = kDisconnecting"
    and "\<And>i len. 0 < len \<Longrightarrow> \<exists>n>0. tc_kernel s i False len = Wrote n"
    and "length (pending_out s) \<le> k"
  shows "\<exists>s'. rfold (\<lambda>_. tcp_handleWrite tid app) (replicate k ()) s = Inr s' \<and> conn_ok tid [] s' \<and>
    tc_state s' = tc_state s \<and> pending_out s' = []"
  using assms
proof (induction k arbitrary: s)
  case (Suc k)
  from drain_step [OF Suc.prems(1-3)] obtain u where
    u: "tcp_handleWrite tid app s = Inr u" "conn_ok tid [] u" "tc_state u = tc_state s"
    "tc_kernel u = tc_kernel s" "length (pending_out u) \<le> length (pending_out s) - 1" by blast
  with Suc.IH [of u] Suc.prems(2-4) show ?case by auto
qed simp

text \<open>
  C26. Output drains: if every \<open>write\<close> takes at least one byte, as many writable events as bytes are
  pending empty the output buffer, and a connection that is shutting down then sends its FIN.
\<close>

theorem output_drains:
  assumes "conn_ok tid [] s" and "tc_state s = kConnected \<or> tc_state s = kDisconnecting"
    and "\<And>i len. 0 < len \<Longrightarrow> \<exists>n>0. tc_kernel s i False len = Wrote n"
  shows "\<exists>s'. rfold (\<lambda>_. tcp_handleWrite tid app) (replicate (length (pending_out s)) ()) s = Inr s' \<and>
    pending_out s' = [] \<and> tc_out s' = concat (map fst (filter snd (tc_sent s'))) \<and>
    (tc_state s' = kDisconnecting \<longrightarrow> tc_fin s' \<or> ShutdownInLoop \<in> set (el_pendingFunctors s'))"
proof -
  from drain_steps [OF assms order_refl, of app] obtain s' where
    s': "rfold (\<lambda>_. tcp_handleWrite tid app) (replicate (length (pending_out s)) ()) s = Inr s'"
      "conn_ok tid [] s'" "pending_out s' = []" by blast
  moreover have "tc_out s' = concat (map fst (filter snd (tc_sent s')))"
    using s'(2,3) by (simp add: conn_ok_def data_ok_def accepted_def)
  moreover have "tc_state s' = kDisconnecting \<longrightarrow> tc_fin s' \<or> ShutdownInLoop \<in> set (el_pendingFunctors s')"
    using s'(2,3) by (auto simp: conn_ok_def fin_ok_def todo_def)
  ultimately show ?thesis by blast
qed

theorem output_drains_witness:
  "\<exists>s'. rfold (\<lambda>_. tcp_handleWrite 77 echo_app) (replicate 5 ()) closing_conn = Inr s' \<and> pending_out s' = []"
proof -
  have st: "tc_state closing_conn = kConnected \<or> tc_state closing_conn = kDisconnecting"
    and out: "length (pending_out closing_conn) = 5"
    by (simp_all add: closing_conn_def idle_conn_def pending_out_def hello_buffer_ok)
  have "\<exists>n>0. tc_kernel closing_conn i False len = Wrote n" if "0 < len" for i len
    using that by (intro exI [of _ "min len 2"]) (simp add: closing_conn_def idle_conn_def example_kernel_def)
  from output_drains [OF closing_conn_ok st this, of echo_app] show ?thesis unfolding out by blast
qed

text \<open>
  Defect: a connection that is shutting down cannot be destroyed. \<open>connectDestroyed\<close>, which
  \<open>~TcpServer\<close> calls for every connection, disables the channel only in state \<open>kConnected\<close>; after
  \<open>shutdown()\<close>, while the peer has not closed yet, \<open>Channel::remove\<close> finds the channel still
  interested and its assertion fails. In state \<open>kConnected\<close> it succeeds.
\<close>

theorem connectDestroyed_open:
  assumes ok: "conn_ok tid [] s" and st: "tc_state s = kConnected \<or> tc_state s = kDisconnecting"
  shows "if tc_state s = kDisconnecting then connectDestroyed tid app s = Inl (Assertion ''isNoneEvent()'')
    else \<exists>s'. connectDestroyed tid app s = Inr s' \<and> \<not> registered (tc_channel s') s'"
proof (cases "tc_state s = kDisconnecting")
  case True
  have "open_view tid s (pending_out s = [])" using ok link_open [OF st] by (simp add: conn_ok_def)
  from open_channel [OF this] obtain c where c: "chans s (tc_channel s) = Some c"
    "ch_events c = (if pending_out s = [] then kReadEvent else kReadEvent OR kWriteEvent)" by blast
  then have "\<not> isNoneEvent c" by (simp add: isNoneEvent_def kNoneEvent_def)
  with True c(1) conn_thread(3) [OF ok] show ?thesis by (simp add: connectDestroyed_def channel_remove_def)
next
  case False
  with st have con: "tc_state s = kConnected" by simp
  from close_channel [OF ok st] obtain u where
    u: "disableAll tid (tc_channel s) (s\<lparr>tc_state := kDisconnected\<rparr>) = Inr u"
      "conn_ok tid [ConnectDestroyed] u" by blast
  from connectionCallback_conn [OF u(2)] obtain v where
    v: "connectionCallback tid app u = Inr v" "conn_ok tid [ConnectDestroyed] v" by blast
  from remove_conn [OF v(2)] obtain w where
    w: "channel_remove tid (tc_channel v) v = Inr w" "\<not> enlisted tid w" by blast
  from w(2) have "\<not> registered (tc_channel w) w" by (simp add: enlisted_def loop_view_def)
  with u(1) v(1) w(1) con conn_thread(3) [OF ok] show ?thesis
    by (simp add: connectDestroyed_def Let_def)
qed

theorem connectDestroyed_open_witness:
  "connectDestroyed 77 echo_app closing_conn = Inl (Assertion ''isNoneEvent()'')"
  using connectDestroyed_open [OF closing_conn_ok, of echo_app] by (simp add: closing_conn_def)

end
