(* ===== verification/HttpServer.thy ===== *)
theory HttpServer
  imports HttpRequest TcpConnection
begin

text \<open>
  \<open>muduo/net/http/HttpResponse.h\<close>, \<open>HttpResponse.cc\<close> and the handlers of \<open>HttpServer.cc\<close>. A handler's calls
  on the connection are the list of commands it gives; the user's \<open>HttpCallback\<close> is a function from the
  request and the response it is handed to the response it leaves.

  The status line is printed by \<open>snprintf\<close> with the format \<open>"HTTP/1.1 % "\<close>, whose conversion is invalid,
  into \<open>sizeof 32\<close> bytes, the size of an \<open>int\<close>. What the C library prints for the conversion is the
  parameter \<open>bad\<close>.
\<close>

section \<open>Responses\<close>

datatype HttpStatusCode = kUnknown | k200Ok | k301MovedPernanently | k400BadRequest | k404NotFound

record HttpResponse =
  rs_headers :: "(string \<times> string) list"
  rs_statusCode :: HttpStatusCode
  rs_statusMessage :: string
  rs_closeConnection :: bool
  rs_body :: string

definition new_HttpResponse :: "bool \<Rightarrow> HttpResponse" where
  "new_HttpResponse close = \<lparr>rs_headers = [], rs_statusCode = kUnknown, rs_statusMessage = [],
     rs_closeConnection = close, rs_body = []\<rparr>"

definition setStatusCode :: "HttpStatusCode \<Rightarrow> HttpResponse \<Rightarrow> HttpResponse" where
  "setStatusCode code r = r\<lparr>rs_statusCode := code\<rparr>"

definition setStatusMessage :: "string \<Rightarrow> HttpResponse \<Rightarrow> HttpResponse" where
  "setStatusMessage message r = r\<lparr>rs_statusMessage := message\<rparr>"

definition setCloseConnection :: "bool \<Rightarrow> HttpResponse \<Rightarrow> HttpResponse" where
  "setCloseConnection b r = r\<lparr>rs_closeConnection := b\<rparr>"

definition rs_addHeader :: "string \<Rightarrow> string \<Rightarrow> HttpResponse \<Rightarrow> HttpResponse" where
  "rs_addHeader key v r = r\<lparr>rs_headers := map_insert key v (rs_headers r)\<rparr>"

definition setContentType :: "string \<Rightarrow> HttpResponse \<Rightarrow> HttpResponse" where
  "setContentType contentType r = rs_addHeader ''Content-Type'' contentType r"

definition setBody :: "string \<Rightarrow> HttpResponse \<Rightarrow> HttpResponse" where
  "setBody body r = r\<lparr>rs_body := body\<rparr>"

definition append_all :: "string list \<Rightarrow> Buffer \<Rightarrow> Buffer result" where
  "append_all = rfold append_buf"

definition status_line :: "(HttpStatusCode \<Rightarrow> string) \<Rightarrow> HttpResponse \<Rightarrow> string list" where
  "status_line bad r =
     [snprintf 4 (''HTTP/1.1 '' @ bad (rs_statusCode r)), rs_statusMessage r, kCRLF]"

definition connection_lines :: "HttpResponse \<Rightarrow> string list" where
  "connection_lines r =
     (if rs_closeConnection r then [''Connection:close'' @ kCRLF]
      else [snprintf 32 (''Content-Length: '' @ show_nat (length (rs_body r)) @ kCRLF),
            ''Connection: Keep-Alive'' @ kCRLF])"

definition appendToBuffer :: "(HttpStatusCode \<Rightarrow> string) \<Rightarrow> HttpResponse \<Rightarrow> Buffer \<Rightarrow> Buffer result" where
  "appendToBuffer bad r output =
     rbind (append_all (status_line bad r) output) (\<lambda>output.
     rbind (append_all (connection_lines r) output) (\<lambda>output.
     rbind (rfold (\<lambda>(k, v). append_all [k, '': '', v, kCRLF]) (rs_headers r) output) (\<lambda>output.
     append_all [kCRLF, rs_body r] output)))"

section \<open>The server's handlers\<close>

type_synonym http_callback = "HttpRequest \<Rightarrow> HttpResponse \<Rightarrow> HttpResponse"

definition defaultHttpCallback :: http_callback where
  "defaultHttpCallback req resp =
     setCloseConnection True (setStatusMessage ''Not Found'' (setStatusCode k404NotFound resp))"

definition http_onConnection :: "bool \<Rightarrow> HttpContext option \<Rightarrow> HttpContext option" where
  "http_onConnection is_connected ctx = (if is_connected then Some new_HttpContext else ctx)"

definition http_onRequest ::
  "(HttpStatusCode \<Rightarrow> string) \<Rightarrow> http_callback \<Rightarrow> HttpRequest \<Rightarrow> tcp_command list result" where
  "http_onRequest bad cb req =
     (let connection = getHeader ''Connection'' req;
          close = (connection = ''close'' \<or> getVersion req = kHttp10 \<and> connection \<noteq> ''Keep-Alive'');
          response = cb req (new_HttpResponse close)
      in rbind (appendToBuffer bad response new_buffer) (\<lambda>buf.
         Inr (Send (contents buf) # (if rs_closeConnection response then [Shutdown] else []))))"

definition bad_request :: string where
  "bad_request = ''HTTP/1.1 400 Bad Request'' @ kCRLF @ kCRLF"

text \<open>\<open>onMessage\<close>: the input buffer, the context and the commands after it; \<open>None\<close>: it does not return.\<close>

definition http_onMessage ::
  "(HttpStatusCode \<Rightarrow> string) \<Rightarrow> http_callback \<Rightarrow> Timestamp \<Rightarrow> Buffer \<Rightarrow> HttpContext \<Rightarrow>
     (Buffer \<times> HttpContext \<times> tcp_command list) result option" where
  "http_onMessage bad cb receiveTime buf ctx =
     map_option (\<lambda>r. rbind r (\<lambda>(ok, buf, ctx).
       let refused = (if ok then [] else [Send bad_request, Shutdown])
       in if gotAll ctx
          then rbind (http_onRequest bad cb (hc_request ctx)) (\<lambda>cs. Inr (buf, hc_reset ctx, refused @ cs))
          else Inr (buf, ctx, refused)))
     (parseRequest receiveTime buf ctx)"

section \<open>What a response looks like\<close>

text \<open>The bytes of a response, as the code writes them.\<close>

definition response_text :: "HttpResponse \<Rightarrow> string" where
  "response_text r = ''HTT'' @ rs_statusMessage r @ kCRLF @ concat (connection_lines r) @
     concat (map (\<lambda>(k, v). k @ '': '' @ v @ kCRLF) (rs_headers r)) @ kCRLF @ rs_body r"

lemma append_all_correct:
  "buffer_ok b \<Longrightarrow> \<exists>b'. append_all xs b = Inr b' \<and> buffer_ok b' \<and> contents b' = contents b @ concat xs"
proof (induction xs arbitrary: b)
  case (Cons x xs)
  from buf.enq [OF Cons.prems, of x] obtain b1 where
    "append_buf x b = Inr b1" "buffer_ok b1" "contents b1 = contents b @ x" by blast
  with Cons.IH [of b1] show ?case by (simp add: append_all_def)
qed (simp add: append_all_def)

lemma append_headers_correct:
  "buffer_ok b \<Longrightarrow> \<exists>b'. rfold (\<lambda>(k, v). append_all [k, '': '', v, kCRLF]) hs b = Inr b' \<and> buffer_ok b' \<and>
    contents b' = contents b @ concat (map (\<lambda>(k, v). k @ '': '' @ v @ kCRLF) hs)"
proof (induction hs arbitrary: b)
  case (Cons h hs)
  obtain k v where h: "h = (k, v)" by (cases h)
  from append_all_correct [OF Cons.prems, of "[k, '': '', v, kCRLF]"] obtain b1 where
    "append_all [k, '': '', v, kCRLF] b = Inr b1" "buffer_ok b1"
    "contents b1 = contents b @ k @ '': '' @ v @ kCRLF" by auto
  with Cons.IH [of b1] h show ?case by auto
qed simp

lemma appendToBuffer_correct:
  assumes "buffer_ok b"
  shows "\<exists>b'. appendToBuffer bad r b = Inr b' \<and> buffer_ok b' \<and> contents b' = contents b @ response_text r"
proof -
  obtain b1 where b1: "append_all (status_line bad r) b = Inr b1" "buffer_ok b1"
    "contents b1 = contents b @ concat (status_line bad r)"
    using append_all_correct [OF assms] by blast
  obtain b2 where b2: "append_all (connection_lines r) b1 = Inr b2" "buffer_ok b2"
    "contents b2 = contents b1 @ concat (connection_lines r)"
    using append_all_correct [OF b1(2)] by blast
  obtain b3 where b3: "rfold (\<lambda>(k, v). append_all [k, '': '', v, kCRLF]) (rs_headers r) b2 = Inr b3" "buffer_ok b3"
    "contents b3 = contents b2 @ concat (map (\<lambda>(k, v). k @ '': '' @ v @ kCRLF) (rs_headers r))"
    using append_headers_correct [OF b2(2)] by blast
  obtain b4 where b4: "append_all [kCRLF, rs_body r] b3 = Inr b4" "buffer_ok b4"
    "contents b4 = contents b3 @ kCRLF @ rs_body r"
    using append_all_correct [OF b3(2), of "[kCRLF, rs_body r]"] by auto
  have "concat (status_line bad r) = ''HTT'' @ rs_statusMessage r @ kCRLF"
    by (simp add: status_line_def snprintf_def numeral_3_eq_3)
  then show ?thesis
    using b1 b2 b3 b4 by (auto simp: appendToBuffer_def response_text_def)
qed

text \<open>The response to a request.\<close>

definition http_response :: "http_callback \<Rightarrow> HttpRequest \<Rightarrow> HttpResponse" where
  "http_response cb req = cb req (new_HttpResponse
     (getHeader ''Connection'' req = ''close'' \<or>
      getVersion req = kHttp10 \<and> getHeader ''Connection'' req \<noteq> ''Keep-Alive''))"

definition http_reply :: "http_callback \<Rightarrow> HttpRequest \<Rightarrow> tcp_command list" where
  "http_reply cb req = Send (response_text (http_response cb req)) #
     (if rs_closeConnection (http_response cb req) then [Shutdown] else [])"

lemma http_onRequest_eq: "http_onRequest bad cb req = Inr (http_reply cb req)"
proof -
  obtain b where "appendToBuffer bad (http_response cb req) new_buffer = Inr b"
    "contents b = response_text (http_response cb req)"
    using appendToBuffer_correct [OF new_buffer_facts(1)] by (metis append_Nil new_buffer_facts(2))
  then show ?thesis
    by (simp add: http_onRequest_def http_reply_def http_response_def [symmetric])
qed

lemma http_onMessage_cases:
  assumes "buffer_ok buf" "awaiting ctx"
  shows "case parse_spec t (contents buf) ctx of
      Inl e \<Rightarrow> http_onMessage bad cb t buf ctx = Some (Inl e)
    | Inr (ok, rest, c) \<Rightarrow> \<exists>b. buffer_ok b \<and> contents b = rest \<and>
        http_onMessage bad cb t buf ctx =
          Some (Inr (b, if gotAll c then hc_reset c else c,
            (if ok then [] else [Send bad_request, Shutdown]) @
            (if gotAll c then http_reply cb (hc_request c) else [])))"
  using parseRequest_spec [OF assms, of t]
  by (auto simp: http_onMessage_def http_onRequest_eq split: option.splits sum.splits)

section \<open>Properties\<close>

text \<open>
  A response is written completely and in order: status line, connection headers, the callback's
  headers, an empty line and the body, with the exact body length when the connection stays open. The
  status line however is cut to \<open>HTT\<close> followed by the message, whatever the status code is and
  whatever the C library does with the invalid conversion.
\<close>

theorem response_layout:
  assumes "buffer_ok b" "length (rs_body r) < 10 ^ 13"
  shows "\<exists>b'. appendToBuffer bad r b = Inr b' \<and> buffer_ok b' \<and>
    contents b' = contents b @ ''HTT'' @ rs_statusMessage r @ kCRLF @
      (if rs_closeConnection r then ''Connection:close'' @ kCRLF
       else ''Content-Length: '' @ show_nat (length (rs_body r)) @ kCRLF @ ''Connection: Keep-Alive'' @ kCRLF) @
      concat (map (\<lambda>(k, v). k @ '': '' @ v @ kCRLF) (rs_headers r)) @ kCRLF @ rs_body r"
proof -
  have "length (show_nat (length (rs_body r))) \<le> 13" using assms(2) by (rule length_show_nat_le) simp
  then have "concat (connection_lines r) = (if rs_closeConnection r then ''Connection:close'' @ kCRLF
      else ''Content-Length: '' @ show_nat (length (rs_body r)) @ kCRLF @ ''Connection: Keep-Alive'' @ kCRLF)"
    by (simp add: connection_lines_def snprintf_def kCRLF_def)
  with appendToBuffer_correct [OF assms(1), of bad r] show ?thesis
    by (simp only: response_text_def append_assoc)
qed

theorem response_layout_witness:
  "\<exists>b'. appendToBuffer (\<lambda>_. ''?'') (defaultHttpCallback new_HttpRequest (new_HttpResponse False)) new_buffer = Inr b' \<and>
    contents b' = ''HTTNot Found'' @ kCRLF @ ''Connection:close'' @ kCRLF @ kCRLF"
  using response_layout [of new_buffer "defaultHttpCallback new_HttpRequest (new_HttpResponse False)" "\<lambda>_. ''?''"]
  by (auto simp: defaultHttpCallback_def setCloseConnection_def setStatusMessage_def setStatusCode_def
      new_HttpResponse_def)

lemma hc_reset_ready [simp]: "hc_ready (hc_reset c)" "awaiting (hc_reset c)"
  by (simp_all add: hc_reset_def hc_ready_def awaiting_def swap_request_def new_HttpRequest_def)



text \<open>
  A complete well-formed request is answered with exactly one response, that of the callback to the
  request the client wrote, and the connection is shut down exactly if the callback leaves the response
  closing; it starts as closing if the request says so or is HTTP/1.0 without \<open>Keep-Alive\<close>. Whatever
  follows the request, a second complete request included, stays unanswered in the buffer until the next
  message.
\<close>

theorem request_answered:
  fixes cb :: http_callback and t :: Timestamp
  assumes "buffer_ok buf" "hc_ready ctx" "well_formed m path minor hs"
    and "contents buf = request_text m path minor hs @ rest"
  defines "close \<equiv> (case map_of (rev hs) ''Connection'' of
      None \<Rightarrow> minor = CHR ''0''
    | Some v \<Rightarrow> v = ''close'' \<or> minor = CHR ''0'' \<and> v \<noteq> ''Keep-Alive'')"
  defines "response \<equiv> cb (parsed_request t m path minor hs) (new_HttpResponse close)"
  shows "\<exists>buf' ctx'. http_onMessage bad cb t buf ctx = Some (Inr (buf', ctx',
      Send (response_text response) # (if rs_closeConnection response then [Shutdown] else []))) \<and>
    buffer_ok buf' \<and> contents buf' = rest \<and> hc_ready ctx'"
proof -
  let ?req = "parsed_request t m path minor hs"
  have aw: "awaiting ctx" using assms(2) by (simp add: hc_ready_def awaiting_def)
  have "getVersion ?req = kHttp10 \<longleftrightarrow> minor = CHR ''0''"
    using assms(3) by (auto simp: getVersion_def parsed_request_def well_formed_def)
  then have "http_response cb ?req = response"
    using headers_lookup [of t m path minor hs]
    by (auto simp: http_response_def response_def close_def getHeader_def split: option.split)
  with http_onMessage_cases [OF assms(1) aw, where t = t and bad = bad and cb = cb] parse_request_text [OF assms(2,3), of t rest]
  show ?thesis by (auto simp: assms(4) gotAll_def http_reply_def)
qed

lemma default_response [simp]:
  "rs_closeConnection (defaultHttpCallback req r)"
  "response_text (defaultHttpCallback req (new_HttpResponse close)) =
     ''HTTNot Found'' @ kCRLF @ ''Connection:close'' @ kCRLF @ kCRLF"
  by (simp_all add: defaultHttpCallback_def setCloseConnection_def setStatusMessage_def setStatusCode_def
      new_HttpResponse_def response_text_def connection_lines_def)

theorem request_answered_witness:
  "\<exists>buf' ctx'. http_onMessage (\<lambda>_. []) defaultHttpCallback (Timestamp 1)
      (holding (request_text ''GET'' ''/'' (CHR ''1'') [] @ ''GET /x'')) new_HttpContext =
    Some (Inr (buf', ctx', [Send (''HTTNot Found'' @ kCRLF @ ''Connection:close'' @ kCRLF @ kCRLF), Shutdown])) \<and>
    contents buf' = ''GET /x''"
proof -
  have "hc_ready new_HttpContext" "well_formed ''GET'' ''/'' (CHR ''1'') []"
    by (simp_all add: hc_ready_def new_HttpContext_def new_HttpRequest_def well_formed_def method_of_def)
  from request_answered [OF holding_facts(1) this holding_facts(2), where bad = "\<lambda>_. []" and
      cb = defaultHttpCallback and t = "Timestamp 1" and rest = "''GET /x''"]
  show ?thesis unfolding default_response by (simp only: default_response if_True) blast
qed

end
