(* ===== verification/TimerQueue.thy ===== *)
theory TimerQueue
  imports Timestamp EventLoop
begin

text \<open>
  \<open>muduo/net/TimerQueue.h\<close> and \<open>TimerQueue.cc\<close>, with \<open>Timer.h\<close>, \<open>Timer.cc\<close> and \<open>TimerId.h\<close>. The state
  extends that of the event loop. Timers live at addresses in \<open>tq_heap\<close>; reading a deleted one is
  an error of the model. The two \<open>std::set\<close>s are sorted lists. \<open>alloc\<close> is the allocator: the
  address \<open>new\<close> returns for a given heap, or nothing, which is \<open>std::bad_alloc\<close>. \<open>tq_clock\<close> gives the successive readings of
  \<open>Timestamp::now()\<close>, \<open>tq_armed\<close> the expiration the timerfd was last set to, if it has not gone off
  since, with the \<open>timespec\<close> passed to \<open>timerfd_settime\<close>. \<open>tq_fired\<close> records the timers run.

  A user callback is a name of type \<open>'cb\<close>; what it does to the timers is the list of commands
  \<open>prog\<close> gives for it, which may depend on the state in which it starts.
\<close>

record 'cb Timer =
  tm_callback :: 'cb
  tm_expiration :: Timestamp
  tm_interval :: rat
  tm_repeat :: bool
  tm_sequence :: int

record TimerId =
  id_timer :: nat
  id_sequence :: int

datatype tq_functor = AddTimerInLoop nat | CancelInLoop TimerId

record timespec =
  tv_sec :: int
  tv_nsec :: int

record 'cb TimerQueue = "tq_functor EventLoop" +
  tq_heap :: "nat \<Rightarrow> 'cb Timer option"
  tq_numCreated :: int
  tq_timers :: "(Timestamp \<times> nat) list"
  tq_activeTimers :: "(nat \<times> int) list"
  tq_callingExpiredTimers :: bool
  tq_cancelingTimers :: "(nat \<times> int) list"
  tq_armed :: "(Timestamp \<times> timespec) option"
  tq_clock :: "nat \<Rightarrow> Timestamp"
  tq_ticks :: nat
  tq_fired :: "(nat \<times> int) list"

section \<open>\<open>Timer\<close>\<close>

definition new_Timer :: "'cb \<Rightarrow> Timestamp \<Rightarrow> rat \<Rightarrow> int \<Rightarrow> 'cb Timer" where
  "new_Timer cb when interval numCreated =
     \<lparr>tm_callback = cb, tm_expiration = when, tm_interval = interval, tm_repeat = interval > 0,
      tm_sequence = numCreated + 1\<rparr>"

definition restart :: "Timestamp \<Rightarrow> 'cb Timer \<Rightarrow> 'cb Timer" where
  "restart now t =
     (if tm_repeat t then t\<lparr>tm_expiration := addTime now (tm_interval t)\<rparr>
      else t\<lparr>tm_expiration := invalid\<rparr>)"

section \<open>The timerfd\<close>

definition howMuchTimeFromNow :: "Timestamp \<Rightarrow> Timestamp \<Rightarrow> timespec" where
  "howMuchTimeFromNow now when =
     (let microseconds = microSecondsSinceEpoch when - microSecondsSinceEpoch now;
          microseconds = (if microseconds < 100 then 100 else microseconds)
      in \<lparr>tv_sec = cdiv microseconds kMicroSecondsPerSecond,
          tv_nsec = cmod microseconds kMicroSecondsPerSecond * 1000\<rparr>)"

definition read_clock :: "'cb TimerQueue \<Rightarrow> Timestamp \<times> 'cb TimerQueue" where
  "read_clock s = (tq_clock s (tq_ticks s), s\<lparr>tq_ticks := tq_ticks s + 1\<rparr>)"

definition resetTimerFd :: "Timestamp \<Rightarrow> 'cb TimerQueue \<Rightarrow> 'cb TimerQueue" where
  "resetTimerFd expiration s =
     (let (now, s) = read_clock s
      in s\<lparr>tq_armed := Some (expiration, howMuchTimeFromNow now expiration)\<rparr>)"

text \<open>The alarm has gone off: the one-shot timerfd is disarmed until it is set again.\<close>

definition readTimerfd :: "'cb TimerQueue \<Rightarrow> 'cb TimerQueue" where
  "readTimerfd s = s\<lparr>tq_armed := None\<rparr>"

section \<open>The queue\<close>

definition deref_timer :: "nat \<Rightarrow> 'cb TimerQueue \<Rightarrow> 'cb Timer result" where
  "deref_timer a s = (case tq_heap s a of None \<Rightarrow> Inl (Undefined ''dangling Timer'') | Some t \<Rightarrow> Inr t)"

definition delete_timer :: "nat \<Rightarrow> 'cb TimerQueue \<Rightarrow> 'cb TimerQueue result" where
  "delete_timer a s = rbind (deref_timer a s) (\<lambda>_. Inr (s\<lparr>tq_heap := (tq_heap s)(a := None)\<rparr>))"

definition same_size :: "'cb TimerQueue \<Rightarrow> unit result" where
  "same_size s = guard (length (tq_timers s) = length (tq_activeTimers s)) ''timers_.size() == activeTimers_.size()''"

definition tq_insert :: "int \<Rightarrow> nat \<Rightarrow> 'cb TimerQueue \<Rightarrow> (bool \<times> 'cb TimerQueue) result" where
  "tq_insert tid a s =
     rbind (assertInLoopThread tid s) (\<lambda>_.
     rbind (same_size s) (\<lambda>_.
     rbind (deref_timer a s) (\<lambda>t.
     let when = tm_expiration t;
         earliestChanged = (tq_timers s = [] \<or> when < fst (hd (tq_timers s)));
         (timers, inserted) = set_insert (when, a) (tq_timers s);
         (active, inserted') = set_insert (a, tm_sequence t) (tq_activeTimers s);
         s' = s\<lparr>tq_timers := timers, tq_activeTimers := active\<rparr>
     in rbind (guard inserted ''result.second'') (\<lambda>_.
        rbind (guard inserted' ''result.second'') (\<lambda>_.
        rbind (same_size s') (\<lambda>_. Inr (earliestChanged, s')))))))"

definition addTimerInLoop :: "int \<Rightarrow> nat \<Rightarrow> 'cb TimerQueue \<Rightarrow> 'cb TimerQueue result" where
  "addTimerInLoop tid a s =
     rbind (assertInLoopThread tid s) (\<lambda>_.
     rbind (tq_insert tid a s) (\<lambda>(earliestChanged, s).
     if earliestChanged then rbind (deref_timer a s) (\<lambda>t. Inr (resetTimerFd (tm_expiration t) s))
     else Inr s))"

definition cancelInLoop :: "int \<Rightarrow> TimerId \<Rightarrow> 'cb TimerQueue \<Rightarrow> 'cb TimerQueue result" where
  "cancelInLoop tid i s =
     rbind (assertInLoopThread tid s) (\<lambda>_.
     rbind (same_size s) (\<lambda>_.
     let timer = (id_timer i, id_sequence i) in
     rbind (if timer \<in> set (tq_activeTimers s) then
              rbind (deref_timer (id_timer i) s) (\<lambda>t.
              let (timers, n) = set_erase (tm_expiration t, id_timer i) (tq_timers s) in
              rbind (guard (n = 1) ''n == 1'') (\<lambda>_.
              rbind (delete_timer (id_timer i) (s\<lparr>tq_timers := timers\<rparr>)) (\<lambda>s.
              Inr (s\<lparr>tq_activeTimers := fst (set_erase timer (tq_activeTimers s))\<rparr>))))
            else if tq_callingExpiredTimers s then
              Inr (s\<lparr>tq_cancelingTimers := fst (set_insert timer (tq_cancelingTimers s))\<rparr>)
            else Inr s) (\<lambda>s.
     rbind (same_size s) (\<lambda>_. Inr s))))"

text \<open>The functors the queue hands to its loop, and the two operations every thread may call.\<close>

definition run_tq :: "int \<Rightarrow> tq_functor \<Rightarrow> 'cb TimerQueue \<Rightarrow> 'cb TimerQueue result" where
  "run_tq tid f = (case f of AddTimerInLoop a \<Rightarrow> addTimerInLoop tid a | CancelInLoop i \<Rightarrow> cancelInLoop tid i)"

type_synonym 'cb allocator = "(nat \<Rightarrow> 'cb Timer option) \<Rightarrow> nat option"

definition bad_alloc :: error where "bad_alloc = Fatal ''std::bad_alloc''"

definition create_timer ::
  "'cb allocator \<Rightarrow> 'cb \<Rightarrow> Timestamp \<Rightarrow> rat \<Rightarrow> 'cb TimerQueue \<Rightarrow> (nat \<times> 'cb TimerQueue) result" where
  "create_timer alloc cb when interval s = (case alloc (tq_heap s) of
     None \<Rightarrow> Inl bad_alloc
   | Some a \<Rightarrow> Inr (a, s\<lparr>tq_heap := (tq_heap s)(a \<mapsto> new_Timer cb when interval (tq_numCreated s)),
       tq_numCreated := tq_numCreated s + 1\<rparr>))"

definition addTimer ::
  "'cb allocator \<Rightarrow> int \<Rightarrow> 'cb \<Rightarrow> Timestamp \<Rightarrow> rat \<Rightarrow> 'cb TimerQueue \<Rightarrow>
   (TimerId \<times> 'cb TimerQueue) result" where
  "addTimer alloc tid cb when interval s =
     rbind (create_timer alloc cb when interval s) (\<lambda>(a, s).
     rbind (runInLoop (run_tq tid) tid (AddTimerInLoop a) s) (\<lambda>s.
     rbind (deref_timer a s) (\<lambda>t. Inr (\<lparr>id_timer = a, id_sequence = tm_sequence t\<rparr>, s))))"

definition cancel :: "int \<Rightarrow> TimerId \<Rightarrow> 'cb TimerQueue \<Rightarrow> 'cb TimerQueue result" where
  "cancel tid i = runInLoop (run_tq tid) tid (CancelInLoop i)"

definition runAt ::
  "'cb allocator \<Rightarrow> int \<Rightarrow> Timestamp \<Rightarrow> 'cb \<Rightarrow> 'cb TimerQueue \<Rightarrow>
   (TimerId \<times> 'cb TimerQueue) result" where
  "runAt alloc tid time cb = addTimer alloc tid cb time 0"

definition runAfter ::
  "'cb allocator \<Rightarrow> int \<Rightarrow> rat \<Rightarrow> 'cb \<Rightarrow> 'cb TimerQueue \<Rightarrow>
   (TimerId \<times> 'cb TimerQueue) result" where
  "runAfter alloc tid delay cb s =
     (let (now, s) = read_clock s in runAt alloc tid (addTime now delay) cb s)"

definition runEvery ::
  "'cb allocator \<Rightarrow> int \<Rightarrow> rat \<Rightarrow> 'cb \<Rightarrow> 'cb TimerQueue \<Rightarrow>
   (TimerId \<times> 'cb TimerQueue) result" where
  "runEvery alloc tid interval cb s =
     (let (now, s) = read_clock s in addTimer alloc tid cb (addTime now interval) interval s)"

section \<open>The alarm\<close>

definition UINTPTR_MAX :: nat where "UINTPTR_MAX = 2 ^ 64 - 1"

definition erase_active :: "nat \<Rightarrow> 'cb TimerQueue \<Rightarrow> 'cb TimerQueue result" where
  "erase_active a s =
     rbind (deref_timer a s) (\<lambda>t.
     let (active, n) = set_erase (a, tm_sequence t) (tq_activeTimers s) in
     rbind (guard (n = 1) ''n == 1'') (\<lambda>_. Inr (s\<lparr>tq_activeTimers := active\<rparr>)))"

definition getExpired :: "Timestamp \<Rightarrow> 'cb TimerQueue \<Rightarrow> ((Timestamp \<times> nat) list \<times> 'cb TimerQueue) result" where
  "getExpired now s =
     rbind (same_size s) (\<lambda>_.
     let sentry = (now, UINTPTR_MAX);
         ending = lower_bound sentry (tq_timers s) in
     rbind (guard (ending = length (tq_timers s) \<or> now < fst (tq_timers s ! ending))
              ''end == timers_.end() || now < end->first'') (\<lambda>_.
     let expired = take ending (tq_timers s);
         s = s\<lparr>tq_timers := drop ending (tq_timers s)\<rparr> in
     rbind (rfold erase_active (map snd expired) s) (\<lambda>s.
     rbind (same_size s) (\<lambda>_. Inr (expired, s)))))"

definition reset_one :: "int \<Rightarrow> Timestamp \<Rightarrow> nat \<Rightarrow> 'cb TimerQueue \<Rightarrow> 'cb TimerQueue result" where
  "reset_one tid now a s =
     rbind (deref_timer a s) (\<lambda>t.
     if tm_repeat t \<and> (a, tm_sequence t) \<notin> set (tq_cancelingTimers s) then
       rbind (tq_insert tid a (s\<lparr>tq_heap := (tq_heap s)(a \<mapsto> restart now t)\<rparr>)) (\<lambda>(_, s). Inr s)
     else delete_timer a s)"

definition reset :: "int \<Rightarrow> (Timestamp \<times> nat) list \<Rightarrow> Timestamp \<Rightarrow> 'cb TimerQueue \<Rightarrow> 'cb TimerQueue result" where
  "reset tid expired now s =
     rbind (rfold (reset_one tid now) (map snd expired) s) (\<lambda>s.
     rbind (if tq_timers s \<noteq> [] then
              rbind (deref_timer (snd (hd (tq_timers s))) s) (\<lambda>t. Inr (tm_expiration t))
            else Inr invalid) (\<lambda>nextExpire.
     Inr (if valid nextExpire then resetTimerFd nextExpire s else s)))"

text \<open>What a callback may do to the timers of its loop.\<close>

datatype 'cb command = AddTimer 'cb Timestamp rat | Cancel TimerId

definition run_command ::
  "'cb allocator \<Rightarrow> int \<Rightarrow> 'cb command \<Rightarrow> 'cb TimerQueue \<Rightarrow> 'cb TimerQueue result" where
  "run_command alloc tid c s = (case c of
     AddTimer cb when interval \<Rightarrow> rbind (addTimer alloc tid cb when interval s) (\<lambda>(_, s). Inr s)
   | Cancel i \<Rightarrow> cancel tid i s)"

type_synonym 'cb program = "'cb \<Rightarrow> 'cb TimerQueue \<Rightarrow> 'cb command list"

definition run_timer ::
  "'cb allocator \<Rightarrow> 'cb program \<Rightarrow> int \<Rightarrow> nat \<Rightarrow> 'cb TimerQueue \<Rightarrow> 'cb TimerQueue result" where
  "run_timer alloc prog tid a s =
     rbind (deref_timer a s) (\<lambda>t.
     rfold (run_command alloc tid) (prog (tm_callback t) s) (s\<lparr>tq_fired := tq_fired s @ [(a, tm_sequence t)]\<rparr>))"

definition tq_handleRead ::
  "'cb allocator \<Rightarrow> 'cb program \<Rightarrow> int \<Rightarrow> 'cb TimerQueue \<Rightarrow> 'cb TimerQueue result" where
  "tq_handleRead alloc prog tid s =
     rbind (assertInLoopThread tid s) (\<lambda>_.
     let (now, s) = read_clock s; s = readTimerfd s in
     rbind (getExpired now s) (\<lambda>(expired, s).
     let s = s\<lparr>tq_callingExpiredTimers := True, tq_cancelingTimers := []\<rparr> in
     rbind (rfold (run_timer alloc prog tid) (map snd expired) s) (\<lambda>s.
     let s = s\<lparr>tq_callingExpiredTimers := False\<rparr> in
     reset tid expired now s)))"

text \<open>The destructor deletes what is queued.\<close>

definition TimerQueue_dtor :: "'cb TimerQueue \<Rightarrow> 'cb TimerQueue result" where
  "TimerQueue_dtor s = rfold (\<lambda>(_, a). delete_timer a) (tq_timers s) s"

text \<open>The constructor, on the loop \<open>s\<close>; \<open>chan\<close> is the address of \<open>timerfdChannel_\<close>.\<close>

definition new_TimerQueue ::
  "int \<Rightarrow> int \<Rightarrow> nat \<Rightarrow> 'cb TimerQueue \<Rightarrow> 'cb TimerQueue result" where
  "new_TimerQueue tid timerfd chan s =
     (if timerfd < 0 then Inl (Fatal ''failed in timerfd_create'') else
      enableReading tid chan (s\<lparr>chans := (chans s)(chan \<mapsto> new_channel (el_self s) timerfd),
        tq_timers := [], tq_activeTimers := [], tq_callingExpiredTimers := False,
        tq_cancelingTimers := [], tq_armed := None\<rparr>))"

section \<open>The invariant\<close>

text \<open>
  \<open>F\<close> is the set of timers that are alive and not queued: those being run by \<open>handleRead\<close> and
  those whose \<open>addTimerInLoop\<close> is still pending. Every other live timer is in both sets.
\<close>

definition expiration_of :: "'cb TimerQueue \<Rightarrow> nat \<Rightarrow> Timestamp" where
  "expiration_of s a = (case tq_heap s a of None \<Rightarrow> invalid | Some t \<Rightarrow> tm_expiration t)"

definition sequence_of :: "'cb TimerQueue \<Rightarrow> nat \<Rightarrow> int" where
  "sequence_of s a = (case tq_heap s a of None \<Rightarrow> 0 | Some t \<Rightarrow> tm_sequence t)"

definition tq_inv :: "int \<Rightarrow> nat set \<Rightarrow> 'cb TimerQueue \<Rightarrow> bool" where
  "tq_inv tid F s \<longleftrightarrow> el_threadId s = tid \<and> F \<subseteq> dom (tq_heap s) \<and>
     std_set (tq_timers s) \<and> std_set (tq_activeTimers s) \<and>
     set (tq_timers s) = (\<lambda>a. (expiration_of s a, a)) ` (dom (tq_heap s) - F) \<and>
     set (tq_activeTimers s) = (\<lambda>a. (a, sequence_of s a)) ` (dom (tq_heap s) - F) \<and>
     (\<forall>a t. tq_heap s a = Some t \<longrightarrow> 0 < a \<and> a < UINTPTR_MAX \<and> tm_sequence t \<le> tq_numCreated s \<and>
       (tm_repeat t \<longrightarrow> 0 < tm_interval t)) \<and>
     inj_on (sequence_of s) (dom (tq_heap s))"

definition alloc_ok :: "'cb allocator \<Rightarrow> bool" where
  "alloc_ok alloc \<longleftrightarrow> (\<forall>h a. alloc h = Some a \<longrightarrow> h a = None \<and> 0 < a \<and> a < UINTPTR_MAX)"

lemma deref_timer_Some [simp]: "tq_heap s a = Some t \<Longrightarrow> deref_timer a s = Inr t"
  by (simp add: deref_timer_def)

lemma tq_in_loop [simp]: "tq_inv tid F s \<Longrightarrow> assertInLoopThread tid s = Inr ()"
  by (simp add: tq_inv_def assertInLoopThread_def isInLoopThread_def)

lemma tq_same_length:
  assumes "tq_inv tid F s"
  shows "length (tq_timers s) = length (tq_activeTimers s)"
proof -
  let ?Q = "dom (tq_heap s) - F"
  have "length (tq_timers s) = card ((\<lambda>a. (expiration_of s a, a)) ` ?Q)"
    using assms distinct_card [of "tq_timers s"] by (simp add: tq_inv_def)
  also have "\<dots> = card ?Q" by (intro card_image inj_onI) simp
  also have "\<dots> = card ((\<lambda>a. (a, sequence_of s a)) ` ?Q)"
    by (intro card_image [symmetric] inj_onI) simp
  also have "\<dots> = length (tq_activeTimers s)"
    using assms distinct_card [of "tq_activeTimers s"] by (simp add: tq_inv_def)
  finally show ?thesis .
qed

lemma tq_same_size [simp]: "tq_inv tid F s \<Longrightarrow> same_size s = Inr ()"
  by (simp add: same_size_def tq_same_length)

lemma tq_queued:
  assumes "tq_inv tid F s"
  shows "(t, a) \<in> set (tq_timers s) \<longleftrightarrow>
      a \<notin> F \<and> (\<exists>tm. tq_heap s a = Some tm \<and> tm_expiration tm = t)"
    and "(a, q) \<in> set (tq_activeTimers s) \<longleftrightarrow>
      a \<notin> F \<and> (\<exists>tm. tq_heap s a = Some tm \<and> tm_sequence tm = q)"
  using assms by (auto simp: tq_inv_def expiration_of_def sequence_of_def image_iff)

text \<open>A change of the heap at an address that is not queued.\<close>

lemma tq_inv_insert:
  assumes inv: "tq_inv tid F s" and a: "a \<in> F" and t: "tq_heap s a = Some t"
  defines "s' \<equiv> s\<lparr>tq_timers := insort (tm_expiration t, a) (tq_timers s),
    tq_activeTimers := insort (a, tm_sequence t) (tq_activeTimers s)\<rparr>"
  shows "tq_inv tid (F - {a}) s'"
    and "tq_insert tid a s =
      Inr (tq_timers s = [] \<or> tm_expiration t < fst (hd (tq_timers s)), s')"
proof -
  have new: "(tm_expiration t, a) \<notin> set (tq_timers s)" "(a, tm_sequence t) \<notin> set (tq_activeTimers s)"
    using a by (simp_all add: tq_queued [OF inv])
  have Q: "dom (tq_heap s) - (F - {a}) = insert a (dom (tq_heap s) - F)" using t by auto
  have same: "expiration_of s' = expiration_of s" "sequence_of s' = sequence_of s"
    by (simp_all add: fun_eq_iff expiration_of_def sequence_of_def s'_def)
  have e: "expiration_of s a = tm_expiration t" "sequence_of s a = tm_sequence t"
    using t by (simp_all add: expiration_of_def sequence_of_def)
  have heap: "tq_heap s' = tq_heap s" and n: "tq_numCreated s' = tq_numCreated s"
    and id: "el_threadId s' = el_threadId s" by (simp_all add: s'_def)
  show inv': "tq_inv tid (F - {a}) s'"
    using inv a new unfolding tq_inv_def same heap n id Q image_insert e
    by (auto simp: s'_def sorted_insort distinct_insort set_insort_key)
  show "tq_insert tid a s =
      Inr (tq_timers s = [] \<or> tm_expiration t < fst (hd (tq_timers s)), s')"
    using inv inv' t new by (simp add: tq_insert_def set_insert_def Let_def s'_def)
qed

lemma tq_inv_heap_other:
  assumes "tq_inv tid F s" and "heap' a = None \<or> a \<in> G" and "\<And>b. b \<noteq> a \<Longrightarrow> heap' b = tq_heap s b"
    and "a \<in> F \<or> tq_heap s a = None" and "G - {a} = F - {a}"
    and "\<And>t. heap' a = Some t \<Longrightarrow> 0 < a \<and> a < UINTPTR_MAX \<and> tm_sequence t \<le> n \<and>
      (tm_repeat t \<longrightarrow> 0 < tm_interval t)"
    and "a \<in> G \<Longrightarrow> heap' a \<noteq> None"
    and "\<And>t. heap' a = Some t \<Longrightarrow> tq_heap s a = None \<and> tq_numCreated s < tm_sequence t \<or>
      sequence_of s a = tm_sequence t \<and> a \<in> dom (tq_heap s)" and "tq_numCreated s \<le> n"
  shows "tq_inv tid G (s\<lparr>tq_heap := heap', tq_numCreated := n\<rparr>)"
proof -
  let ?s = "s\<lparr>tq_heap := heap', tq_numCreated := n\<rparr>"
  have Q: "dom heap' - G = dom (tq_heap s) - F"
  proof (rule set_eqI)
    fix b show "b \<in> dom heap' - G \<longleftrightarrow> b \<in> dom (tq_heap s) - F"
      using assms(2,3,4,5) by (cases "b = a") auto
  qed
  have notQ: "b \<noteq> a" if "b \<in> dom (tq_heap s) - F" for b using assms(4) that by auto
  have "(\<lambda>b. (expiration_of ?s b, b)) ` (dom heap' - G) = (\<lambda>b. (expiration_of s b, b)) ` (dom (tq_heap s) - F)"
    "(\<lambda>b. (b, sequence_of ?s b)) ` (dom heap' - G) = (\<lambda>b. (b, sequence_of s b)) ` (dom (tq_heap s) - F)"
    unfolding Q by (intro image_cong refl; use notQ assms(3) in \<open>simp add: expiration_of_def sequence_of_def\<close>)+
  moreover have "G \<subseteq> dom heap'"
  proof
    fix b assume "b \<in> G"
    then show "b \<in> dom heap'" using assms(1,3,5,7) by (cases "b = a") (auto simp: tq_inv_def)
  qed
  moreover have "0 < b \<and> b < UINTPTR_MAX \<and> tm_sequence t \<le> n \<and> (tm_repeat t \<longrightarrow> 0 < tm_interval t)" if "heap' b = Some t" for b t
    using that assms(1,3,6,9) by (cases "b = a") (fastforce simp: tq_inv_def)+
  moreover have "inj_on (sequence_of ?s) (dom heap')"
  proof (rule inj_onI)
    have le: "sequence_of s b \<le> tq_numCreated s" if "b \<in> dom (tq_heap s)" for b
      using assms(1) that by (auto simp: tq_inv_def sequence_of_def)
    have inj: "inj_on (sequence_of s) (dom (tq_heap s))" using assms(1) by (simp add: tq_inv_def)
    have seq: "sequence_of ?s b = sequence_of s b \<and> b \<in> dom (tq_heap s)" if "b \<noteq> a" "b \<in> dom heap'" for b
      using that assms(3) by (auto simp: sequence_of_def)
    have seq_a: "tq_numCreated s < sequence_of ?s a \<or> sequence_of ?s a = sequence_of s a \<and> a \<in> dom (tq_heap s)"
      if "a \<in> dom heap'" using that assms(8) by (auto simp: sequence_of_def)
    fix b c assume "b \<in> dom heap'" "c \<in> dom heap'" and eq: "sequence_of ?s b = sequence_of ?s c"
    then show "b = c"
      using seq [of b] seq [of c] seq_a le [of b] le [of c] inj_onD [OF inj, of b c]
      by (cases "b = a"; cases "c = a") auto
  qed
  ultimately show ?thesis using assms(1) by (simp add: tq_inv_def)
qed

lemma tq_inv_delete:
  assumes "tq_inv tid F s" and "a \<in> F"
  shows "delete_timer a s = Inr (s\<lparr>tq_heap := (tq_heap s)(a := None)\<rparr>)"
    and "tq_inv tid (F - {a}) (s\<lparr>tq_heap := (tq_heap s)(a := None)\<rparr>)"
proof -
  obtain t where "tq_heap s a = Some t" using assms by (auto simp: tq_inv_def)
  then show "delete_timer a s = Inr (s\<lparr>tq_heap := (tq_heap s)(a := None)\<rparr>)"
    by (simp add: delete_timer_def)
  show "tq_inv tid (F - {a}) (s\<lparr>tq_heap := (tq_heap s)(a := None)\<rparr>)"
    using tq_inv_heap_other [OF assms(1), of "(tq_heap s)(a := None)" a "F - {a}" "tq_numCreated s"] assms(2)
    by auto
qed

lemma tq_inv_restart:
  assumes "tq_inv tid F s" and "a \<in> F" and "tq_heap s a = Some t"
  shows "tq_inv tid F (s\<lparr>tq_heap := (tq_heap s)(a \<mapsto> restart now t)\<rparr>)"
proof -
  have "tm_sequence (restart now t) = tm_sequence t" "tm_repeat (restart now t) = tm_repeat t"
    "tm_interval (restart now t) = tm_interval t" by (simp_all add: restart_def)
  moreover have "0 < a \<and> a < UINTPTR_MAX \<and> tm_sequence t \<le> tq_numCreated s \<and> (tm_repeat t \<longrightarrow> 0 < tm_interval t)"
    using assms(1,3) by (simp add: tq_inv_def)
  ultimately show ?thesis
    using tq_inv_heap_other [OF assms(1), of "(tq_heap s)(a \<mapsto> restart now t)" a F "tq_numCreated s"] assms(2,3)
    by (auto simp: sequence_of_def)
qed

lemma tq_inv_create:
  assumes "tq_inv tid F s" and "alloc_ok alloc" and "alloc (tq_heap s) = Some a"
  shows "create_timer alloc cb expi interval s = Inr (a,
      s\<lparr>tq_heap := (tq_heap s)(a \<mapsto> new_Timer cb expi interval (tq_numCreated s)),
        tq_numCreated := tq_numCreated s + 1\<rparr>)"
    and "tq_inv tid (insert a F) (s\<lparr>tq_heap := (tq_heap s)(a \<mapsto> new_Timer cb expi interval (tq_numCreated s)),
        tq_numCreated := tq_numCreated s + 1\<rparr>)"
    and "a \<notin> F" and "tq_heap s a = None"
proof -
  show "create_timer alloc cb expi interval s = Inr (a,
      s\<lparr>tq_heap := (tq_heap s)(a \<mapsto> new_Timer cb expi interval (tq_numCreated s)),
        tq_numCreated := tq_numCreated s + 1\<rparr>)"
    using assms(3) by (simp add: create_timer_def)
  have a: "tq_heap s a = None" "0 < a" "a < UINTPTR_MAX" using assms(2,3) by (auto simp: alloc_ok_def)
  then show "tq_heap s a = None" "a \<notin> F" using assms(1) by (auto simp: tq_inv_def)
  show "tq_inv tid (insert a F) (s\<lparr>tq_heap := (tq_heap s)(a \<mapsto> new_Timer cb expi interval (tq_numCreated s)),
        tq_numCreated := tq_numCreated s + 1\<rparr>)"
    using a by (intro tq_inv_heap_other [OF assms(1)]) (auto simp: new_Timer_def)
qed

lemma tq_inv_frame [simp]:
  "tq_inv tid F (s\<lparr>tq_cancelingTimers := c\<rparr>) = tq_inv tid F s"
  "tq_inv tid F (s\<lparr>tq_callingExpiredTimers := b\<rparr>) = tq_inv tid F s"
  "tq_inv tid F (s\<lparr>tq_fired := f\<rparr>) = tq_inv tid F s"
  "tq_inv tid F (s\<lparr>tq_armed := r\<rparr>) = tq_inv tid F s"
  "tq_inv tid F (s\<lparr>tq_ticks := n\<rparr>) = tq_inv tid F s"
  "tq_inv tid F (s\<lparr>el_pendingFunctors := fs\<rparr>) = tq_inv tid F s"
  "tq_inv tid F (s\<lparr>el_wakeups := w\<rparr>) = tq_inv tid F s"
  "tq_inv tid F (s\<lparr>el_callingPendingFunctors := b\<rparr>) = tq_inv tid F s"
  by (simp_all add: tq_inv_def expiration_of_def [abs_def] sequence_of_def [abs_def])

lemma tq_inv_reset [simp]: "tq_inv tid F (resetTimerFd e s) = tq_inv tid F s"
  by (simp add: resetTimerFd_def read_clock_def)

text \<open>The live timer a \<open>TimerId\<close> denotes, if it is queued.\<close>

definition names_queued :: "nat set \<Rightarrow> TimerId \<Rightarrow> 'cb TimerQueue \<Rightarrow> bool" where
  "names_queued F i s \<longleftrightarrow> id_timer i \<notin> F \<and>
     (\<exists>t. tq_heap s (id_timer i) = Some t \<and> tm_sequence t = id_sequence i)"

definition dequeued :: "nat \<Rightarrow> 'cb TimerQueue \<Rightarrow> 'cb TimerQueue" where
  "dequeued a s = s\<lparr>tq_timers := remove1 (expiration_of s a, a) (tq_timers s),
     tq_heap := (tq_heap s)(a := None),
     tq_activeTimers := remove1 (a, sequence_of s a) (tq_activeTimers s)\<rparr>"

lemma tq_inv_dequeued:
  assumes inv: "tq_inv tid F s" and a: "a \<notin> F" "tq_heap s a \<noteq> None"
  shows "tq_inv tid F (dequeued a s)"
proof -
  let ?s = "dequeued a s" and ?h = "(tq_heap s)(a := None)"
  let ?Q = "dom (tq_heap s) - F"
  have Q: "dom ?h - F = ?Q - {a}" by auto
  have "(\<lambda>b. (expiration_of ?s b, b)) ` (?Q - {a}) = (\<lambda>b. (expiration_of s b, b)) ` ?Q - {(expiration_of s a, a)}"
    "(\<lambda>b. (b, sequence_of ?s b)) ` (?Q - {a}) = (\<lambda>b. (b, sequence_of s b)) ` ?Q - {(a, sequence_of s a)}"
    by (auto simp: expiration_of_def sequence_of_def image_iff dequeued_def)
  moreover have "inj_on (sequence_of ?s) (dom ?h)"
  proof -
    have "inj_on (sequence_of s) (dom ?h)"
      using inv by (auto simp: tq_inv_def intro: inj_on_subset)
    moreover have "sequence_of ?s b = sequence_of s b" if "b \<in> dom ?h" for b
      using that by (auto simp: sequence_of_def dequeued_def split: if_splits)
    ultimately show ?thesis using inj_on_cong [of "dom ?h" "sequence_of ?s" "sequence_of s"] by blast
  qed
  moreover have heap: "tq_heap ?s = ?h" "el_threadId ?s = el_threadId s" "tq_numCreated ?s = tq_numCreated s"
    "tq_timers ?s = remove1 (expiration_of s a, a) (tq_timers s)"
    "tq_activeTimers ?s = remove1 (a, sequence_of s a) (tq_activeTimers s)" by (simp_all add: dequeued_def)
  ultimately show ?thesis
    using inv a unfolding tq_inv_def heap Q by (auto simp: sorted_remove1)
qed

lemma cancelInLoop_run:
  assumes inv: "tq_inv tid F s"
  shows "cancelInLoop tid i s = Inr
      (if names_queued F i s then dequeued (id_timer i) s
       else if tq_callingExpiredTimers s
         then s\<lparr>tq_cancelingTimers := fst (set_insert (id_timer i, id_sequence i) (tq_cancelingTimers s))\<rparr>
       else s)"
proof (cases "names_queued F i s")
  case True
  then obtain t where t: "id_timer i \<notin> F" "tq_heap s (id_timer i) = Some t" "tm_sequence t = id_sequence i"
    by (auto simp: names_queued_def)
  then have mem: "(id_timer i, id_sequence i) \<in> set (tq_activeTimers s)"
    "(tm_expiration t, id_timer i) \<in> set (tq_timers s)"
    by (simp_all add: tq_queued [OF inv])
  have "expiration_of s (id_timer i) = tm_expiration t" "sequence_of s (id_timer i) = id_sequence i"
    using t by (simp_all add: expiration_of_def sequence_of_def)
  moreover have "tq_inv tid F (dequeued (id_timer i) s)" using tq_inv_dequeued [OF inv t(1)] t(2) by simp
  from tq_same_size [OF this] have "same_size (dequeued (id_timer i) s) = Inr ()" .
  ultimately show ?thesis
    using inv t mem True
    by (simp add: cancelInLoop_def set_erase_def delete_timer_def deref_timer_def dequeued_def Let_def)
next
  case False
  then have mem: "(id_timer i, id_sequence i) \<notin> set (tq_activeTimers s)"
    using tq_queued(2) [OF inv] by (auto simp: names_queued_def)
  have "same_size (s\<lparr>tq_cancelingTimers := c\<rparr>) = Inr ()" for c using inv by (simp add: tq_same_size [of tid F])
  with inv mem False show ?thesis by (simp add: cancelInLoop_def Let_def)
qed

lemma cancelInLoop_inv:
  assumes "tq_inv tid F s" and "cancelInLoop tid i s = Inr s'"
  shows "tq_inv tid F s'"
  using assms(2) tq_inv_dequeued [OF assms(1), of "id_timer i"] assms(1)
  unfolding cancelInLoop_run [OF assms(1)] by (auto simp: names_queued_def split: if_splits)

lemma erase_active_all:
  assumes "distinct as" and "std_set (tq_activeTimers s)"
    and "\<And>a. a \<in> set as \<Longrightarrow> tq_heap s a \<noteq> None \<and> (a, sequence_of s a) \<in> set (tq_activeTimers s)"
  shows "\<exists>act. rfold erase_active as s = Inr (s\<lparr>tq_activeTimers := act\<rparr>) \<and> std_set act \<and>
    set act = set (tq_activeTimers s) - (\<lambda>a. (a, sequence_of s a)) ` set as"
  using assms
proof (induction as arbitrary: s)
  case Nil
  then show ?case by (intro exI [of _ "tq_activeTimers s"]) simp
next
  case (Cons a as)
  let ?act = "remove1 (a, sequence_of s a) (tq_activeTimers s)"
  let ?s = "s\<lparr>tq_activeTimers := ?act\<rparr>"
  from Cons.prems(3) [of a] obtain t where t: "tq_heap s a = Some t" by auto
  then have run: "erase_active a s = Inr ?s"
    using Cons.prems(3) [of a] by (simp add: erase_active_def set_erase_def sequence_of_def)
  have seq: "sequence_of ?s = sequence_of s" by (simp add: sequence_of_def fun_eq_iff)
  have std: "std_set (tq_activeTimers ?s)" using Cons.prems(2) by (simp add: sorted_remove1)
  have "tq_heap ?s b \<noteq> None \<and> (b, sequence_of ?s b) \<in> set (tq_activeTimers ?s)" if "b \<in> set as" for b
    using Cons.prems that by (auto simp: seq)
  from Cons.IH [OF _ std this] Cons.prems(1)
  obtain act where act: "rfold erase_active as ?s = Inr (?s\<lparr>tq_activeTimers := act\<rparr>)" "std_set act"
    "set act = set ?act - (\<lambda>a. (a, sequence_of s a)) ` set as" by (auto simp: seq)
  then have "rfold erase_active (a # as) s = Inr (s\<lparr>tq_activeTimers := act\<rparr>)" by (simp add: run)
  moreover have "set act = set (tq_activeTimers s) - (\<lambda>a. (a, sequence_of s a)) ` set (a # as)"
    using act(3) Cons.prems(2) by auto
  ultimately show ?case using act(2) by blast
qed

lemma getExpired_run:
  assumes inv: "tq_inv tid F s"
  shows "\<exists>expired s'. getExpired now s = Inr (expired, s') \<and>
    expired = takeWhile (\<lambda>(t, a). t \<le> now) (tq_timers s) \<and>
    tq_inv tid (F \<union> snd ` set expired) s' \<and> snd ` set expired \<inter> F = {} \<and> distinct (map snd expired) \<and>
    set expired = {(t, a) \<in> set (tq_timers s). t \<le> now} \<and>
    (\<exists>act. s' = s\<lparr>tq_timers := dropWhile (\<lambda>(t, a). t \<le> now) (tq_timers s), tq_activeTimers := act\<rparr>)"
proof -
  let ?P = "\<lambda>(t, a). t \<le> now" and ?x = "(now, UINTPTR_MAX)"
  let ?exp = "takeWhile ?P (tq_timers s)" and ?rest = "dropWhile ?P (tq_timers s)"
  let ?Q = "dom (tq_heap s) - F"
  have small: "a < UINTPTR_MAX" if "(t, a) \<in> set (tq_timers s)" for t a
    using inv that tq_queued(1) [OF inv] by (auto simp: tq_inv_def)
  then have P: "y < ?x \<longleftrightarrow> ?P y" if "y \<in> set (tq_timers s)" for y
    using that by (cases y) (auto simp: less_prod_def)
  have exp: "takeWhile (\<lambda>y. y < ?x) (tq_timers s) = ?exp"
    and rest: "dropWhile (\<lambda>y. y < ?x) (tq_timers s) = ?rest"
    using P by (auto intro: takeWhile_cong dropWhile_cong)
  have lb: "lower_bound ?x (tq_timers s) = length ?exp" by (simp only: lower_bound_def exp)
  have std: "sorted (tq_timers s)" "distinct (tq_timers s)" using inv by (simp_all add: tq_inv_def)
  have set_exp: "set ?exp = {(t, a) \<in> set (tq_timers s). t \<le> now}"
    using sorted_takeWhile_less [OF std(1), of ?x] P by (auto simp: exp)
  have set_rest: "set ?rest = {(t, a) \<in> set (tq_timers s). \<not> t \<le> now}"
    using sorted_dropWhile_less [OF std(1), of ?x] P by (auto simp: rest)
  have guard: "length ?exp = length (tq_timers s) \<or> now < fst (tq_timers s ! length ?exp)"
    using nth_length_takeWhile [of ?P "tq_timers s"] by (cases "length ?exp < length (tq_timers s)")
      (auto simp: case_prod_beta not_le not_less intro: le_antisym length_takeWhile_le)
  have queued: "(t, a) \<in> set (tq_timers s) \<longleftrightarrow> a \<in> ?Q \<and> t = expiration_of s a" for t a
    using tq_queued(1) [OF inv] by (auto simp: expiration_of_def)
  have inj: "distinct (map snd ?exp)"
    using distinct_takeWhile [OF std(2)] queued set_exp by (auto simp: distinct_map inj_on_def)
  let ?s = "s\<lparr>tq_timers := ?rest\<rparr>"
  have seq: "sequence_of ?s = sequence_of s" by (simp add: sequence_of_def fun_eq_iff)
  have "std_set (tq_activeTimers ?s)" using inv by (simp add: tq_inv_def)
  moreover have "tq_heap ?s a \<noteq> None \<and> (a, sequence_of ?s a) \<in> set (tq_activeTimers ?s)"
    if "a \<in> set (map snd ?exp)" for a
    using that set_exp queued inv unfolding seq by (auto simp: tq_inv_def)
  ultimately obtain act where act: "rfold erase_active (map snd ?exp) ?s = Inr (?s\<lparr>tq_activeTimers := act\<rparr>)"
    "std_set act" "set act = set (tq_activeTimers s) - (\<lambda>a. (a, sequence_of s a)) ` set (map snd ?exp)"
    using erase_active_all [OF inj, of ?s] unfolding seq by auto
  let ?t = "?s\<lparr>tq_activeTimers := act\<rparr>"
  have e: "expiration_of ?t = expiration_of s" "sequence_of ?t = sequence_of s"
    by (simp_all add: expiration_of_def sequence_of_def fun_eq_iff)
  have "set act = (\<lambda>a. (a, sequence_of s a)) ` (?Q - snd ` set ?exp)"
    using act(3) inv by (auto simp: tq_inv_def)
  moreover have "set ?rest = (\<lambda>a. (expiration_of s a, a)) ` (?Q - snd ` set ?exp)"
    using queued by (auto simp: set_rest set_exp image_iff)
  moreover have "dom (tq_heap s) - (F \<union> snd ` set ?exp) = ?Q - snd ` set ?exp" by blast
  moreover have "snd ` set ?exp \<subseteq> dom (tq_heap s)" using queued by (auto simp: set_exp)
  ultimately have inv': "tq_inv tid (F \<union> snd ` set ?exp) ?t"
    using inv act(2) std unfolding tq_inv_def e by (auto simp: sorted_dropWhile)
  have "getExpired now s = Inr (?exp, ?t)"
    using guard act(1) inv tq_same_size [OF inv']
    by (simp add: getExpired_def lb Let_def takeWhile_eq_take [symmetric] dropWhile_eq_drop [symmetric])
  with inv' inj set_exp queued show ?thesis by auto
qed

section \<open>Running commands and timers\<close>

text \<open>The only failure is that of the allocator.\<close>

definition holds :: "('a \<Rightarrow> bool) \<Rightarrow> 'a result \<Rightarrow> bool" where
  "holds P r = (case r of Inl e \<Rightarrow> e = bad_alloc | Inr x \<Rightarrow> P x)"

lemma holds_simps [simp]: "holds P (Inr x) = P x" "holds P (Inl e) = (e = bad_alloc)"
  by (simp_all add: holds_def)

lemma holds_rbind: "holds P m \<Longrightarrow> (\<And>x. P x \<Longrightarrow> holds Q (f x)) \<Longrightarrow> holds Q (rbind m f)"
  by (cases m) auto

lemma holds_mono: "holds P m \<Longrightarrow> (\<And>x. P x \<Longrightarrow> Q x) \<Longrightarrow> holds Q m"
  by (cases m) auto

lemma holds_rfold:
  assumes "P [] s" and "\<And>x ds s. P ds s \<Longrightarrow> x \<in> set xs \<Longrightarrow> holds (P (ds @ [x])) (f x s)"
  shows "holds (P xs) (rfold f xs s)"
proof -
  have "holds (P (ds @ ys)) (rfold f ys s)" if "P ds s" "set ys \<subseteq> set xs" for ds ys s
    using that
  proof (induction ys arbitrary: ds s)
    case (Cons y ys)
    then have "holds (P (ds @ [y])) (f y s)" using assms(2) by simp
    then show ?case using Cons.IH [of "ds @ [y]"] Cons.prems(2) by (auto intro: holds_rbind)
  qed simp
  from this [of "[]" s xs] assms(1) show ?thesis by simp
qed

text \<open>
  The timerfd is set no later than the first timer; while an alarm is handled (\<open>w\<close>) it may instead be
  that the first timer has a valid expiration, so that \<open>reset\<close> will set it.
\<close>

definition armed :: "bool \<Rightarrow> 'cb TimerQueue \<Rightarrow> bool" where
  "armed w s \<longleftrightarrow> tq_timers s = [] \<or> (\<exists>e ts. tq_armed s = Some (e, ts) \<and> e \<le> fst (hd (tq_timers s))) \<or>
     w \<and> valid (fst (hd (tq_timers s)))"

text \<open>What callbacks leave alone: timers in flight, and the bookkeeping of \<open>handleRead\<close>.\<close>

definition in_flight_kept :: "nat set \<Rightarrow> 'cb TimerQueue \<Rightarrow> 'cb TimerQueue \<Rightarrow> bool" where
  "in_flight_kept F s s' \<longleftrightarrow> (\<forall>a\<in>F. tq_heap s' a = tq_heap s a) \<and>
     el_pendingFunctors s' = el_pendingFunctors s \<and> tq_fired s' = tq_fired s \<and>
     tq_callingExpiredTimers s' = tq_callingExpiredTimers s \<and> tq_clock s' = tq_clock s"

lemma hd_insort:
  "hd (insort x xs) = (if xs = [] \<or> x \<le> hd xs then x else hd xs)"
  by (cases xs) auto

lemma hd_remove1_le:
  assumes "sorted xs" and "remove1 x xs \<noteq> []"
  shows "hd xs \<le> hd (remove1 x xs)"
  using assms set_remove1_subset [of x xs] hd_in_set [OF assms(2)]
  by (cases xs) auto

lemma valid_mono: "s \<le> t \<Longrightarrow> valid s \<Longrightarrow> valid t"
  by (simp add: valid_def Timestamp_order)

lemma addTimerInLoop_run:
  assumes inv: "tq_inv tid F s" and a: "a \<in> F" "tq_heap s a = Some t" and arm: "armed w s"
  shows "\<exists>s'. addTimerInLoop tid a s = Inr s' \<and> tq_inv tid (F - {a}) s' \<and> armed w s' \<and>
    tq_heap s' = tq_heap s \<and> in_flight_kept F s s' \<and> tq_cancelingTimers s' = tq_cancelingTimers s"
proof -
  let ?new = "(tm_expiration t, a)"
  let ?s = "s\<lparr>tq_timers := insort ?new (tq_timers s), tq_activeTimers := insort (a, tm_sequence t) (tq_activeTimers s)\<rparr>"
  let ?first = "tq_timers s = [] \<or> tm_expiration t < fst (hd (tq_timers s))"
  let ?t = "if ?first then resetTimerFd (tm_expiration t) ?s else ?s"
  note run = tq_inv_insert [OF inv a]
  have "armed w ?t"
  proof (cases ?first)
    case True
    then have "hd (insort ?new (tq_timers s)) = ?new"
      by (cases "hd (tq_timers s)") (auto simp: hd_insort less_eq_prod_def)
    with True show ?thesis by (simp add: armed_def resetTimerFd_def read_clock_def)
  next
    case False
    then have "fst (hd (insort ?new (tq_timers s))) = fst (hd (tq_timers s))"
      by (cases "hd (tq_timers s)") (auto simp: hd_insort less_eq_prod_def)
    with False arm show ?thesis by (simp add: armed_def)
  qed
  moreover have "addTimerInLoop tid a s = Inr ?t"
    using run inv a by (simp add: addTimerInLoop_def)
  ultimately show ?thesis
    using run(1) by (auto simp: in_flight_kept_def resetTimerFd_def read_clock_def)
qed

lemma cancelInLoop_armed:
  assumes inv: "tq_inv tid F s" and arm: "armed w s" and run: "cancelInLoop tid i s = Inr s'"
  shows "armed w s'" and "in_flight_kept F s s'"
proof -
  have "hd (tq_timers s) \<le> hd (remove1 x (tq_timers s))" if "remove1 x (tq_timers s) \<noteq> []" for x
    using hd_remove1_le [OF _ that] inv by (simp add: tq_inv_def)
  then have le: "fst (hd (tq_timers s)) \<le> fst (hd (remove1 x (tq_timers s)))"
    if "remove1 x (tq_timers s) \<noteq> []" for x
    using that by (fastforce simp: less_eq_prod_def)
  show "armed w s'"
  proof (cases "names_queued F i s")
    case True
    let ?x = "(expiration_of s (id_timer i), id_timer i)"
    have s': "s' = dequeued (id_timer i) s" using run True by (simp add: cancelInLoop_run [OF inv])
    show ?thesis
    proof (cases "remove1 ?x (tq_timers s) = []")
      case False
      then have "tq_timers s \<noteq> []" by auto
      with arm le [OF False] show ?thesis
        by (auto simp: armed_def s' dequeued_def intro: order_trans valid_mono)
    qed (simp add: armed_def s' dequeued_def)
  next
    case False
    with run arm show ?thesis by (auto simp: cancelInLoop_run [OF inv] armed_def split: if_splits)
  qed
  show "in_flight_kept F s s'"
    using run by (auto simp: cancelInLoop_run [OF inv] in_flight_kept_def dequeued_def names_queued_def split: if_splits)
qed

definition stable :: "int \<Rightarrow> bool \<Rightarrow> nat set \<Rightarrow> 'cb TimerQueue \<Rightarrow> 'cb TimerQueue \<Rightarrow> bool" where
  "stable tid w F s s' \<longleftrightarrow> tq_inv tid F s' \<and> armed w s' \<and> in_flight_kept F s s' \<and>
     set (tq_cancelingTimers s) \<subseteq> set (tq_cancelingTimers s')"

lemma stable_refl: "tq_inv tid F s \<Longrightarrow> armed w s \<Longrightarrow> stable tid w F s s"
  by (simp add: stable_def in_flight_kept_def)

lemma stable_trans: "stable tid w F s t \<Longrightarrow> stable tid w F t u \<Longrightarrow> stable tid w F s u"
  by (auto simp: stable_def in_flight_kept_def)

lemma own_thread [simp]: "tq_inv tid F s \<Longrightarrow> isInLoopThread tid s"
  by (simp add: tq_inv_def isInLoopThread_def)

lemma run_command_stable:
  assumes inv: "tq_inv tid F s" and arm: "armed w s" and alloc: "alloc_ok alloc"
  shows "holds (stable tid w F s) (run_command alloc tid c s)"
proof (cases c)
  case (Cancel i)
  obtain s' where s': "cancelInLoop tid i s = Inr s'" using cancelInLoop_run [OF inv] by blast
  have "set (tq_cancelingTimers s) \<subseteq> set (tq_cancelingTimers s')"
    using s' by (auto simp: cancelInLoop_run [OF inv] dequeued_def split: if_splits)
  with cancelInLoop_inv [OF inv s'] cancelInLoop_armed [OF inv arm s'] have "stable tid w F s s'"
    by (simp add: stable_def)
  with Cancel s' inv show ?thesis by (simp add: run_command_def cancel_def runInLoop_def run_tq_def)
next
  case (AddTimer cb expi i)
  show ?thesis
  proof (cases "alloc (tq_heap s)")
    case None
    with AddTimer show ?thesis by (simp add: run_command_def addTimer_def create_timer_def)
  next
    case (Some a)
    let ?t = "new_Timer cb expi i (tq_numCreated s)"
    let ?s = "s\<lparr>tq_heap := (tq_heap s)(a \<mapsto> ?t), tq_numCreated := tq_numCreated s + 1\<rparr>"
    note new = tq_inv_create(1,2) [OF inv alloc Some, where cb = cb and expi = expi and interval = i]
      tq_inv_create(3,4) [OF inv alloc Some]
    have "armed w ?s" using arm by (simp add: armed_def)
    with addTimerInLoop_run [OF new(2), of a ?t w] obtain s'
      where s': "addTimerInLoop tid a ?s = Inr s'" "tq_inv tid (insert a F - {a}) s'" "armed w s'"
        "tq_heap s' = tq_heap ?s" "in_flight_kept (insert a F) ?s s'" "tq_cancelingTimers s' = tq_cancelingTimers ?s"
      by auto
    have "insert a F - {a} = F" using new(3) by auto
    moreover have "in_flight_kept F s s'"
      using s'(5) new(3) by (auto simp: in_flight_kept_def)
    ultimately have "stable tid w F s s'" using s' by (simp add: stable_def)
    moreover have "run_command alloc tid c s = Inr s'"
      using AddTimer new(1) s'(1,4) own_thread [OF new(2)]
      by (simp add: run_command_def addTimer_def runInLoop_def run_tq_def)
    ultimately show ?thesis by simp
  qed
qed

lemma run_timer_stable:
  assumes inv: "tq_inv tid F s" and arm: "armed w s" and alloc: "alloc_ok alloc" and a: "a \<in> F"
  shows "holds (stable tid w F (s\<lparr>tq_fired := tq_fired s @ [(a, sequence_of s a)]\<rparr>)) (run_timer alloc prog tid a s)"
proof -
  let ?s = "s\<lparr>tq_fired := tq_fired s @ [(a, sequence_of s a)]\<rparr>"
  obtain t where t: "tq_heap s a = Some t" using inv a by (auto simp: tq_inv_def)
  have "tq_inv tid F ?s" "armed w ?s" using inv arm by (simp_all add: armed_def)
  then have "stable tid w F ?s ?s" by (rule stable_refl)
  moreover have "holds (stable tid w F ?s) (run_command alloc tid c u)" if "stable tid w F ?s u" for c u
    using that run_command_stable [OF _ _ alloc, of tid F u w c]
    by (auto simp: stable_def [of tid w F ?s u] elim!: holds_mono intro: stable_trans [OF that])
  ultimately have "holds (stable tid w F ?s) (rfold (run_command alloc tid) cs ?s)" for cs
    by (intro holds_rfold [where P = "\<lambda>_. stable tid w F ?s"])
  with t show ?thesis by (simp add: run_timer_def sequence_of_def)
qed

text \<open>What \<open>reset\<close> makes of a timer that has run.\<close>

definition outcome :: "Timestamp \<Rightarrow> (nat \<times> int) list \<Rightarrow> nat \<Rightarrow> 'cb Timer option \<Rightarrow> 'cb Timer option" where
  "outcome now canceled a x = (case x of None \<Rightarrow> None
     | Some t \<Rightarrow> if tm_repeat t \<and> (a, tm_sequence t) \<notin> set canceled then Some (restart now t) else None)"

lemma restart_valid:
  "valid now \<Longrightarrow> tm_repeat t \<Longrightarrow> 0 < tm_interval t \<Longrightarrow> valid (tm_expiration (restart now t))"
  by (auto simp: restart_def intro: valid_mono [OF addTime_later])

lemma armed_insort:
  assumes "armed True s" and "valid e"
  shows "armed True (s\<lparr>tq_timers := insort (e, a) (tq_timers s), tq_activeTimers := act\<rparr>)"
proof (cases "tq_timers s = [] \<or> (e, a) \<le> hd (tq_timers s)")
  case True
  with assms(2) show ?thesis by (auto simp: armed_def hd_insort)
next
  case False
  with assms show ?thesis by (auto simp: armed_def hd_insort)
qed

lemma reset_one_run:
  assumes inv: "tq_inv tid F s" and arm: "armed True s" and a: "a \<in> F" and now: "valid now"
  shows "\<exists>s'. reset_one tid now a s = Inr s' \<and> tq_inv tid (F - {a}) s' \<and> armed True s' \<and>
    tq_heap s' = (tq_heap s)(a := outcome now (tq_cancelingTimers s) a (tq_heap s a)) \<and> tq_cancelingTimers s' = tq_cancelingTimers s \<and>
    in_flight_kept {} s s'"
proof -
  obtain t where t: "tq_heap s a = Some t" using inv a by (auto simp: tq_inv_def)
  show ?thesis
  proof (cases "tm_repeat t \<and> (a, tm_sequence t) \<notin> set (tq_cancelingTimers s)")
    case True
    let ?r = "restart now t"
    let ?s = "s\<lparr>tq_heap := (tq_heap s)(a \<mapsto> ?r)\<rparr>"
    let ?t = "?s\<lparr>tq_timers := insort (tm_expiration ?r, a) (tq_timers ?s),
      tq_activeTimers := insort (a, tm_sequence ?r) (tq_activeTimers ?s)\<rparr>"
    have "0 < tm_interval t" using inv t True by (auto simp: tq_inv_def)
    then have "valid (tm_expiration ?r)" using restart_valid [OF now] True by blast
    moreover have "armed True ?s" using arm by (simp add: armed_def)
    ultimately have arm': "armed True ?t" by (intro armed_insort)
    have "tq_heap ?s a = Some ?r" by simp
    note tq_inv_insert [OF tq_inv_restart [OF inv a t] a this]
    moreover have "outcome now (tq_cancelingTimers s) a (tq_heap s a) = Some ?r" using t True by (simp add: outcome_def)
    ultimately show ?thesis using t True arm'
      by (intro exI [of _ ?t]) (simp add: reset_one_def in_flight_kept_def)
  next
    case False
    then have "outcome now (tq_cancelingTimers s) a (tq_heap s a) = None" using t by (simp add: outcome_def)
    moreover have "armed True (s\<lparr>tq_heap := (tq_heap s)(a := None)\<rparr>)" using arm by (simp add: armed_def)
    ultimately show ?thesis
      using t False tq_inv_delete [OF inv a] by (auto simp: reset_one_def in_flight_kept_def)
  qed
qed

lemma reset_all:
  assumes "distinct as" and "set as \<subseteq> F" and "tq_inv tid F s" and "armed True s" and "valid now"
  shows "\<exists>s'. rfold (reset_one tid now) as s = Inr s' \<and> tq_inv tid (F - set as) s' \<and> armed True s' \<and>
    tq_heap s' = (\<lambda>a. if a \<in> set as then outcome now (tq_cancelingTimers s) a (tq_heap s a) else tq_heap s a) \<and>
    tq_cancelingTimers s' = tq_cancelingTimers s \<and> in_flight_kept {} s s'"
  using assms
proof (induction as arbitrary: F s)
  case Nil
  then show ?case by (simp add: in_flight_kept_def)
next
  case (Cons a as)
  from reset_one_run [OF Cons.prems(3,4) _ Cons.prems(5), of a] Cons.prems(2)
  obtain u where u: "reset_one tid now a s = Inr u" "tq_inv tid (F - {a}) u" "armed True u"
    "tq_heap u = (tq_heap s)(a := outcome now (tq_cancelingTimers s) a (tq_heap s a))" "tq_cancelingTimers u = tq_cancelingTimers s"
    "in_flight_kept {} s u" by auto
  have "set as \<subseteq> F - {a}" "distinct as" using Cons.prems(1,2) by auto
  from Cons.IH [OF this(2,1) u(2,3) Cons.prems(5)] obtain s' where
    s': "rfold (reset_one tid now) as u = Inr s'" "tq_inv tid (F - {a} - set as) s'" "armed True s'"
    "tq_heap s' = (\<lambda>b. if b \<in> set as then outcome now (tq_cancelingTimers u) b (tq_heap u b) else tq_heap u b)"
    "tq_cancelingTimers s' = tq_cancelingTimers u" "in_flight_kept {} u s'" by blast
  have "F - {a} - set as = F - set (a # as)" by auto
  moreover have "outcome now (tq_cancelingTimers u) b (tq_heap u b) = outcome now (tq_cancelingTimers s) b (tq_heap s b)" if "b \<in> set as" for b
  proof -
    have "tq_heap u b = tq_heap s b" using that Cons.prems(1) u(4) by auto
    then show ?thesis by (simp only: u(5))
  qed
  then have "tq_heap s' = (\<lambda>b. if b \<in> set (a # as) then outcome now (tq_cancelingTimers s) b (tq_heap s b) else tq_heap s b)"
    using s'(4) u(4) Cons.prems(1) by (auto simp: fun_eq_iff)
  ultimately show ?case using u s' by (simp add: in_flight_kept_def)
qed

lemma reset_run:
  assumes "distinct (map snd es)" and "snd ` set es \<subseteq> F" and "tq_inv tid F s" and "armed True s" and "valid now"
  shows "\<exists>s'. reset tid es now s = Inr s' \<and> tq_inv tid (F - snd ` set es) s' \<and> armed False s' \<and>
    tq_heap s' = (\<lambda>a. if a \<in> snd ` set es then outcome now (tq_cancelingTimers s) a (tq_heap s a) else tq_heap s a) \<and>
    tq_cancelingTimers s' = tq_cancelingTimers s \<and> in_flight_kept {} s s'"
proof -
  from reset_all [OF assms(1) _ assms(3-5)] assms(2) obtain u where
    u: "rfold (reset_one tid now) (map snd es) s = Inr u" "tq_inv tid (F - snd ` set es) u" "armed True u"
    "tq_heap u = (\<lambda>a. if a \<in> snd ` set es then outcome now (tq_cancelingTimers s) a (tq_heap s a) else tq_heap s a)"
    "tq_cancelingTimers u = tq_cancelingTimers s" "in_flight_kept {} s u" by auto
  show ?thesis
  proof (cases "tq_timers u")
    case Nil
    with u show ?thesis by (auto simp: reset_def valid_def invalid_def armed_def)
  next
    case (Cons h hs)
    obtain e a where h: "h = (e, a)" by fastforce
    then have "(e, a) \<in> set (tq_timers u)" using Cons by simp
    then obtain t where t: "tq_heap u a = Some t" "tm_expiration t = e" by (auto simp: tq_queued [OF u(2)])
    let ?u = "if valid e then resetTimerFd e u else u"
    have "armed False ?u"
      using u(3) Cons h by (auto simp: armed_def resetTimerFd_def read_clock_def)
    moreover have "reset tid es now s = Inr ?u" using u(1) Cons h t by (simp add: reset_def)
    ultimately show ?thesis using u
      by (intro exI [of _ ?u]) (simp add: in_flight_kept_def resetTimerFd_def [of e u] read_clock_def)
  qed
qed

section \<open>The alarm, as a whole\<close>

abbreviation due :: "'cb TimerQueue \<Rightarrow> (Timestamp \<times> nat) list" where
  "due s \<equiv> takeWhile (\<lambda>(t, a). t \<le> tq_clock s (tq_ticks s)) (tq_timers s)"

text \<open>The state while the callbacks run, after the timers \<open>ds\<close> have.\<close>

definition running :: "int \<Rightarrow> nat set \<Rightarrow> 'cb TimerQueue \<Rightarrow> nat list \<Rightarrow> 'cb TimerQueue \<Rightarrow> bool" where
  "running tid G s ds u \<longleftrightarrow> tq_inv tid G u \<and> armed True u \<and> (\<forall>a\<in>G. tq_heap u a = tq_heap s a) \<and>
     tq_fired u = tq_fired s @ map (\<lambda>a. (a, sequence_of s a)) ds \<and>
     el_pendingFunctors u = el_pendingFunctors s \<and> tq_callingExpiredTimers u \<and> tq_clock u = tq_clock s"

lemma armed_after_expiry:
  assumes "valid now" and "tq_timers s = dropWhile (\<lambda>(t, a). t \<le> now) ts"
  shows "armed True s"
proof (cases "tq_timers s")
  case (Cons x xs)
  then have "\<not> (\<lambda>(t, a). t \<le> now) x" using assms(2) hd_dropWhile [of "\<lambda>(t, a). t \<le> now" ts] by auto
  then have "now \<le> fst x" by (cases x) auto
  with Cons assms(1) show ?thesis by (auto simp: armed_def intro: valid_mono)
qed (simp add: armed_def)

lemma run_all_timers:
  assumes alloc: "alloc_ok alloc" and start: "running tid G s [] u" and sub: "set as \<subseteq> G"
  shows "holds (running tid G s as) (rfold (run_timer alloc prog tid) as u)"
proof (rule holds_rfold [where P = "running tid G s", OF start])
  fix a ds v
  assume v: "running tid G s ds v" and "a \<in> set as"
  then have a: "a \<in> G" using sub by blast
  let ?v = "v\<lparr>tq_fired := tq_fired v @ [(a, sequence_of v a)]\<rparr>"
  have seq: "sequence_of v a = sequence_of s a" using v a by (simp add: running_def sequence_of_def)
  have "holds (stable tid True G ?v) (run_timer alloc prog tid a v)"
    using v by (intro run_timer_stable [OF _ _ alloc a]) (simp_all add: running_def)
  then show "holds (running tid G s (ds @ [a])) (run_timer alloc prog tid a v)"
    by (rule holds_mono) (use v seq in \<open>auto simp: running_def stable_def in_flight_kept_def\<close>)
qed

text \<open>What an alarm has done once the timers have run and \<open>reset\<close> has restarted or deleted them.\<close>

definition alarm_done where
  "alarm_done tid F s s' \<longleftrightarrow> tq_inv tid F s' \<and> armed False s' \<and> \<not> tq_callingExpiredTimers s' \<and>
     tq_fired s' = tq_fired s @ map (\<lambda>(t, a). (a, sequence_of s a)) (due s) \<and>
     (\<forall>(t, a)\<in>set (due s). tq_heap s' a =
       outcome (tq_clock s (tq_ticks s)) (tq_cancelingTimers s') a (tq_heap s a)) \<and>
     el_pendingFunctors s' = el_pendingFunctors s \<and> tq_clock s' = tq_clock s"

lemma reset_after_run:
  assumes dist: "distinct (map snd (due s))" and disj: "snd ` set (due s) \<inter> F = {}"
    and now: "valid (tq_clock s (tq_ticks s))" and v: "running tid (F \<union> snd ` set (due s)) s (map snd (due s)) v"
  shows "holds (alarm_done tid F s) (reset tid (due s) (tq_clock s (tq_ticks s)) (v\<lparr>tq_callingExpiredTimers := False\<rparr>))"
proof -
  let ?now = "tq_clock s (tq_ticks s)" and ?G = "F \<union> snd ` set (due s)"
  let ?v = "v\<lparr>tq_callingExpiredTimers := False\<rparr>"
  have rest: "?G - snd ` set (due s) = F" using disj by auto
  have fired: "map (\<lambda>a. (a, sequence_of s a)) (map snd (due s)) = map (\<lambda>(t, a). (a, sequence_of s a)) (due s)"
    by (simp add: case_prod_beta)
  have "tq_inv tid ?G ?v" "armed True ?v" using v by (simp_all add: running_def armed_def)
  from reset_run [OF dist _ this now] obtain s' where
    s': "reset tid (due s) ?now ?v = Inr s'" "tq_inv tid F s'" "armed False s'"
    "tq_heap s' = (\<lambda>a. if a \<in> snd ` set (due s) then outcome ?now (tq_cancelingTimers ?v) a (tq_heap ?v a) else tq_heap ?v a)"
    "tq_cancelingTimers s' = tq_cancelingTimers ?v" "in_flight_kept {} ?v s'"
    by (auto simp: rest)
  have "tq_heap s' a = outcome ?now (tq_cancelingTimers s') a (tq_heap s a)"
    if a: "a \<in> snd ` set (due s)" for a
  proof -
    have "tq_heap ?v a = tq_heap s a" using v a by (simp add: running_def)
    with a s'(4,5) show ?thesis by simp
  qed
  moreover have "a \<in> snd ` set (due s)" if "(t, a) \<in> set (due s)" for t a using that by force
  ultimately have "\<forall>(t, a)\<in>set (due s). tq_heap s' a = outcome ?now (tq_cancelingTimers s') a (tq_heap s a)"
    by blast
  with s' v fired show ?thesis by (simp add: alarm_done_def running_def in_flight_kept_def)
qed

text \<open>
  C7. An alarm runs exactly the timers that are due, once each and in the order of their
  expirations, whatever the callbacks do (they may add timers and cancel any timer, themselves
  included): no assertion fails and no deleted timer is touched; then a repeating timer that was
  not cancelled meanwhile is restarted one interval after the alarm, every other timer that ran is
  deleted; and the timerfd is set again if a timer is left. The only failure is \<open>std::bad_alloc\<close>.
\<close>

theorem handleRead_correct:
  assumes inv: "tq_inv tid F s" and alloc: "alloc_ok alloc" and now: "valid (tq_clock s (tq_ticks s))"
  shows "holds (\<lambda>s'. tq_inv tid F s' \<and> armed False s' \<and> \<not> tq_callingExpiredTimers s' \<and>
      tq_fired s' = tq_fired s @ map (\<lambda>(t, a). (a, sequence_of s a)) (due s) \<and>
      (\<forall>(t, a)\<in>set (due s). tq_heap s' a =
        outcome (tq_clock s (tq_ticks s)) (tq_cancelingTimers s') a (tq_heap s a)) \<and>
      el_pendingFunctors s' = el_pendingFunctors s \<and> tq_clock s' = tq_clock s)
    (tq_handleRead alloc prog tid s)"
proof -
  let ?now = "tq_clock s (tq_ticks s)" and ?G = "F \<union> snd ` set (due s)"
  let ?r = "readTimerfd (s\<lparr>tq_ticks := tq_ticks s + 1\<rparr>)"
  have "tq_inv tid F ?r" and timers: "tq_timers ?r = tq_timers s" "tq_heap ?r = tq_heap s"
    using inv by (simp_all add: readTimerfd_def)
  obtain es u0 act where e: "getExpired ?now ?r = Inr (es, u0)" "es = due s"
    "tq_inv tid (F \<union> snd ` set es) u0" "snd ` set es \<inter> F = {}" "distinct (map snd es)"
    "u0 = ?r\<lparr>tq_timers := dropWhile (\<lambda>(t, a). t \<le> ?now) (tq_timers s), tq_activeTimers := act\<rparr>"
    using getExpired_run [OF \<open>tq_inv tid F ?r\<close>, of ?now] unfolding timers by blast
  let ?e = "?r\<lparr>tq_timers := dropWhile (\<lambda>(t, a). t \<le> ?now) (tq_timers s), tq_activeTimers := act\<rparr>"
  let ?u = "?e\<lparr>tq_callingExpiredTimers := True, tq_cancelingTimers := []\<rparr>"
  have exp: "getExpired ?now ?r = Inr (due s, ?e)" and inv1: "tq_inv tid ?G ?e"
    and dist: "distinct (map snd (due s))" and disj: "snd ` set (due s) \<inter> F = {}"
    using e by simp_all
  have "armed True ?u" by (rule armed_after_expiry [OF now]) simp
  then have start: "running tid ?G s [] ?u"
    using inv1 by (simp add: running_def readTimerfd_def)
  have sub: "set (map snd (due s)) \<subseteq> ?G" by auto
  have "tq_handleRead alloc prog tid s = rbind (rfold (run_timer alloc prog tid) (map snd (due s)) ?u)
      (\<lambda>v. reset tid (due s) ?now (v\<lparr>tq_callingExpiredTimers := False\<rparr>))"
    using inv exp by (simp add: tq_handleRead_def read_clock_def Let_def)
  moreover have "holds (alarm_done tid F s) \<dots>"
    by (rule holds_rbind [OF run_all_timers [OF alloc start sub]]) (rule reset_after_run [OF dist disj now])
  ultimately show ?thesis by (simp only: alarm_done_def [abs_def])
qed

section \<open>Any traffic\<close>

datatype 'cb tq_event =
  Ask int "'cb command" \<comment> \<open>a thread calls \<open>addTimer\<close> or \<open>cancel\<close>\<close>
| RunPending \<comment> \<open>the loop runs its functors\<close>
| Alarm \<comment> \<open>the loop handles the timerfd\<close>

definition tq_step ::
  "'cb allocator \<Rightarrow> 'cb program \<Rightarrow> int \<Rightarrow> 'cb tq_event \<Rightarrow> 'cb TimerQueue \<Rightarrow> 'cb TimerQueue result" where
  "tq_step alloc prog tid ev = (case ev of
     Ask t c \<Rightarrow> run_command alloc t c
   | RunPending \<Rightarrow> doPendingFunctors (run_tq tid)
   | Alarm \<Rightarrow> tq_handleRead alloc prog tid)"

definition adds :: "tq_functor list \<Rightarrow> nat list" where
  "adds fs = concat (map (\<lambda>f. case f of AddTimerInLoop a \<Rightarrow> [a] | CancelInLoop i \<Rightarrow> []) fs)"

lemma adds_simps [simp]: "adds [] = []" "adds (AddTimerInLoop a # fs) = a # adds fs"
  "adds (CancelInLoop i # fs) = adds fs" "adds (fs @ gs) = adds fs @ adds gs"
  by (simp_all add: adds_def)

definition sys_inv :: "int \<Rightarrow> 'cb TimerQueue \<Rightarrow> bool" where
  "sys_inv tid s \<longleftrightarrow> tq_inv tid (set (adds (el_pendingFunctors s))) s \<and>
     distinct (adds (el_pendingFunctors s)) \<and> armed False s \<and> (\<forall>n. valid (tq_clock s n))"

lemma tq_no_leak:
  assumes "tq_inv tid F s"
  shows "dom (tq_heap s) = snd ` set (tq_timers s) \<union> F"
proof -
  have "snd ` set (tq_timers s) = dom (tq_heap s) - F"
    using assms by (simp add: tq_inv_def image_image)
  then show ?thesis using assms by (auto simp: tq_inv_def)
qed

lemma run_functors:
  assumes "tq_inv tid (set (adds fs)) s" and "distinct (adds fs)" and "armed False s"
  shows "\<exists>s'. rfold (run_tq tid) fs s = Inr s' \<and> tq_inv tid {} s' \<and> armed False s' \<and>
    el_pendingFunctors s' = el_pendingFunctors s \<and> tq_clock s' = tq_clock s"
  using assms
proof (induction fs arbitrary: s)
  case (Cons f fs)
  have "\<exists>u. run_tq tid f s = Inr u \<and> tq_inv tid (set (adds fs)) u \<and> armed False u \<and>
    el_pendingFunctors u = el_pendingFunctors s \<and> tq_clock u = tq_clock s"
  proof (cases f)
    case (AddTimerInLoop a)
    then obtain t where "tq_heap s a = Some t" using Cons.prems(1) by (auto simp: tq_inv_def)
    moreover have "set (adds (f # fs)) - {a} = set (adds fs)" using AddTimerInLoop Cons.prems(2) by auto
    ultimately show ?thesis
      using addTimerInLoop_run [OF Cons.prems(1) _ _ Cons.prems(3), of a t] AddTimerInLoop
      by (auto simp: run_tq_def in_flight_kept_def)
  next
    case (CancelInLoop i)
    then have inv: "tq_inv tid (set (adds fs)) s" using Cons.prems(1) by simp
    obtain u where u: "cancelInLoop tid i s = Inr u" using cancelInLoop_run [OF inv] by blast
    from cancelInLoop_inv [OF inv u] cancelInLoop_armed [OF inv Cons.prems(3) u] u CancelInLoop
    show ?thesis by (simp add: run_tq_def in_flight_kept_def)
  qed
  then obtain u where u: "run_tq tid f s = Inr u" "tq_inv tid (set (adds fs)) u" "armed False u"
    "el_pendingFunctors u = el_pendingFunctors s" "tq_clock u = tq_clock s" by blast
  have "distinct (adds fs)" using Cons.prems(2) by (cases f) simp_all
  from Cons.IH [OF u(2) this u(3)] u show ?case by auto
qed simp

lemma ask_other_thread:
  assumes sys: "sys_inv tid s" and alloc: "alloc_ok alloc" and t: "t \<noteq> tid"
  shows "holds (sys_inv tid) (run_command alloc t c s)"
proof -
  have inv: "tq_inv tid (set (adds (el_pendingFunctors s))) s" and arm: "armed False s"
    using sys by (simp_all add: sys_inv_def)
  have other: "\<not> isInLoopThread t s" using inv t by (simp add: tq_inv_def isInLoopThread_def)
  show ?thesis
  proof (cases c)
    case (Cancel i)
    with other sys show ?thesis
      by (simp add: run_command_def cancel_def runInLoop_def queueInLoop_def push_functor_def
          needs_wakeup_def isInLoopThread_def wakeup_def sys_inv_def armed_def Let_def)
  next
    case (AddTimer cb expi i)
    show ?thesis
    proof (cases "alloc (tq_heap s)")
      case None
      with AddTimer show ?thesis by (simp add: run_command_def addTimer_def create_timer_def)
    next
      case (Some a)
      note new = tq_inv_create(1,2) [OF inv alloc Some, where cb = cb and expi = expi and interval = i]
        tq_inv_create(3,4) [OF inv alloc Some]
      from new other sys AddTimer show ?thesis
        by (simp add: run_command_def addTimer_def runInLoop_def queueInLoop_def push_functor_def
            needs_wakeup_def isInLoopThread_def wakeup_def sys_inv_def armed_def Let_def deref_timer_def)
    qed
  qed
qed

lemma tq_step_inv:
  assumes sys: "sys_inv tid s" and alloc: "alloc_ok alloc"
  shows "holds (sys_inv tid) (tq_step alloc prog tid ev s)"
proof (cases ev)
  case (Ask t c)
  show ?thesis
  proof (cases "t = tid")
    case True
    have "holds (sys_inv tid) (run_command alloc tid c s)"
      by (rule holds_mono [OF run_command_stable [OF _ _ alloc]])
        (use sys in \<open>auto simp: sys_inv_def stable_def in_flight_kept_def\<close>)
    with Ask True show ?thesis by (simp add: tq_step_def)
  next
    case False
    with Ask ask_other_thread [OF sys alloc] show ?thesis by (simp add: tq_step_def)
  qed
next
  case RunPending
  let ?s = "s\<lparr>el_callingPendingFunctors := True, el_pendingFunctors := []\<rparr>"
  have "tq_inv tid (set (adds (el_pendingFunctors s))) ?s" "armed False ?s"
    using sys by (simp_all add: sys_inv_def armed_def)
  from run_functors [OF this(1) _ this(2)] sys obtain u where
    "rfold (run_tq tid) (el_pendingFunctors s) ?s = Inr u" "tq_inv tid {} u" "armed False u"
    "el_pendingFunctors u = []" "tq_clock u = tq_clock s" by (auto simp: sys_inv_def)
  with RunPending sys show ?thesis
    by (simp add: tq_step_def doPendingFunctors_def swap_functors_def sys_inv_def armed_def)
next
  case Alarm
  have "holds (sys_inv tid) (tq_handleRead alloc prog tid s)"
    by (rule holds_mono [OF handleRead_correct [OF _ alloc]]) (use sys in \<open>auto simp: sys_inv_def\<close>)
  with Alarm show ?thesis by (simp add: tq_step_def)
qed

lemma tq_run_inv:
  assumes "sys_inv tid s" and "alloc_ok alloc"
  shows "holds (sys_inv tid) (rfold (tq_step alloc prog tid) evs s)"
  using assms by (intro holds_rfold [where P = "\<lambda>_. sys_inv tid"]) (auto intro: tq_step_inv)


section \<open>Concrete queues\<close>

definition example_alloc :: "nat allocator" where
  "example_alloc h = (if h 16 = None then Some 16 else if h 32 = None then Some 32 else None)"

definition example_tq :: "nat TimerQueue" where
  "example_tq = \<lparr>chans = (\<lambda>_. None), pollfds = [], channels = (\<lambda>_. None), el_self = 1,
     el_looping = False, el_quit = False, el_eventHandling = False, el_callingPendingFunctors = False,
     el_threadId = 77, el_pollReturnTime = 0, el_activeChannels = [], el_currentActiveChannel = None,
     el_pendingFunctors = [], el_wakeups = 0,
     tq_heap = (\<lambda>_. None), tq_numCreated = 0, tq_timers = [], tq_activeTimers = [],
     tq_callingExpiredTimers = False, tq_cancelingTimers = [], tq_armed = None,
     tq_clock = (\<lambda>n. Timestamp (int n * 1000000 + 1)), tq_ticks = 0, tq_fired = []\<rparr>"

definition one_timer :: "rat \<Rightarrow> nat TimerQueue" where
  "one_timer interval = example_tq\<lparr>tq_heap := [16 \<mapsto> new_Timer 5 (Timestamp 1) interval 0], tq_numCreated := 1,
     tq_timers := [(Timestamp 1, 16)], tq_activeTimers := [(16, 1)]\<rparr>"

lemma example_alloc_ok: "alloc_ok example_alloc"
  by (simp add: alloc_ok_def example_alloc_def UINTPTR_MAX_def)

lemma example_sys_inv: "sys_inv 77 example_tq"
  by (simp add: sys_inv_def tq_inv_def example_tq_def armed_def valid_def)

lemma one_timer_inv: "tq_inv 77 {} (one_timer i)"
  by (auto simp: tq_inv_def one_timer_def example_tq_def new_Timer_def UINTPTR_MAX_def
      expiration_of_def sequence_of_def)

theorem handleRead_correct_witness:
  "holds (\<lambda>s'. tq_fired s' = [(16, 1)] \<and> tq_heap s' 16 = None \<and> armed False s')
    (tq_handleRead example_alloc (\<lambda>cb s. [AddTimer 6 (Timestamp 5) 0]) 77 (one_timer 0))"
proof -
  let ?s = "one_timer 0"
  have now: "valid (tq_clock ?s (tq_ticks ?s))" by (simp add: one_timer_def example_tq_def valid_def)
  have due: "due ?s = [(Timestamp 1, 16)]" by (simp add: one_timer_def example_tq_def)
  have old: "tq_fired ?s = []" "sequence_of ?s 16 = 1"
    "\<And>now c. outcome now c 16 (tq_heap ?s 16) = None"
    by (simp_all add: one_timer_def example_tq_def sequence_of_def new_Timer_def outcome_def)
  show ?thesis
    by (rule holds_mono [OF handleRead_correct [OF one_timer_inv example_alloc_ok now]]) (simp add: due old)
qed


text \<open>
  C24. Cancelling: a \<open>TimerId\<close> that names a queued timer removes and deletes that timer and nothing
  else, so it does not run again; a stale one, whose timer is gone, is ignored, even when its
  address has been given to a newer timer; and for a timer that is being run, by itself or by
  another callback of the same batch, the request is remembered so that \<open>reset\<close> deletes it instead
  of restarting it.
\<close>

theorem cancel_semantics:
  assumes inv: "tq_inv tid F s"
  shows "\<exists>s'. cancelInLoop tid i s = Inr s' \<and> tq_inv tid F s' \<and>
    (names_queued F i s \<longrightarrow> tq_heap s' = (tq_heap s)(id_timer i := None) \<and>
       id_timer i \<notin> snd ` set (tq_timers s')) \<and>
    (\<not> names_queued F i s \<and> \<not> tq_callingExpiredTimers s \<longrightarrow> s' = s) \<and>
    (\<not> names_queued F i s \<and> tq_callingExpiredTimers s \<longrightarrow> tq_heap s' = tq_heap s \<and>
       (\<forall>now t. tm_sequence t = id_sequence i \<longrightarrow>
         outcome now (tq_cancelingTimers s') (id_timer i) (Some t) = None))"
proof -
  obtain s' where s': "cancelInLoop tid i s = Inr s'" using cancelInLoop_run [OF inv] by blast
  have inv': "tq_inv tid F s'" by (rule cancelInLoop_inv [OF inv s'])
  have gone: "id_timer i \<notin> snd ` set (tq_timers s')" if "names_queued F i s"
    using s' that tq_queued(1) [OF inv'] by (auto simp: cancelInLoop_run [OF inv] dequeued_def)
  show ?thesis
    using s' inv' gone by (auto simp: cancelInLoop_run [OF inv] dequeued_def outcome_def split: if_splits)
qed

theorem cancel_semantics_witness:
  "\<exists>s'. cancelInLoop 77 \<lparr>id_timer = 16, id_sequence = 1\<rparr> (one_timer 3) = Inr s' \<and> tq_heap s' 16 = None"
  using cancel_semantics [OF one_timer_inv, of "\<lparr>id_timer = 16, id_sequence = 1\<rparr>" 3]
  by (auto simp: names_queued_def one_timer_def new_Timer_def)

text \<open>
  The timerfd is never set to zero, which would disarm it, and always to a well-formed
  \<open>timespec\<close>: the time until the expiration or 100 microseconds, whichever is longer.
\<close>

theorem howMuchTimeFromNow_bounds:
  "tv_sec (howMuchTimeFromNow now expi) * 1000000000 + tv_nsec (howMuchTimeFromNow now expi) =
     max 100 (microSecondsSinceEpoch expi - microSecondsSinceEpoch now) * 1000 \<and>
   0 \<le> tv_sec (howMuchTimeFromNow now expi) \<and>
   0 \<le> tv_nsec (howMuchTimeFromNow now expi) \<and> tv_nsec (howMuchTimeFromNow now expi) < 1000000000"
proof -
  define m where "m = max 100 (microSecondsSinceEpoch expi - microSecondsSinceEpoch now)"
  have pos: "0 \<le> m" by (simp add: m_def)
  have eq: "howMuchTimeFromNow now expi = \<lparr>tv_sec = m div 1000000, tv_nsec = m mod 1000000 * 1000\<rparr>"
    by (auto simp: howMuchTimeFromNow_def Let_def kMicroSecondsPerSecond_def cdiv_nonneg cmod_nonneg max_def m_def)
  have "m div 1000000 * 1000000 + m mod 1000000 = m" by (rule div_mult_mod_eq)
  then have "m div 1000000 * 1000000000 + m mod 1000000 * 1000 = m * 1000" by linarith
  with pos show ?thesis unfolding eq m_def [symmetric] by (simp add: pos_imp_zdiv_nonneg_iff)
qed

text \<open>
  Defect: \<open>addTimer\<close> from another thread races with the loop. It reads \<open>timer->sequence()\<close> after
  it has handed the timer to the loop; if the loop runs the functor and the alarm of a one-shot
  timer before that, the timer has been deleted and the read is of freed memory.
\<close>

theorem addTimer_race:
  "\<exists>s1 s2 a. create_timer example_alloc 5 (Timestamp 0) 0 example_tq = Inr (a, s1) \<and>
     rfold (tq_step example_alloc (\<lambda>cb s. []) 77) [RunPending, Alarm]
       (queueInLoop 78 (AddTimerInLoop a) s1) = Inr s2 \<and>
     deref_timer a s2 = Inl (Undefined ''dangling Timer'')"
  by (simp add: create_timer_def example_alloc_def example_tq_def queueInLoop_def push_functor_def
      needs_wakeup_def isInLoopThread_def wakeup_def tq_step_def doPendingFunctors_def swap_functors_def
      run_tq_def addTimerInLoop_def assertInLoopThread_def tq_insert_def same_size_def deref_timer_def
      new_Timer_def set_insert_def resetTimerFd_def read_clock_def tq_handleRead_def readTimerfd_def
      getExpired_def lower_bound_def UINTPTR_MAX_def erase_active_def set_erase_def run_timer_def
      reset_def reset_one_def delete_timer_def less_prod_def Timestamp_order Let_def invalid_def valid_def)

end
