(* ===== verification/LogStream.thy ===== *)
theory LogStream
  imports Prelude
begin

text \<open>
  \<open>muduo/base/LogStream.h\<close> and \<open>LogStream.cc\<close>: the fixed buffer of the logger and the conversions that print
  into it. The array \<open>data_\<close> is a string of length \<open>SIZE\<close>, \<open>cur_\<close> an offset into it; a store outside the
  array is \<open>Undefined\<close>. Integers of every type are their value as an \<open>int\<close>, since division and remainder
  by 10 do not leave the type; pointers are 64 bit words. What \<open>snprintf\<close> prints for a \<open>double\<close> or for
  the argument of \<open>Fmt\<close> is an argument.

  The specification of a stream is its text: each item is appended as a whole, or dropped as a whole
  when there is not enough room.
\<close>

section \<open>Integer to string\<close>

definition digits :: string where "digits = ''9876543210123456789''"

definition zero :: nat where "zero = 9"

definition digitsHex :: string where "digitsHex = ''0123456789ABCDEF''"

function convert_loop :: "int \<Rightarrow> string" where
  "convert_loop i =
     (let lsd = cmod i 10;
          i = cdiv i 10
      in digits ! nat (int zero + lsd) # (if i \<noteq> 0 then convert_loop i else []))"
  by pat_completeness auto
termination
proof (relation "measure (\<lambda>i. nat \<bar>i\<bar>)")
  fix i lsd j :: int
  assume "j = cdiv i 10" "j \<noteq> 0"
  then have "\<bar>j\<bar> = \<bar>i\<bar> div 10" "i \<noteq> 0" by (auto simp: cdiv_def abs_mult)
  then have "\<bar>j\<bar> < \<bar>i\<bar>" by simp
  then show "(j, i) \<in> measure (\<lambda>i. nat \<bar>i\<bar>)" by simp
qed simp

declare convert_loop.simps [simp del]

definition convert :: "int \<Rightarrow> string" where
  "convert value = rev (convert_loop value @ (if value < 0 then ''-'' else []))"

function convertHex_loop :: "64 word \<Rightarrow> string" where
  "convertHex_loop i =
     (let lsd = unat (i mod 16);
          i = i div 16
      in digitsHex ! lsd # (if i \<noteq> 0 then convertHex_loop i else []))"
  by pat_completeness auto
termination
proof (relation "measure unat")
  fix i j :: "64 word" and lsd
  assume "j = i div 16" "j \<noteq> 0"
  then have "unat j = unat i div 16" "i \<noteq> 0" by (auto simp: unat_div)
  then have "unat j = unat i div 16" "unat i \<noteq> 0" by (simp_all add: unat_eq_zero)
  then show "(j, i) \<in> measure unat" by simp
qed simp

declare convertHex_loop.simps [simp del]

definition convertHex :: "64 word \<Rightarrow> string" where
  "convertHex value = rev (convertHex_loop value)"

section \<open>\<open>FixedBuffer\<close>\<close>

record FixedBuffer =
  fb_data :: string
  fb_cur :: nat

definition kSmallBuffer :: nat where "kSmallBuffer = 4000"

definition kLargeBuffer :: nat where "kLargeBuffer = 4000 * 1000"

definition new_FixedBuffer :: "string \<Rightarrow> FixedBuffer" where
  \<comment> \<open>the array is not initialised: \<open>garbage\<close> is what it holds\<close>
  "new_FixedBuffer garbage = \<lparr>fb_data = garbage, fb_cur = 0\<rparr>"

definition fb_avail :: "FixedBuffer \<Rightarrow> int" where
  "fb_avail b = int (length (fb_data b)) - int (fb_cur b)"

definition fb_length :: "FixedBuffer \<Rightarrow> nat" where
  "fb_length b = fb_cur b"

definition store :: "nat \<Rightarrow> string \<Rightarrow> FixedBuffer \<Rightarrow> FixedBuffer result" where
  \<comment> \<open>storing \<open>xs\<close> from offset \<open>i\<close> on\<close>
  "store i xs b =
     (if i + length xs \<le> length (fb_data b)
      then Inr (b\<lparr>fb_data := take i (fb_data b) @ xs @ drop (i + length xs) (fb_data b)\<rparr>)
      else Inl (Undefined ''store outside the buffer''))"

definition fb_add :: "nat \<Rightarrow> FixedBuffer \<Rightarrow> FixedBuffer" where
  "fb_add len b = b\<lparr>fb_cur := fb_cur b + len\<rparr>"

definition fb_append :: "string \<Rightarrow> FixedBuffer \<Rightarrow> FixedBuffer result" where
  "fb_append buf b =
     (if nat (fb_avail b) > length buf
      then rbind (store (fb_cur b) buf b) (\<lambda>b. Inr (fb_add (length buf) b))
      else Inr b)"

definition fb_reset :: "FixedBuffer \<Rightarrow> FixedBuffer" where
  "fb_reset b = b\<lparr>fb_cur := 0\<rparr>"

definition fb_bzero :: "FixedBuffer \<Rightarrow> FixedBuffer" where
  "fb_bzero b = b\<lparr>fb_data := replicate (length (fb_data b)) (CHR 0x00)\<rparr>"

definition debugString :: "FixedBuffer \<Rightarrow> FixedBuffer result" where
  "debugString b = store (fb_cur b) [CHR 0x00] b"

definition asString :: "FixedBuffer \<Rightarrow> string" where
  "asString b = take (fb_length b) (fb_data b)"

section \<open>\<open>LogStream\<close>\<close>

definition kMaxNumericSize :: nat where "kMaxNumericSize = 32"

definition formatInteger :: "int \<Rightarrow> FixedBuffer \<Rightarrow> FixedBuffer result" where
  "formatInteger v b =
     (if fb_avail b > int kMaxNumericSize
      then rbind (store (fb_cur b) (convert v @ [CHR 0x00]) b) (\<lambda>b. Inr (fb_add (length (convert v)) b))
      else Inr b)"

definition put_bool :: "bool \<Rightarrow> FixedBuffer \<Rightarrow> FixedBuffer result" where
  "put_bool v = fb_append (if v then ''1'' else ''0'')"

definition put_pointer :: "64 word \<Rightarrow> FixedBuffer \<Rightarrow> FixedBuffer result" where
  "put_pointer v b =
     (if fb_avail b \<ge> int kMaxNumericSize
      then rbind (store (fb_cur b) ''0x'' b) (\<lambda>b.
           rbind (store (fb_cur b + 2) (convertHex v @ [CHR 0x00]) b) (\<lambda>b.
           Inr (fb_add (length (convertHex v) + 2) b)))
      else Inr b)"

definition put_double :: "string \<Rightarrow> FixedBuffer \<Rightarrow> FixedBuffer result" where
  \<comment> \<open>\<open>printed\<close> is the value in the format \<open>%.12g\<close>; \<open>snprintf\<close> returns its whole length\<close>
  "put_double printed b =
     (if fb_avail b > int kMaxNumericSize
      then rbind (store (fb_cur b) (snprintf kMaxNumericSize printed @ [CHR 0x00]) b) (\<lambda>b.
           Inr (fb_add (length printed) b))
      else Inr b)"

definition new_Fmt :: "string \<Rightarrow> string result" where
  "new_Fmt printed =
     rbind (guard (length printed < 32) ''static_cast<size_t>(length_) < sizeof buf_'') (\<lambda>_.
     Inr (snprintf 32 printed))"

text \<open>The overloads of \<open>operator<<\<close>.\<close>

datatype log_item =
    LBool bool | LInteger int | LPointer "64 word" | LDouble string | LChar char | LString string | LFmt string

fun put_item :: "log_item \<Rightarrow> FixedBuffer \<Rightarrow> FixedBuffer result" where
  "put_item (LBool v) b = put_bool v b"
| "put_item (LInteger v) b = formatInteger v b"
| "put_item (LPointer p) b = put_pointer p b"
| "put_item (LDouble printed) b = put_double printed b"
| "put_item (LChar c) b = fb_append [c] b"
| "put_item (LString v) b = fb_append v b"
| "put_item (LFmt printed) b = rbind (new_Fmt printed) (\<lambda>buf. fb_append buf b)"

section \<open>The conversions are right\<close>

lemma digit_lookup_all:
  "\<forall>d\<in>set [0..<10]. digits ! (zero + d) = digit_char d \<and> digits ! (zero - d) = digit_char d"
  by code_simp

lemma digit_lookup:
  assumes "\<bar>lsd\<bar> < 10"
  shows "digits ! nat (int zero + lsd) = digit_char (nat \<bar>lsd\<bar>)"
proof -
  from assms have "nat \<bar>lsd\<bar> \<in> set [0..<10]" by auto
  note this [THEN digit_lookup_all [THEN bspec]]
  moreover have "nat (int zero + lsd) = (if lsd < 0 then zero - nat \<bar>lsd\<bar> else zero + nat \<bar>lsd\<bar>)"
    using assms by (auto simp: zero_def)
  ultimately show ?thesis by (cases "lsd < 0"; simp)
qed

lemma convert_loop_eq: "rev (convert_loop i) = show_nat (nat \<bar>i\<bar>)"
proof (induction i rule: convert_loop.induct)
  case (1 i)
  have rem: "\<bar>cmod i 10\<bar> = \<bar>i\<bar> mod 10" and quot: "\<bar>cdiv i 10\<bar> = \<bar>i\<bar> div 10"
    by (cases "0 \<le> i"; simp add: cmod_nonneg cdiv_nonneg;
        use cmod_minus [of "- i" 10] cdiv_minus [of "- i" 10] in \<open>simp add: cmod_nonneg cdiv_nonneg\<close>)+
  have digit: "digits ! nat (int zero + cmod i 10) = digit_char (nat \<bar>i\<bar> mod 10)"
    using digit_lookup [of "cmod i 10"] by (simp add: rem nat_mod_distrib)
  show ?case
  proof (cases "\<bar>i\<bar> < 10")
    case True
    then have "cdiv i 10 = 0" using quot by simp
    with True show ?thesis
      by (simp add: convert_loop.simps [of i] digit show_nat.simps [of "nat \<bar>i\<bar>"] Let_def)
  next
    case False
    then have nz: "cdiv i 10 \<noteq> 0" using quot by auto
    with "1" have "rev (convert_loop (cdiv i 10)) = show_nat (nat \<bar>i\<bar> div 10)"
      by (simp add: quot nat_div_distrib)
    with nz False show ?thesis
      by (simp add: convert_loop.simps [of i] digit show_nat.simps [of "nat \<bar>i\<bar>"] Let_def)
  qed
qed

lemma convert_eq: "convert v = show_int v"
  by (auto simp: convert_def convert_loop_eq show_int_def)

lemma convert_length: "- (2 ^ 63) \<le> v \<Longrightarrow> v < 2 ^ 64 \<Longrightarrow> length (convert v) \<le> 20"
  using length_show_nat_le [of "nat v" 20] length_show_nat_le [of "nat (- v)" 19]
  by (auto simp: convert_eq show_int_def)

fun read_hex :: "string \<Rightarrow> nat \<Rightarrow> nat" where
  "read_hex [] acc = acc"
| "read_hex (c # cs) acc = read_hex cs (16 * acc + std_find c digitsHex)"

lemma read_hex_append: "read_hex (xs @ ys) acc = read_hex ys (read_hex xs acc)"
  by (induction xs acc rule: read_hex.induct) simp_all

lemma hex_digit_all: "\<forall>d\<in>set [0..<16]. std_find (digitsHex ! d) digitsHex = d"
  by code_simp

lemma hex_digit: "d < 16 \<Longrightarrow> std_find (digitsHex ! d) digitsHex = d"
  using hex_digit_all by auto

lemma convertHex_loop_eq: "read_hex (rev (convertHex_loop i)) 0 = unat i"
proof (induction i rule: convertHex_loop.induct)
  case (1 i)
  have digit: "std_find (digitsHex ! unat (i mod 16)) digitsHex = unat i mod 16"
    using hex_digit [of "unat i mod 16"] by (simp add: unat_mod)
  have quot: "i div 16 = 0 \<longleftrightarrow> unat i div 16 = 0"
    using unat_eq_zero [of "i div 16"] by (simp add: unat_div)
  show ?case
  proof (cases "i div 16 = 0")
    case True
    with quot digit show ?thesis by (simp add: convertHex_loop.simps [of i] Let_def)
  next
    case False
    with "1" digit show ?thesis
      by (simp add: convertHex_loop.simps [of i] Let_def read_hex_append unat_div)
  qed
qed

lemma convertHex_loop_length: "unat i < 16 ^ k \<Longrightarrow> 0 < k \<Longrightarrow> length (convertHex_loop i) \<le> k"
proof (induction k arbitrary: i)
  case (Suc k)
  show ?case
  proof (cases "i div 16 = 0")
    case True
    then show ?thesis by (simp add: convertHex_loop.simps [of i] Let_def)
  next
    case False
    then have nz: "unat i div 16 \<noteq> 0" using unat_eq_zero [of "i div 16"] by (simp add: unat_div)
    have "unat i div 16 < 16 ^ k" using Suc.prems(1) by (simp add: less_mult_imp_div_less mult.commute)
    moreover from this nz have "0 < k" by (cases k) auto
    ultimately show ?thesis
      using Suc.IH [of "i div 16"] False by (simp add: convertHex_loop.simps [of i] Let_def unat_div)
  qed
qed simp

lemma convertHex_length: "length (convertHex v) \<le> 16"
proof -
  have "unat v < 2 ^ LENGTH(64)" by (rule unsigned_less)
  then show ?thesis using convertHex_loop_length [of v 16] by (simp add: convertHex_def)
qed

lemma convertHex_read: "read_hex (convertHex v) 0 = unat v"
  by (simp add: convertHex_def convertHex_loop_eq)

section \<open>What a stream holds\<close>

definition fb_ok :: "nat \<Rightarrow> FixedBuffer \<Rightarrow> bool" where
  "fb_ok n b \<longleftrightarrow> length (fb_data b) = n \<and> fb_cur b < n"

lemma asString_length: "fb_ok n b \<Longrightarrow> length (asString b) = fb_cur b"
  by (simp add: fb_ok_def asString_def fb_length_def)

text \<open>Storing \<open>xs\<close> behind the text and then counting the first \<open>k\<close> bytes of it.\<close>

lemma store_add:
  assumes "fb_ok n b" "fb_cur b + length xs \<le> n" "k \<le> length xs" "fb_cur b + k < n"
  shows "\<exists>b'. store (fb_cur b) xs b = Inr b' \<and> fb_cur b' = fb_cur b \<and> fb_ok n (fb_add k b') \<and>
    asString (fb_add k b') = asString b @ take k xs"
  using assms by (auto simp: store_def fb_ok_def asString_def fb_length_def fb_add_def)

lemma append_text:
  assumes "fb_ok n b"
  shows "\<exists>b'. fb_append xs b = Inr b' \<and> fb_ok n b' \<and>
    asString b' = asString b @ (if fb_cur b + length xs < n then xs else [])"
proof (cases "fb_cur b + length xs < n")
  case True
  with store_add [OF assms, of xs "length xs"] assms show ?thesis
    by (auto simp: fb_append_def fb_avail_def fb_ok_def)
next
  case False
  with assms show ?thesis by (auto simp: fb_append_def fb_avail_def fb_ok_def)
qed

text \<open>The text of an item, the room the code asks for, and what the types guarantee of the items.\<close>

fun item_text :: "log_item \<Rightarrow> string" where
  "item_text (LBool v) = (if v then ''1'' else ''0'')"
| "item_text (LInteger v) = show_int v"
| "item_text (LPointer p) = ''0x'' @ convertHex p"
| "item_text (LDouble printed) = printed"
| "item_text (LChar c) = [c]"
| "item_text (LString v) = v"
| "item_text (LFmt printed) = printed"

fun item_room :: "log_item \<Rightarrow> nat" where
  "item_room (LInteger v) = 33"
| "item_room (LPointer p) = 32"
| "item_room (LDouble printed) = 33"
| "item_room item = length (item_text item) + 1"

fun item_ok :: "log_item \<Rightarrow> bool" where
  "item_ok (LInteger v) \<longleftrightarrow> - (2 ^ 63) \<le> v \<and> v < 2 ^ 64"
| "item_ok (LDouble printed) \<longleftrightarrow> length printed < 32"
| "item_ok (LFmt printed) \<longleftrightarrow> length printed < 32"
| "item_ok _ \<longleftrightarrow> True"

definition stream_spec :: "nat \<Rightarrow> string \<Rightarrow> log_item \<Rightarrow> string" where
  "stream_spec n acc item =
     (if length acc + item_room item \<le> n then acc @ item_text item else acc)"

lemma put_pointer_text:
  assumes ok: "fb_ok n b" and room: "fb_cur b + 32 \<le> n"
  shows "\<exists>b'. put_pointer p b = Inr b' \<and> fb_ok n b' \<and> asString b' = asString b @ ''0x'' @ convertHex p"
proof -
  let ?hex = "convertHex p"
  have "length ?hex \<le> 16" by (rule convertHex_length)
  moreover from ok room obtain b1 where b1: "store (fb_cur b) ''0x'' b = Inr b1" "fb_cur b1 = fb_cur b"
    "fb_ok n (fb_add 2 b1)" "asString (fb_add 2 b1) = asString b @ ''0x''"
    using store_add [OF ok, of "''0x''" 2] by auto
  ultimately obtain b2 where b2: "store (fb_cur b + 2) (?hex @ [CHR 0x00]) (fb_add 2 b1) = Inr b2"
    "fb_ok n (fb_add (length ?hex) b2)"
    "asString (fb_add (length ?hex) b2) = asString b @ ''0x'' @ ?hex"
    using store_add [OF b1(3), of "?hex @ [CHR 0x00]" "length ?hex"] room by (auto simp: fb_add_def)
  have "\<exists>b3. store (fb_cur b + 2) (?hex @ [CHR 0x00]) b1 = Inr b3 \<and>
      fb_add (length ?hex + 2) b3 = fb_add (length ?hex) b2"
    using b1(2) b2(1) by (auto simp: store_def fb_add_def split: if_splits)
  with b1(1,2) b2 room ok show ?thesis
    by (auto simp: put_pointer_def fb_avail_def kMaxNumericSize_def fb_ok_def)
qed

lemma put_item_correct:
  assumes ok: "fb_ok n b" and item: "item_ok item"
  shows "\<exists>b'. put_item item b = Inr b' \<and> fb_ok n b' \<and> asString b' = stream_spec n (asString b) item"
proof -
  note len = asString_length [OF ok]
  note defs = fb_avail_def kMaxNumericSize_def stream_spec_def len fb_ok_def
  show ?thesis
  proof (cases item)
    case (LInteger v)
    with item have "length (convert v) \<le> 20" by (auto intro: convert_length)
    with store_add [OF ok, of "convert v @ [CHR 0x00]" "length (convert v)"] ok LInteger
    show ?thesis by (cases "fb_cur b + 33 \<le> n") (auto simp: formatInteger_def defs convert_eq)
  next
    case (LPointer p)
    with put_pointer_text [OF ok, of p] ok show ?thesis
      by (cases "fb_cur b + 32 \<le> n") (auto simp: put_pointer_def defs)
  next
    case (LDouble printed)
    with store_add [OF ok, of "printed @ [CHR 0x00]" "length printed"] ok item show ?thesis
      by (cases "fb_cur b + 33 \<le> n") (auto simp: put_double_def snprintf_def defs)
  next
    case (LFmt printed)
    with append_text [OF ok, of printed] item show ?thesis
      by (auto simp: new_Fmt_def snprintf_def stream_spec_def len)
  next
    case (LBool v)
    with append_text [OF ok, of "item_text item"] show ?thesis
      by (auto simp: put_bool_def stream_spec_def len split: if_splits)
  next
    case (LChar c)
    with append_text [OF ok, of "item_text item"] show ?thesis
      by (auto simp: stream_spec_def len split: if_splits)
  next
    case (LString v)
    with append_text [OF ok, of "item_text item"] show ?thesis
      by (auto simp: stream_spec_def len split: if_splits)
  qed
qed

lemma put_items_correct:
  "fb_ok n b \<Longrightarrow> \<forall>item\<in>set items. item_ok item \<Longrightarrow>
    \<exists>b'. rfold put_item items b = Inr b' \<and> fb_ok n b' \<and> asString b' = foldl (stream_spec n) (asString b) items"
proof (induction items arbitrary: b)
  case (Cons item items)
  from put_item_correct [OF Cons.prems(1), of item] Cons.prems(2) obtain b1 where
    "put_item item b = Inr b1" "fb_ok n b1" "asString b1 = stream_spec n (asString b) item" by auto
  with Cons.IH [of b1] Cons.prems(2) show ?case by simp
qed simp

lemma stream_spec_fits:
  "length acc + length (concat (map item_text items)) + 33 \<le> n \<Longrightarrow>
    foldl (stream_spec n) acc items = acc @ concat (map item_text items)"
proof (induction items arbitrary: acc)
  case (Cons item items)
  have "item_room item \<le> length (item_text item) + 33" by (cases item) simp_all
  with Cons.prems have "stream_spec n acc item = acc @ item_text item" by (simp add: stream_spec_def)
  with Cons show ?case by simp
qed simp

section \<open>Properties\<close>

text \<open>
  C29. The table-driven conversion of integers prints exactly the decimal numeral, for every value of
  every integer type, the most negative ones included, in at most 20 characters; the conversion of
  pointers prints a numeral of at most 16 digits that reads back as the address.
\<close>

theorem convert_equivalence:
  "convert v = show_int v \<and> (- (2 ^ 63) \<le> v \<longrightarrow> v < 2 ^ 64 \<longrightarrow> length (convert v) \<le> 20) \<and>
   read_hex (convertHex p) 0 = unat p \<and> length (convertHex p) \<le> 16"
  using convert_length convertHex_length by (simp add: convert_eq convertHex_read)

theorem convert_equivalence_witness:
  "convert (- (2 ^ 63)) = show_int (- (2 ^ 63)) \<and> length (convert (- (2 ^ 63))) \<le> 20"
  using convert_equivalence [where v = "- (2 ^ 63)" and p = 0] by auto

text \<open>
  C28. A log stream never stores outside its buffer and always has room for the terminating NUL of
  \<open>debugString\<close>: after any sequence of \<open>operator<<\<close> its text is the one in which each item is printed
  whole, or left out whole when the room the code asks for is not there.
\<close>

theorem log_stream_refines:
  assumes "fb_ok n b" "\<forall>item\<in>set items. item_ok item"
  shows "\<exists>b'. rfold put_item items b = Inr b' \<and> asString b' = foldl (stream_spec n) (asString b) items \<and>
    length (asString b') < n \<and> is_ok (debugString b')"
proof -
  from put_items_correct [OF assms] obtain b' where b': "rfold put_item items b = Inr b'" "fb_ok n b'"
    "asString b' = foldl (stream_spec n) (asString b) items" by blast
  with asString_length [OF b'(2)] show ?thesis by (auto simp: fb_ok_def debugString_def store_def)
qed

theorem log_stream_refines_witness:
  "\<exists>b'. rfold put_item [LString ''x='', LInteger (-7), LBool True] (new_FixedBuffer (replicate 40 (CHR 0x00))) = Inr b' \<and>
    asString b' = foldl (stream_spec 40) [] [LString ''x='', LInteger (-7), LBool True]"
proof -
  let ?b = "new_FixedBuffer (replicate 40 (CHR 0x00))"
  have "fb_ok 40 ?b" "asString ?b = []" by (simp_all add: fb_ok_def new_FixedBuffer_def asString_def fb_length_def)
  with log_stream_refines [OF this(1), of "[LString ''x='', LInteger (-7), LBool True]"] show ?thesis
    by (simp del: rfold.simps foldl.simps) blast
qed

end
