(* ===== verification/Logging.thy ===== *)
theory Logging
  imports LogStream Timestamp
begin

text \<open>
  \<open>muduo/base/CurrentThread.h\<close>, \<open>Thread.cc\<close>, \<open>Logging.h\<close> and \<open>Logging.cc\<close>: the thread's identity and its
  start, and the logger, an object that lives for one log statement. The thread-local variables are the
  record \<open>thread_locals\<close>. Parameters: what \<open>gettid\<close> returns, \<open>gmtime\<close>, the seconds printed as
  \<open>%4d%02d%02d %02d:%02d:%02d\<close> in UTC, \<open>strerror\<close>, and how the thread's function ends.
\<close>

section \<open>The current thread\<close>

record thread_locals =
  t_cachedTid :: int
  t_tidString :: string
  t_threadName :: string
  t_time :: string
  t_lastSecond :: int

definition new_thread_locals :: thread_locals where
  "new_thread_locals = \<lparr>t_cachedTid = 0, t_tidString = [], t_threadName = ''unknow'',
     t_time = [], t_lastSecond = 0\<rparr>"

definition cacheTid :: "int \<Rightarrow> thread_locals \<Rightarrow> thread_locals result" where
  "cacheTid gettid ls =
     (if t_cachedTid ls = 0 then
        let printed = pad_left 5 (show_int gettid) @ '' '';
            ls = ls\<lparr>t_cachedTid := gettid, t_tidString := snprintf 32 printed\<rparr>
        in rbind (guard (length printed = 6) ''n == 6'') (\<lambda>_. Inr ls)
      else Inr ls)"

definition current_tid :: "int \<Rightarrow> thread_locals \<Rightarrow> (int \<times> thread_locals) result" where
  "current_tid gettid ls =
     rbind (if t_cachedTid ls = 0 then cacheTid gettid ls else Inr ls) (\<lambda>ls.
     Inr (t_cachedTid ls, ls))"

definition isMainThread :: "int \<Rightarrow> int \<Rightarrow> thread_locals \<Rightarrow> (bool \<times> thread_locals) result" where
  "isMainThread getpid gettid ls =
     rbind (current_tid gettid ls) (\<lambda>(t, ls). Inr (t = getpid, ls))"

definition afterFork :: "int \<Rightarrow> thread_locals \<Rightarrow> thread_locals result" where
  "afterFork gettid ls =
     rbind (current_tid gettid (ls\<lparr>t_cachedTid := 0, t_threadName := ''main''\<rparr>)) (\<lambda>(t, ls). Inr ls)"

definition ThreadNameInitializer :: "int \<Rightarrow> thread_locals \<Rightarrow> thread_locals result" where
  "ThreadNameInitializer gettid ls =
     rbind (current_tid gettid (ls\<lparr>t_threadName := ''main''\<rparr>)) (\<lambda>(t, ls). Inr ls)"

section \<open>Threads\<close>

record Thread =
  th_started :: bool
  th_pthreadId :: nat
  th_tid :: int
  th_name :: string

definition new_Thread :: "string \<Rightarrow> int \<Rightarrow> Thread \<times> int" where
  \<comment> \<open>with the counter \<open>numCreated_\<close>\<close>
  "new_Thread n numCreated = (\<lparr>th_started = False, th_pthreadId = 0, th_tid = 0, th_name = n\<rparr>, numCreated + 1)"

text \<open>\<open>created\<close> is the answer of \<open>pthread_create\<close>: the new id, or an error number.\<close>

definition thread_start :: "int + nat \<Rightarrow> Thread \<Rightarrow> Thread result" where
  "thread_start created th =
     rbind (guard (\<not> th_started th) ''!started_'') (\<lambda>_.
     let th = th\<lparr>th_started := True\<rparr>
     in Inr (case created of Inl errno \<Rightarrow> th | Inr pid \<Rightarrow> th\<lparr>th_pthreadId := pid\<rparr>))"

definition thread_join :: "Thread \<Rightarrow> nat result" where
  \<comment> \<open>the id that is joined\<close>
  "thread_join th = rbind (guard (th_started th) ''started_'') (\<lambda>_. Inr (th_pthreadId th))"

datatype func_end = Returns | MuduoException | OtherException

definition runInThread :: "int \<Rightarrow> func_end \<Rightarrow> Thread \<Rightarrow> thread_locals \<Rightarrow> (Thread \<times> thread_locals) result" where
  "runInThread gettid func th ls =
     rbind (current_tid gettid ls) (\<lambda>(t, ls).
     let th = th\<lparr>th_tid := t\<rparr>; ls = ls\<lparr>t_threadName := th_name th\<rparr>
     in case func of
          Returns \<Rightarrow> Inr (th, ls\<lparr>t_threadName := ''finished''\<rparr>)
        | MuduoException \<Rightarrow> Inl (Fatal ''exception caught in Thread'')
        | OtherException \<Rightarrow> Inl (Fatal ''unknow exception caught in Thread''))"

section \<open>The logger\<close>

datatype LogLevel = TRACE | DEBUG | INFO | WARN | ERROR | FATAL

definition LogLevelName :: "LogLevel \<Rightarrow> string" where
  "LogLevelName level = (case level of
     TRACE \<Rightarrow> ''TRACE '' | DEBUG \<Rightarrow> ''DEBUG '' | INFO \<Rightarrow> ''INFO  '' | WARN \<Rightarrow> ''WARN  ''
   | ERROR \<Rightarrow> ''ERROR '' | FATAL \<Rightarrow> ''FATAL '')"

definition level_of :: "LogLevel \<Rightarrow> nat" where
  "level_of level = (case level of TRACE \<Rightarrow> 0 | DEBUG \<Rightarrow> 1 | INFO \<Rightarrow> 2 | WARN \<Rightarrow> 3 | ERROR \<Rightarrow> 4 | FATAL \<Rightarrow> 5)"

text \<open>Whether a \<open>LOG_\<close> macro creates a logger at all.\<close>

definition log_enabled :: "LogLevel \<Rightarrow> LogLevel \<Rightarrow> bool" where
  "log_enabled g_logLevel level =
     (if level \<in> {TRACE, DEBUG, INFO} then level_of g_logLevel \<le> level_of level else True)"

definition SourceFile :: "string \<Rightarrow> string" where
  \<comment> \<open>what follows the last slash\<close>
  "SourceFile filename = rev (takeWhile (\<lambda>c. c \<noteq> CHR ''/'') (rev filename))"

text \<open>\<open>T(str, len)\<close> asserts the length of its string.\<close>

definition put_T :: "string \<Rightarrow> nat \<Rightarrow> FixedBuffer \<Rightarrow> FixedBuffer result" where
  "put_T str len b = rbind (guard (length str = len) ''strlen(str) == len_'') (\<lambda>_. put_item (LString str) b)"

record Logger =
  lg_time :: Timestamp
  lg_stream :: FixedBuffer
  lg_level :: LogLevel
  lg_line :: int
  lg_basename :: string

definition format_us :: "Timestamp \<Rightarrow> string" where
  "format_us t = ''.'' @ pad_zeros 6 (Prelude.cmod (microSecondsSinceEpoch t) 1000000) @ ''Z ''"

text \<open>The cached seconds: printed again only when the second has changed.\<close>

definition update_t_time :: "(int \<Rightarrow> string) \<Rightarrow> Timestamp \<Rightarrow> thread_locals \<Rightarrow> thread_locals result" where
  "update_t_time gmtime time ls =
     (let seconds = cdiv (microSecondsSinceEpoch time) 1000000 in
      if seconds \<noteq> t_lastSecond ls then
        let printed = gmtime seconds;
            ls = ls\<lparr>t_lastSecond := seconds, t_time := snprintf 32 printed\<rparr>
        in rbind (guard (length printed = 17) ''len == 17'') (\<lambda>_. Inr ls)
      else Inr ls)"

definition formatTime :: "(int \<Rightarrow> string) \<Rightarrow> Timestamp \<Rightarrow> thread_locals \<Rightarrow> FixedBuffer \<Rightarrow>
    (thread_locals \<times> FixedBuffer) result" where
  "formatTime gmtime time ls b =
     rbind (update_t_time gmtime time ls) (\<lambda>ls.
     rbind (new_Fmt (format_us time)) (\<lambda>us.
     rbind (guard (length us = 9) ''us.length() == 9'') (\<lambda>_.
     rbind (put_T (t_time ls) 17 b) (\<lambda>b.
     rbind (put_T us 9 b) (\<lambda>b. Inr (ls, b))))))"

definition put_errno :: "(int \<Rightarrow> string) \<Rightarrow> int \<Rightarrow> FixedBuffer \<Rightarrow> FixedBuffer result" where
  "put_errno strerror savedErrno b =
     (if savedErrno \<noteq> 0
      then rfold put_item [LString (strerror savedErrno), LString ''(errno='', LInteger savedErrno, LString '')''] b
      else Inr b)"

definition new_Impl :: "(int \<Rightarrow> string) \<Rightarrow> (int \<Rightarrow> string) \<Rightarrow> int \<Rightarrow> Timestamp \<Rightarrow> string \<Rightarrow>
    LogLevel \<Rightarrow> int \<Rightarrow> string \<Rightarrow> int \<Rightarrow> thread_locals \<Rightarrow> (Logger \<times> thread_locals) result" where
  "new_Impl gmtime strerror gettid now garbage level savedErrno fname line ls =
     rbind (formatTime gmtime now ls (new_FixedBuffer garbage)) (\<lambda>(ls, b).
     rbind (current_tid gettid ls) (\<lambda>(t, ls).
     rbind (put_T (t_tidString ls) 6 b) (\<lambda>b.
     rbind (put_T (LogLevelName level) 6 b) (\<lambda>b.
     rbind (put_errno strerror savedErrno b) (\<lambda>b.
     Inr (\<lparr>lg_time = now, lg_stream = b, lg_level = level, lg_line = line, lg_basename = fname\<rparr>, ls))))))"

definition finish :: "Logger \<Rightarrow> Logger result" where
  "finish lg =
     rbind (rfold put_item [LString ''-'', LString (lg_basename lg), LChar (CHR '':''), LInteger (lg_line lg),
       LChar (CHR 0x0A)] (lg_stream lg)) (\<lambda>b.
     Inr (lg\<lparr>lg_stream := b\<rparr>))"

definition log_items :: "log_item list \<Rightarrow> Logger \<Rightarrow> Logger result" where
  "log_items items lg = rbind (rfold put_item items (lg_stream lg)) (\<lambda>b. Inr (lg\<lparr>lg_stream := b\<rparr>))"

text \<open>
  \<open>~Logger\<close>: what is handed to \<open>g_output\<close>, and whether the process aborts. A log statement
  constructs a logger, prints its items (the function's name first for the four-argument constructor)
  and destroys it.
\<close>

definition destroy_Logger :: "Logger \<Rightarrow> (string \<times> bool) result" where
  "destroy_Logger lg =
     rbind (finish lg) (\<lambda>lg. Inr (asString (lg_stream lg), lg_level lg = FATAL))"

definition func_items :: "string option \<Rightarrow> log_item list" where
  "func_items func = (case func of None \<Rightarrow> [] | Some f \<Rightarrow> [LString f, LChar (CHR '' '')])"

definition log_statement :: "(int \<Rightarrow> string) \<Rightarrow> (int \<Rightarrow> string) \<Rightarrow> int \<Rightarrow> Timestamp \<Rightarrow> string \<Rightarrow>
    LogLevel \<Rightarrow> int \<Rightarrow> string option \<Rightarrow> string \<Rightarrow> int \<Rightarrow> log_item list \<Rightarrow> thread_locals \<Rightarrow>
    (string \<times> bool \<times> thread_locals) result" where
  "log_statement gmtime strerror gettid now garbage level savedErrno func fname line items ls =
     rbind (new_Impl gmtime strerror gettid now garbage level savedErrno (SourceFile fname) line ls) (\<lambda>(lg, ls).
     rbind (log_items (func_items func) lg) (\<lambda>lg.
     rbind (log_items items lg) (\<lambda>lg.
     rbind (destroy_Logger lg) (\<lambda>(out, aborts). Inr (out, aborts, ls)))))"

section \<open>A log statement prints one line\<close>

text \<open>What the thread-local variables cache.\<close>

definition cache_ok :: "(int \<Rightarrow> string) \<Rightarrow> int \<Rightarrow> thread_locals \<Rightarrow> bool" where
  "cache_ok gmtime gettid ls \<longleftrightarrow>
     (t_cachedTid ls = 0 \<or> t_cachedTid ls = gettid \<and> t_tidString ls = pad_left 5 (show_int gettid) @ '' '') \<and>
     (t_lastSecond ls = 0 \<or> t_time ls = gmtime (t_lastSecond ls))"

lemma tid_text_length: "0 < t \<Longrightarrow> t < 100000 \<Longrightarrow> length (pad_left 5 (show_int t) @ '' '') = 6"
  using length_show_nat_le [of "nat t" 5] by (simp add: pad_left_def show_int_def)

lemma current_tid_correct:
  assumes "cache_ok gmtime gettid ls" "0 < gettid" "gettid < 100000"
  shows "\<exists>ls'. current_tid gettid ls = Inr (gettid, ls') \<and> cache_ok gmtime gettid ls' \<and>
    t_tidString ls' = pad_left 5 (show_int gettid) @ '' '' \<and> t_time ls' = t_time ls"
  using assms tid_text_length [OF assms(2,3)]
  by (auto simp: current_tid_def cacheTid_def cache_ok_def snprintf_def Let_def)

lemma update_t_time_correct:
  assumes "cache_ok gmtime gettid ls" "1000000 \<le> microSecondsSinceEpoch now"
    and "\<forall>s>0. length (gmtime s) = 17"
  shows "\<exists>ls'. update_t_time gmtime now ls = Inr ls' \<and> cache_ok gmtime gettid ls' \<and>
    t_time ls' = gmtime (microSecondsSinceEpoch now div 1000000)"
proof -
  have sec: "cdiv (microSecondsSinceEpoch now) 1000000 = microSecondsSinceEpoch now div 1000000"
    "0 < microSecondsSinceEpoch now div 1000000"
    using assms(2) by (simp_all add: cdiv_nonneg)
  then show ?thesis using assms(1,3)
    by (cases "t_lastSecond ls = microSecondsSinceEpoch now div 1000000")
      (auto simp: update_t_time_def cache_ok_def snprintf_def Let_def)
qed

lemma format_us_length: "0 \<le> microSecondsSinceEpoch t \<Longrightarrow> length (format_us t) = 9"
  by (simp add: format_us_def cmod_nonneg length_pad_zeros)

lemma put_T_item: "length str = n \<Longrightarrow> put_T str n b = put_item (LString str) b"
  by (simp add: put_T_def)

definition errno_items :: "(int \<Rightarrow> string) \<Rightarrow> int \<Rightarrow> log_item list" where
  "errno_items strerror e =
     (if e \<noteq> 0 then [LString (strerror e), LString ''(errno='', LInteger e, LString '')''] else [])"

definition head_items :: "(int \<Rightarrow> string) \<Rightarrow> int \<Rightarrow> Timestamp \<Rightarrow> LogLevel \<Rightarrow> log_item list" where
  "head_items gmtime gettid now level =
     [LString (gmtime (microSecondsSinceEpoch now div 1000000)), LString (format_us now),
      LString (pad_left 5 (show_int gettid) @ '' ''), LString (LogLevelName level)]"

definition tail_items :: "string \<Rightarrow> int \<Rightarrow> log_item list" where
  "tail_items fname line =
     [LString ''-'', LString (SourceFile fname), LChar (CHR '':''), LInteger line, LChar (CHR 0x0A)]"

definition line_items where
  "line_items gmtime strerror gettid now level savedErrno func fname line items =
     head_items gmtime gettid now level @ errno_items strerror savedErrno @ func_items func @ items @
     tail_items fname line"

lemma put_errno_items: "put_errno strerror e = rfold put_item (errno_items strerror e)"
  by (rule ext) (simp add: put_errno_def errno_items_def)

lemma LogLevelName_length: "length (LogLevelName level) = 6"
  by (cases level) (simp_all add: LogLevelName_def)

lemma log_statement_items:
  assumes cache: "cache_ok gmtime gettid ls" and tid: "0 < gettid" "gettid < 100000"
    and clock: "1000000 \<le> microSecondsSinceEpoch now" "\<forall>s>0. length (gmtime s) = 17"
  shows "\<exists>ls'. cache_ok gmtime gettid ls' \<and>
    log_statement gmtime strerror gettid now garbage level savedErrno func fname line items ls =
      rbind (rfold put_item (line_items gmtime strerror gettid now level savedErrno func fname line items)
        (new_FixedBuffer garbage)) (\<lambda>b. Inr (asString b, level = FATAL, ls'))"
proof -
  obtain l1 where l1: "update_t_time gmtime now ls = Inr l1" "cache_ok gmtime gettid l1"
    "t_time l1 = gmtime (microSecondsSinceEpoch now div 1000000)"
    using update_t_time_correct [OF cache clock] by blast
  obtain l2 where l2: "current_tid gettid l1 = Inr (gettid, l2)" "cache_ok gmtime gettid l2"
    "t_tidString l2 = pad_left 5 (show_int gettid) @ '' ''"
    using current_tid_correct [OF l1(2) tid] by blast
  have sec: "0 < microSecondsSinceEpoch now div 1000000" using clock(1) by simp
  have us: "length (format_us now) = 9" using clock(1) by (simp add: format_us_length)
  then have fmt: "new_Fmt (format_us now) = Inr (format_us now)" by (simp add: new_Fmt_def snprintf_def)
  have secs: "length (gmtime (microSecondsSinceEpoch now div 1000000)) = 17"
    using clock(2) sec by simp
  have "log_statement gmtime strerror gettid now garbage level savedErrno func fname line items ls =
      rbind (rfold put_item (line_items gmtime strerror gettid now level savedErrno func fname line items)
        (new_FixedBuffer garbage)) (\<lambda>b. Inr (asString b, level = FATAL, l2))"
    unfolding log_statement_def new_Impl_def formatTime_def log_items_def destroy_Logger_def finish_def
      put_errno_items line_items_def head_items_def tail_items_def
    by (simp add: l1 l2 fmt us put_T_item [OF us] put_T_item [OF secs] rbind_assoc rfold_append
        put_T_item [OF LogLevelName_length] put_T_item [OF tid_text_length [OF tid]] del: put_item.simps)
  with l2(2) show ?thesis by blast
qed

definition line_text where
  "line_text gmtime strerror gettid now level savedErrno func fname line message =
     gmtime (microSecondsSinceEpoch now div 1000000) @ ''.'' @
     pad_zeros 6 (microSecondsSinceEpoch now mod 1000000) @ ''Z '' @
     pad_left 5 (show_int gettid) @ '' '' @ LogLevelName level @
     (if savedErrno \<noteq> 0 then strerror savedErrno @ ''(errno='' @ show_int savedErrno @ '')'' else []) @
     (case func of None \<Rightarrow> [] | Some f \<Rightarrow> f @ '' '') @ message @
     ''-'' @ SourceFile fname @ '':'' @ show_int line @ [CHR 0x0A]"

lemma length_show_int: "\<bar>i\<bar> < 10 ^ k \<Longrightarrow> 0 < k \<Longrightarrow> length (show_int i) \<le> k + 1"
  using length_show_nat_le [of "nat \<bar>i\<bar>" k] by (auto simp: show_int_def nat_less_iff abs_if split: if_splits)

text \<open>How long a line can be: 50 bytes of its own, and what the caller puts into it.\<close>

lemma line_text_bound:
  assumes "\<forall>s>0. length (gmtime s) = 17" "1000000 \<le> microSecondsSinceEpoch now" "0 < gettid" "gettid < 100000"
    and "\<bar>line\<bar> < 2 ^ 31" "\<bar>savedErrno\<bar> < 2 ^ 31"
  shows "length (line_text gmtime strerror gettid now level savedErrno func fname line message) \<le>
    52 + (if savedErrno \<noteq> 0 then length (strerror savedErrno) + 19 else 0) +
    (case func of None \<Rightarrow> 0 | Some f \<Rightarrow> length f + 1) + length message + length fname"
proof -
  have "length (gmtime (microSecondsSinceEpoch now div 1000000)) = 17" using assms(1,2) by simp
  moreover have "length (pad_zeros 6 (microSecondsSinceEpoch now mod 1000000)) = 6" by (intro length_pad_zeros) auto
  moreover have "length (pad_left 5 (show_int gettid) @ '' '') = 6" by (rule tid_text_length [OF assms(3,4)])
  moreover have "length (SourceFile fname) \<le> length fname"
    using length_takeWhile_le [of "\<lambda>c. c \<noteq> CHR ''/''" "rev fname"] by (simp add: SourceFile_def)
  moreover have "length (show_int line) \<le> 11" "length (show_int savedErrno) \<le> 11"
    using length_show_int [of line 10] length_show_int [of savedErrno 10] assms(5,6) by simp_all
  ultimately show ?thesis by (auto simp: line_text_def LogLevelName_length split: option.split)
qed

lemma line_items_text:
  "0 \<le> microSecondsSinceEpoch now \<Longrightarrow>
    concat (map item_text (line_items gmtime strerror gettid now level savedErrno func fname line items)) =
    line_text gmtime strerror gettid now level savedErrno func fname line (concat (map item_text items))"
  by (simp add: line_items_def line_text_def head_items_def errno_items_def func_items_def tail_items_def
      format_us_def cmod_nonneg split: option.split)

lemma log_statement_full:
  fixes strerror :: "int \<Rightarrow> string" and level :: LogLevel and func :: "string option" and fname :: string
  assumes "cache_ok gmtime gettid ls" "0 < gettid" "gettid < 100000"
    and "1000000 \<le> microSecondsSinceEpoch now" "\<forall>s>0. length (gmtime s) = 17"
    and "length garbage = kSmallBuffer" "\<forall>item\<in>set items. item_ok item"
    and "\<bar>line\<bar> < 2 ^ 31" "\<bar>savedErrno\<bar> < 2 ^ 31"
  defines "full \<equiv> line_text gmtime strerror gettid now level savedErrno func fname line (concat (map item_text items))"
  assumes "length full + 33 \<le> kSmallBuffer"
  shows "\<exists>ls'. log_statement gmtime strerror gettid now garbage level savedErrno func fname line items ls =
    Inr (full, level = FATAL, ls') \<and> cache_ok gmtime gettid ls'"
proof -
  let ?items = "line_items gmtime strerror gettid now level savedErrno func fname line items"
  have ok: "\<forall>item\<in>set ?items. item_ok item" using assms(7-9)
    by (auto simp: line_items_def head_items_def errno_items_def func_items_def tail_items_def split: option.splits)
  have buf: "fb_ok kSmallBuffer (new_FixedBuffer garbage)" "asString (new_FixedBuffer garbage) = []"
    using assms(6) by (simp_all add: fb_ok_def new_FixedBuffer_def kSmallBuffer_def asString_def fb_length_def)
  have full: "concat (map item_text ?items) = full" using assms(4) by (simp add: full_def line_items_text)
  obtain b where "rfold put_item ?items (new_FixedBuffer garbage) = Inr b" "asString b = full"
    using put_items_correct [OF buf(1) ok] stream_spec_fits [of "[]" ?items kSmallBuffer] assms(11)
    by (auto simp: buf(2) full)
  with log_statement_items [OF assms(1-5), where items = items and line = line and savedErrno = savedErrno
      and level = level and func = func and fname = fname and strerror = strerror and garbage = garbage]
  show ?thesis by auto
qed

text \<open>
  C30. A log statement hands its output exactly one complete line (time to the microsecond, thread
  id, level, error text, function, the message whole and in order, file and line number) whatever the
  thread-local caches hold from earlier statements, provided the line leaves 33 bytes of the 4000 byte
  buffer free; it aborts the process exactly at level FATAL, after the output.
\<close>

theorem log_statement_line:
  fixes strerror :: "int \<Rightarrow> string" and level :: LogLevel and func :: "string option" and fname :: string
  assumes "cache_ok gmtime gettid ls" "0 < gettid" "gettid < 100000"
    and "1000000 \<le> microSecondsSinceEpoch now" "\<forall>s>0. length (gmtime s) = 17"
    and "length garbage = kSmallBuffer" "\<forall>item\<in>set items. item_ok item"
    and "\<bar>line\<bar> < 2 ^ 31" "\<bar>savedErrno\<bar> < 2 ^ 31"
  defines "full \<equiv> line_text gmtime strerror gettid now level savedErrno func fname line (concat (map item_text items))"
  assumes "length full + 33 \<le> kSmallBuffer"
  shows "\<exists>ls'. log_statement gmtime strerror gettid now garbage level savedErrno func fname line items ls =
    Inr (full, level = FATAL, ls') \<and> cache_ok gmtime gettid ls'"
  unfolding full_def by (rule log_statement_full [OF assms(1-9) assms(11) [unfolded full_def]])

theorem log_statement_line_witness:
  "\<exists>ls'. log_statement (\<lambda>_. replicate 17 (CHR ''0'')) (\<lambda>_. []) 4711 (Timestamp 5000007) (replicate 4000 (CHR 0x00))
      INFO 0 None ''net/a.cc'' 12 [LString ''up'', LInteger 3] new_thread_locals =
    Inr (line_text (\<lambda>_. replicate 17 (CHR ''0'')) (\<lambda>_. []) 4711 (Timestamp 5000007) INFO 0 None ''net/a.cc'' 12 ''up3'',
      False, ls')"
proof -
  have "show_int 3 = ''3''" by code_simp
  moreover have "length (line_text (\<lambda>_. replicate 17 (CHR ''0'')) (\<lambda>_. []) 4711 (Timestamp 5000007) INFO 0 None
      ''net/a.cc'' 12 ''up3'') + 33 \<le> 4000"
    using line_text_bound [of "\<lambda>_. replicate 17 (CHR ''0'')" "Timestamp 5000007" 4711 12 0 "\<lambda>_. []" INFO None
        "''net/a.cc''" "''up3''"] by simp
  ultimately show ?thesis
    using log_statement_line [where gmtime = "\<lambda>_. replicate 17 (CHR ''0'')" and strerror = "\<lambda>_. []" and gettid = 4711
        and ls = new_thread_locals and now = "Timestamp 5000007" and garbage = "replicate 4000 (CHR 0x00)"
        and level = INFO and savedErrno = 0 and func = None and fname = "''net/a.cc''" and line = 12
        and items = "[LString ''up'', LInteger 3]"]
    by (auto simp: cache_ok_def new_thread_locals_def kSmallBuffer_def)
qed

text \<open>
  C40. A process can only log, or start a thread of this library at all, while its thread ids have at
  most five digits: caching the id of the current thread succeeds for ids up to 99999 and fails its
  assertion for every larger one.
\<close>

theorem cacheTid_limit:
  assumes "0 < gettid" "t_cachedTid ls = 0"
  shows "is_ok (current_tid gettid ls) \<longleftrightarrow> gettid < 100000"
proof (cases "gettid < 100000")
  case True
  with tid_text_length [OF assms(1)] assms(2) show ?thesis by (simp add: current_tid_def cacheTid_def Let_def)
next
  case False
  have "\<not> length (show_nat (nat gettid)) \<le> 5"
  proof
    assume "length (show_nat (nat gettid)) \<le> 5"
    then have "nat gettid < 10 ^ 5" by (rule show_nat_bound)
    with False show False by simp
  qed
  with False assms show ?thesis
    by (simp add: current_tid_def cacheTid_def Let_def pad_left_def show_int_def)
qed

theorem cacheTid_limit_witness:
  "is_ok (current_tid 4711 new_thread_locals) \<and> \<not> is_ok (current_tid 100000 new_thread_locals)"
  using cacheTid_limit [of 4711 new_thread_locals] cacheTid_limit [of 100000 new_thread_locals]
  by (simp add: new_thread_locals_def)

end
