(* ===== verification/LogFile.thy ===== *)
theory LogFile
  imports Prelude
begin

text \<open>
  \<open>muduo/base/LogFile.h\<close> and \<open>LogFile.cc\<close>: the rolling log file. A file is its name, the bytes
  \<open>fwrite_unlocked\<close> has taken, the counter \<open>writtenBytes_\<close>, and the second it was opened. Parameters: how
  many bytes the \<open>n\<close>-th \<open>fwrite\<close> takes, whether \<open>fopen\<close> succeeds, the date as \<open>strftime\<close> prints it, the host
  name, the process id, and the two clock readings of an \<open>append\<close>. The mutex makes the operations
  atomic and is not modelled further; flushing moves no byte of the model.
\<close>

section \<open>The file\<close>

record File =
  fl_name :: string
  fl_data :: string
  fl_writtenBytes :: nat
  fl_opened :: int

record log_env =
  env_fwrite :: "nat \<Rightarrow> nat"
  env_fopen :: "string \<Rightarrow> bool"
  env_date :: "int \<Rightarrow> string"
  env_hostname :: string
  env_pid :: int

text \<open>
  The \<open>while\<close> loop of \<open>File::append\<close> on the bytes still to be written; \<open>k\<close> counts the calls of
  \<open>fwrite\<close>, which takes at most what it is offered.
\<close>

function append_loop :: "(nat \<Rightarrow> nat) \<Rightarrow> nat \<Rightarrow> string \<Rightarrow> string \<times> nat" where
  "append_loop io k rest =
     (if rest = [] then ([], k) else
      let x = min (io k) (length rest) in
      if x = 0 then ([], k + 1)
      else case append_loop io (k + 1) (drop x rest) of (w, k') \<Rightarrow> (take x rest @ w, k'))"
  by pat_completeness auto
termination by (relation "measure (\<lambda>(io, k, rest). length rest)") auto

declare append_loop.simps [simp del]

definition file_append :: "(nat \<Rightarrow> nat) \<Rightarrow> string \<Rightarrow> nat \<times> File \<Rightarrow> nat \<times> File" where
  "file_append io logline s = (case s of (k, f) \<Rightarrow>
     let n = min (io k) (length logline)
     in case append_loop io (k + 1) (drop n logline) of (w, k') \<Rightarrow>
          (k', f\<lparr>fl_data := fl_data f @ take n logline @ w,
                 fl_writtenBytes := fl_writtenBytes f + length logline\<rparr>))"

section \<open>\<open>LogFile\<close>\<close>

definition kCheckTimeRoll :: int where "kCheckTimeRoll = 1024"

definition kRollPerSeconds :: int where "kRollPerSeconds = 60 * 60 * 24"

record LogFile =
  lf_basename :: string
  lf_rollSize :: nat
  lf_flushInterval :: int
  lf_count :: int
  lf_startOfPeriod :: int
  lf_lastRoll :: int
  lf_lastFlush :: int
  lf_file :: "File option"
  lf_closed :: "File list" \<comment> \<open>the files it wrote before, oldest first\<close>
  lf_writes :: nat
  lf_flushes :: nat

definition getLogFileName :: "log_env \<Rightarrow> string \<Rightarrow> int \<Rightarrow> string" where
  "getLogFileName env basename now =
     basename @ snprintf 32 (env_date env now) @ env_hostname env @
     snprintf 32 (''.'' @ show_int (env_pid env)) @ ''.log''"

definition new_File :: "log_env \<Rightarrow> string \<Rightarrow> int \<Rightarrow> File result" where
  "new_File env filename now =
     rbind (guard (env_fopen env filename) ''fp_'') (\<lambda>_.
     Inr \<lparr>fl_name = filename, fl_data = [], fl_writtenBytes = 0, fl_opened = now\<rparr>)"

definition rollFile :: "log_env \<Rightarrow> int \<Rightarrow> LogFile \<Rightarrow> LogFile result" where
  "rollFile env now lf =
     (let filename = getLogFileName env (lf_basename lf) now;
          start = cdiv now kRollPerSeconds * kRollPerSeconds
      in if now > lf_lastRoll lf then
           let lf = lf\<lparr>lf_lastRoll := now, lf_lastFlush := now, lf_startOfPeriod := start\<rparr>
           in rbind (new_File env filename now) (\<lambda>f.
              Inr (lf\<lparr>lf_file := Some f,
                lf_closed := lf_closed lf @ (case lf_file lf of None \<Rightarrow> [] | Some old \<Rightarrow> [old])\<rparr>))
         else Inr lf)"

definition new_LogFile :: "log_env \<Rightarrow> int \<Rightarrow> string \<Rightarrow> nat \<Rightarrow> int \<Rightarrow> LogFile result" where
  "new_LogFile env now basename rollSize flushInterval =
     rbind (guard (CHR ''/'' \<notin> set basename) ''basename.find('/') == string::npos'') (\<lambda>_.
     rollFile env now \<lparr>lf_basename = basename, lf_rollSize = rollSize, lf_flushInterval = flushInterval,
       lf_count = 0, lf_startOfPeriod = 0, lf_lastRoll = 0, lf_lastFlush = 0, lf_file = None, lf_closed = [],
       lf_writes = 0, lf_flushes = 0\<rparr>)"

definition lf_flush :: "LogFile \<Rightarrow> LogFile result" where
  "lf_flush lf = (case lf_file lf of
     None \<Rightarrow> Inl (Undefined ''file_ is null'')
   | Some f \<Rightarrow> Inr (lf\<lparr>lf_flushes := lf_flushes lf + 1\<rparr>))"

text \<open>The periodic check: every so many appends the clock is read.\<close>

definition check_time :: "log_env \<Rightarrow> int \<Rightarrow> int \<Rightarrow> LogFile \<Rightarrow> LogFile result" where
  "check_time env now roll_now lf =
     (if lf_count lf > kCheckTimeRoll then
        let lf = lf\<lparr>lf_count := 0\<rparr>;
            thisPeriod = cdiv now kRollPerSeconds * kRollPerSeconds
        in if thisPeriod \<noteq> lf_startOfPeriod lf then rollFile env roll_now lf
           else if now - lf_lastFlush lf > lf_flushInterval lf then lf_flush (lf\<lparr>lf_lastFlush := now\<rparr>)
           else Inr lf
      else Inr (lf\<lparr>lf_count := lf_count lf + 1\<rparr>))"

definition append_unlocked :: "log_env \<Rightarrow> int \<Rightarrow> int \<Rightarrow> string \<Rightarrow> LogFile \<Rightarrow> LogFile result" where
  "append_unlocked env now roll_now logline lf = (case lf_file lf of
     None \<Rightarrow> Inl (Undefined ''file_ is null'')
   | Some f \<Rightarrow>
       (case file_append (env_fwrite env) logline (lf_writes lf, f) of (k, f) \<Rightarrow>
          let lf = lf\<lparr>lf_file := Some f, lf_writes := k\<rparr>
          in if fl_writtenBytes f > lf_rollSize lf then rollFile env roll_now lf
             else check_time env now roll_now lf))"

definition lf_append :: "log_env \<Rightarrow> string \<times> int \<times> int \<Rightarrow> LogFile \<Rightarrow> LogFile result" where
  \<comment> \<open>a call of \<open>append\<close>, with the two clock readings it may make\<close>
  "lf_append env op = (case op of (logline, now, roll_now) \<Rightarrow> append_unlocked env now roll_now logline)"

section \<open>Nothing is lost, and no file is opened twice\<close>

definition all_files :: "LogFile \<Rightarrow> File list" where
  "all_files lf = lf_closed lf @ (case lf_file lf of None \<Rightarrow> [] | Some f \<Rightarrow> [f])"

definition lf_text :: "LogFile \<Rightarrow> string" where
  "lf_text lf = concat (map fl_data (all_files lf))"

text \<open>
  There is a file; the files were opened at ever later seconds, the last one at the last roll, under
  the name of that second; the counters are the sizes.
\<close>

definition lf_ok :: "log_env \<Rightarrow> LogFile \<Rightarrow> bool" where
  "lf_ok env lf \<longleftrightarrow> (\<exists>f. lf_file lf = Some f \<and> fl_opened f = lf_lastRoll lf) \<and>
     sorted_wrt (<) (map fl_opened (all_files lf)) \<and>
     (\<forall>f\<in>set (all_files lf). fl_writtenBytes f = length (fl_data f) \<and>
        fl_name f = getLogFileName env (lf_basename lf) (fl_opened f))"

lemma append_loop_all: "\<forall>k. 0 < io k \<Longrightarrow> fst (append_loop io k rest) = rest"
proof (induction io k rest rule: append_loop.induct)
  case (1 io k rest)
  show ?case
  proof (cases "rest = []")
    case False
    let ?x = "min (io k) (length rest)"
    have x: "?x \<noteq> 0" using "1.prems" False by simp
    with "1.IH" [OF False refl x "1.prems"] False show ?thesis
      by (simp add: append_loop.simps [of io k rest] split_beta Let_def del: min_def)
  qed (simp add: append_loop.simps)
qed

lemma file_append_all:
  assumes "\<forall>k. 0 < io k"
  shows "\<exists>k'. file_append io logline (k, f) = (k', f\<lparr>fl_data := fl_data f @ logline,
    fl_writtenBytes := fl_writtenBytes f + length logline\<rparr>)"
proof -
  obtain w k' where "append_loop io (k + 1) (drop (min (io k) (length logline)) logline) = (w, k')" by fastforce
  with append_loop_all [OF assms, of "k + 1" "drop (min (io k) (length logline)) logline"] show ?thesis
    by (simp add: file_append_def Let_def)
qed

lemma rollFile_ok:
  assumes "lf_ok env lf" "\<forall>n. env_fopen env n"
  shows "\<exists>lf'. rollFile env now lf = Inr lf' \<and> lf_ok env lf' \<and> lf_text lf' = lf_text lf \<and>
    (lf_lastRoll lf < now \<longrightarrow> (\<exists>f. lf_file lf' = Some f \<and> fl_data f = [] \<and> fl_opened f = now)) \<and>
    (now \<le> lf_lastRoll lf \<longrightarrow> lf' = lf)"
proof (cases "lf_lastRoll lf < now")
  case False
  with assms(1) show ?thesis by (auto simp: rollFile_def Let_def)
next
  case True
  obtain f where f: "lf_file lf = Some f" "fl_opened f = lf_lastRoll lf" using assms(1) by (auto simp: lf_ok_def)
  let ?new = "\<lparr>fl_name = getLogFileName env (lf_basename lf) now, fl_data = [], fl_writtenBytes = 0, fl_opened = now\<rparr>"
  let ?lf = "lf\<lparr>lf_lastRoll := now, lf_lastFlush := now, lf_startOfPeriod := cdiv now kRollPerSeconds * kRollPerSeconds,
    lf_file := Some ?new, lf_closed := lf_closed lf @ [f]\<rparr>"
  have roll: "rollFile env now lf = Inr ?lf"
    using True f assms(2) by (simp add: rollFile_def new_File_def Let_def)
  have files: "all_files ?lf = all_files lf @ [?new]" using f by (simp add: all_files_def)
  have "\<forall>g\<in>set (all_files lf). fl_opened g < now"
    using assms(1) f True by (auto simp: lf_ok_def all_files_def sorted_wrt_append)
  then have "sorted_wrt (<) (map fl_opened (all_files ?lf))"
    using assms(1) by (simp add: files lf_ok_def sorted_wrt_append)
  then have "lf_ok env ?lf" using assms(1) by (simp add: lf_ok_def files)
  moreover have "lf_text ?lf = lf_text lf" by (simp add: lf_text_def files)
  ultimately show ?thesis using roll True by auto
qed

lemma lf_ok_frame [simp]:
  "lf_ok env (lf\<lparr>lf_count := c\<rparr>) = lf_ok env lf" "lf_text (lf\<lparr>lf_count := c\<rparr>) = lf_text lf"
  "lf_ok env (lf\<lparr>lf_lastFlush := d\<rparr>) = lf_ok env lf" "lf_text (lf\<lparr>lf_lastFlush := d\<rparr>) = lf_text lf"
  "lf_ok env (lf\<lparr>lf_flushes := n\<rparr>) = lf_ok env lf" "lf_text (lf\<lparr>lf_flushes := n\<rparr>) = lf_text lf"
  by (simp_all add: lf_ok_def lf_text_def all_files_def)

lemma check_time_ok:
  assumes "lf_ok env lf" "\<forall>n. env_fopen env n"
  shows "\<exists>lf'. check_time env now roll_now lf = Inr lf' \<and> lf_ok env lf' \<and> lf_text lf' = lf_text lf \<and>
    (lf_file lf' = lf_file lf \<or> (\<exists>f. lf_file lf' = Some f \<and> fl_data f = []))"
proof (cases "lf_count lf > kCheckTimeRoll")
  case True
  from rollFile_ok [of env "lf\<lparr>lf_count := 0\<rparr>" roll_now] assms
  have "\<exists>lf'. rollFile env roll_now (lf\<lparr>lf_count := 0\<rparr>) = Inr lf' \<and> lf_ok env lf' \<and> lf_text lf' = lf_text lf \<and>
      (lf_file lf' = lf_file lf \<or> (\<exists>f. lf_file lf' = Some f \<and> fl_data f = []))"
    by (cases "lf_lastRoll lf < roll_now") auto
  moreover obtain f where "lf_file lf = Some f" using assms(1) by (auto simp: lf_ok_def)
  ultimately show ?thesis using True assms(1) by (simp add: check_time_def lf_flush_def Let_def)
next
  case False
  with assms show ?thesis by (simp add: check_time_def)
qed

lemma lf_append_ok:
  assumes "lf_ok env lf" "\<forall>n. env_fopen env n" "\<forall>k. 0 < env_fwrite env k"
  shows "\<exists>lf'. lf_append env (logline, now, roll_now) lf = Inr lf' \<and> lf_ok env lf' \<and>
    lf_text lf' = lf_text lf @ logline \<and>
    (\<forall>f. lf_file lf' = Some f \<longrightarrow> length (fl_data f) \<le> lf_rollSize lf \<or> roll_now \<le> fl_opened f)"
proof -
  obtain f where f: "lf_file lf = Some f" using assms(1) by (auto simp: lf_ok_def)
  obtain k where k: "file_append (env_fwrite env) logline (lf_writes lf, f) =
      (k, f\<lparr>fl_data := fl_data f @ logline, fl_writtenBytes := fl_writtenBytes f + length logline\<rparr>)"
    using file_append_all [OF assms(3)] by blast
  let ?f = "f\<lparr>fl_data := fl_data f @ logline, fl_writtenBytes := fl_writtenBytes f + length logline\<rparr>"
  let ?lf = "lf\<lparr>lf_file := Some ?f, lf_writes := k\<rparr>"
  have ok: "lf_ok env ?lf" "lf_text ?lf = lf_text lf @ logline"
    using assms(1) f by (auto simp: lf_ok_def all_files_def lf_text_def)
  have sizes: "fl_writtenBytes ?f = length (fl_data ?f)"
    using ok(1) by (simp add: lf_ok_def all_files_def)
  show ?thesis
  proof (cases "fl_writtenBytes ?f > lf_rollSize lf")
    case True
    then have "lf_append env (logline, now, roll_now) lf = rollFile env roll_now ?lf"
      using f k by (simp add: lf_append_def append_unlocked_def)
    with rollFile_ok [OF ok(1) assms(2), of roll_now] ok show ?thesis
      by (cases "lf_lastRoll ?lf < roll_now") (auto simp: lf_ok_def)
  next
    case False
    then have "lf_append env (logline, now, roll_now) lf = check_time env now roll_now ?lf"
      using f k by (simp add: lf_append_def append_unlocked_def)
    moreover obtain lf' where lf': "check_time env now roll_now ?lf = Inr lf'" "lf_ok env lf'"
      "lf_text lf' = lf_text ?lf" "lf_file lf' = lf_file ?lf \<or> (\<exists>f. lf_file lf' = Some f \<and> fl_data f = [])"
      using check_time_ok [OF ok(1) assms(2)] by blast
    moreover have "length (fl_data g) \<le> lf_rollSize lf" if "lf_file lf' = Some g" for g
      using lf'(4) that sizes False by auto
    ultimately show ?thesis using ok(2) by auto
  qed
qed

section \<open>Properties\<close>

text \<open>
  C31. The rolling log loses no byte: as long as files can be opened and each \<open>fwrite\<close> takes
  something, the files the log has opened, one after the other, hold exactly the lines appended, in
  order, whatever the clock says and however the writes are cut. The files were opened at strictly
  increasing seconds and carry those seconds in their names, so none is opened twice; and after the last
  append the current file has at most \<open>rollSize\<close> bytes, unless it was opened in the very second (or
  the clock went back).
\<close>

theorem log_file_complete:
  assumes "lf_ok env lf" "\<forall>n. env_fopen env n" "\<forall>k. 0 < env_fwrite env k"
  shows "\<exists>lf'. rfold (lf_append env) (ops @ [(logline, now, roll_now)]) lf = Inr lf' \<and>
    lf_text lf' = lf_text lf @ concat (map fst ops) @ logline \<and>
    sorted_wrt (<) (map fl_opened (all_files lf')) \<and>
    (\<forall>f\<in>set (all_files lf'). fl_name f = getLogFileName env (lf_basename lf') (fl_opened f)) \<and>
    (\<forall>f. lf_file lf' = Some f \<longrightarrow> length (fl_data f) \<le> lf_rollSize lf \<or> roll_now \<le> fl_opened f)"
proof -
  have keep: "lf_rollSize lf' = lf_rollSize lf" if "lf_append env op lf = Inr lf'" for op lf lf'
    using that by (auto simp: lf_append_def append_unlocked_def rollFile_def new_File_def check_time_def
        lf_flush_def Let_def rbind_eq_Inr_conv split: prod.splits option.splits if_splits)
  have "\<exists>lf1. rfold (lf_append env) ops lf = Inr lf1 \<and> lf_ok env lf1 \<and>
      lf_text lf1 = lf_text lf @ concat (map fst ops) \<and> lf_rollSize lf1 = lf_rollSize lf"
    using assms(1)
  proof (induction ops arbitrary: lf)
    case (Cons op ops)
    obtain l n r where op: "op = (l, n, r)" by (cases op)
    from lf_append_ok [OF Cons.prems assms(2,3)] obtain lf1 where
      "lf_append env op lf = Inr lf1" "lf_ok env lf1" "lf_text lf1 = lf_text lf @ l" unfolding op by blast
    with Cons.IH [of lf1] keep [of op lf lf1] show ?case by (auto simp: op)
  qed simp
  then obtain lf1 where lf1: "rfold (lf_append env) ops lf = Inr lf1" "lf_ok env lf1"
    "lf_text lf1 = lf_text lf @ concat (map fst ops)" "lf_rollSize lf1 = lf_rollSize lf" by blast
  from lf_append_ok [OF lf1(2) assms(2,3)] obtain lf' where
    "lf_append env (logline, now, roll_now) lf1 = Inr lf'" "lf_ok env lf'" "lf_text lf' = lf_text lf1 @ logline"
    "\<forall>f. lf_file lf' = Some f \<longrightarrow> length (fl_data f) \<le> lf_rollSize lf1 \<or> roll_now \<le> fl_opened f" by blast
  with lf1 show ?thesis by (simp add: rfold_append lf_ok_def)
qed

definition example_env :: log_env where
  "example_env = \<lparr>env_fwrite = \<lambda>_. 2, env_fopen = \<lambda>_. True, env_date = \<lambda>_. ''.d.'', env_hostname = ''h'', env_pid = 1\<rparr>"

lemma new_LogFile_ok:
  assumes "CHR ''/'' \<notin> set basename" "0 < now" "\<forall>n. env_fopen env n"
  shows "\<exists>lf. new_LogFile env now basename rollSize flushInterval = Inr lf \<and> lf_ok env lf \<and> lf_text lf = []"
  using assms by (simp add: new_LogFile_def rollFile_def new_File_def lf_ok_def all_files_def lf_text_def Let_def)

theorem log_file_complete_witness:
  "\<exists>lf lf'. new_LogFile example_env 100 ''log'' 10 3 = Inr lf \<and>
    rfold (lf_append example_env) ([(''hello'', 101, 101)] @ [(''world!'', 102, 102)]) lf = Inr lf' \<and>
    lf_text lf' = ''helloworld!''"
proof -
  obtain lf where lf: "new_LogFile example_env 100 ''log'' 10 3 = Inr lf" "lf_ok example_env lf" "lf_text lf = []"
    using new_LogFile_ok [of "''log''" 100 example_env 10 3] by (auto simp: example_env_def)
  have "\<forall>n. env_fopen example_env n" "\<forall>k. 0 < env_fwrite example_env k" by (simp_all add: example_env_def)
  from log_file_complete [OF lf(2) this, of "[(''hello'', 101, 101)]" "''world!''" 102 102] lf(1,3)
  show ?thesis by (simp del: rfold.simps) blast
qed

end
