(* ===== verification/Connector.thy ===== *)
theory Connector
  imports EventLoop "HOL-Library.Multiset"
begin

text \<open>
  \<open>muduo/net/Connector.h\<close> and \<open>Connector.cc\<close>: the object that keeps trying to connect a socket. The state
  extends that of its loop (members prefixed \<open>cn\<close>). \<open>cn_timers\<close> are the delays in milliseconds of the retry
  timers that are pending, oldest first. Four histories are kept: the sockets opened, closed, and handed to
  \<open>newConnectionCallback_\<close>, and the number of attempts.

  The kernel is the record \<open>cn_env\<close>: for the \<open>n\<close>-th attempt the descriptor \<open>socket\<close> returns and the \<open>errno\<close> of
  \<open>connect\<close> (0 for success), and the address of the channel that is allocated. What \<open>SO_ERROR\<close> and the
  self-connect test say comes with the event.
\<close>

datatype States = kDisconnected | kConnecting | kConnected

datatype cn_functor = StartInLoop | StopInLoop | ResetChannel

record Connector = "cn_functor EventLoop" +
  cn_connect :: bool
  cn_state :: States
  cn_channel :: "nat option"
  cn_retryDelayMs :: int
  cn_timers :: "int list"
  cn_tries :: nat
  cn_opened :: "int list"
  cn_closed :: "int list"
  cn_handed :: "int list"

record cn_env =
  env_socket :: "nat \<Rightarrow> int"
  env_connect :: "nat \<Rightarrow> nat"
  env_alloc :: "nat \<Rightarrow> nat"

definition kMaxRetryDelayMs :: int where "kMaxRetryDelayMs = 30 * 1000"

definition kInitRetryDelayMs :: int where "kInitRetryDelayMs = 500"

text \<open>The error numbers of Linux that \<open>connect\<close> distinguishes.\<close>

definition connecting_errnos :: "nat set" where
  \<comment> \<open>0, \<open>EINPROGRESS\<close>, \<open>EINTR\<close>, \<open>EISCONN\<close>\<close>
  "connecting_errnos = {0, 115, 4, 106}"

definition retry_errnos :: "nat set" where
  \<comment> \<open>\<open>EAGAIN\<close>, \<open>EADDRINUSE\<close>, \<open>EADDRNOTAVAIL\<close>, \<open>ECONNREFUSED\<close>, \<open>ENETUNREACH\<close>\<close>
  "retry_errnos = {11, 98, 99, 111, 101}"

section \<open>Operations\<close>

definition new_Connector :: "Connector \<Rightarrow> Connector" where
  "new_Connector s = s\<lparr>cn_connect := False, cn_state := kDisconnected, cn_channel := None,
     cn_retryDelayMs := kInitRetryDelayMs, cn_timers := [], cn_opened := [], cn_closed := [], cn_handed := []\<rparr>"

definition cn_close :: "int \<Rightarrow> Connector \<Rightarrow> Connector" where
  "cn_close sockfd s = s\<lparr>cn_closed := cn_closed s @ [sockfd]\<rparr>"

definition retry :: "int \<Rightarrow> Connector \<Rightarrow> Connector" where
  "retry sockfd s =
     (let s = (cn_close sockfd s)\<lparr>cn_state := kDisconnected\<rparr>
      in if cn_connect s
         then s\<lparr>cn_timers := cn_timers s @ [cn_retryDelayMs s],
                cn_retryDelayMs := min (cn_retryDelayMs s * 2) kMaxRetryDelayMs\<rparr>
         else s)"

definition connecting :: "int \<Rightarrow> nat \<Rightarrow> int \<Rightarrow> Connector \<Rightarrow> Connector result" where
  "connecting tid addr sockfd s =
     (let s = s\<lparr>cn_state := kConnecting\<rparr> in
      rbind (guard (cn_channel s = None) ''!channel_'') (\<lambda>_.
      enableWriting tid addr (s\<lparr>cn_channel := Some addr,
        chans := (chans s)(addr \<mapsto> new_channel (el_self s) sockfd)\<rparr>)))"

definition connect :: "int \<Rightarrow> cn_env \<Rightarrow> Connector \<Rightarrow> Connector result" where
  "connect tid env s =
     (let n = cn_tries s; sockfd = env_socket env n; s = s\<lparr>cn_tries := n + 1\<rparr> in
      if sockfd < 0 then Inl (Fatal ''sockets::createNonblockingOrDie'') else
      let s = s\<lparr>cn_opened := cn_opened s @ [sockfd]\<rparr>; savedErrno = env_connect env n
      in if savedErrno \<in> connecting_errnos then connecting tid (env_alloc env n) sockfd s
         else if savedErrno \<in> retry_errnos then Inr (retry sockfd s)
         else Inr (cn_close sockfd s))"

definition startInLoop :: "int \<Rightarrow> cn_env \<Rightarrow> Connector \<Rightarrow> Connector result" where
  "startInLoop tid env s =
     rbind (assertInLoopThread tid s) (\<lambda>_.
     rbind (guard (cn_state s = kDisconnected) ''state_ == kDisconnected'') (\<lambda>_.
     if cn_connect s then connect tid env s else Inr s))"

definition removeAndResetChannel :: "int \<Rightarrow> Connector \<Rightarrow> (int \<times> Connector) result" where
  "removeAndResetChannel tid s = (case cn_channel s of
     None \<Rightarrow> Inl (Undefined ''channel_ is null'')
   | Some a \<Rightarrow>
       rbind (disableAll tid a s) (\<lambda>s.
       rbind (channel_remove tid a s) (\<lambda>s.
       rbind (deref a s) (\<lambda>c. Inr (ch_fd c, queueInLoop tid ResetChannel s)))))"

definition resetChannel :: "Connector \<Rightarrow> Connector result" where
  "resetChannel s = (case cn_channel s of
     None \<Rightarrow> Inr s
   | Some a \<Rightarrow> rbind (Channel_dtor a s) (\<lambda>s. Inr (s\<lparr>cn_channel := None\<rparr>)))"

definition stopInLoop :: "int \<Rightarrow> Connector \<Rightarrow> Connector result" where
  "stopInLoop tid s =
     rbind (assertInLoopThread tid s) (\<lambda>_.
     if cn_state s = kConnecting then
       rbind (removeAndResetChannel tid (s\<lparr>cn_state := kDisconnected\<rparr>)) (\<lambda>(sockfd, s). Inr (retry sockfd s))
     else Inr s)"

definition run_cn :: "int \<Rightarrow> cn_env \<Rightarrow> cn_functor \<Rightarrow> Connector \<Rightarrow> Connector result" where
  "run_cn tid env f = (case f of
     StartInLoop \<Rightarrow> startInLoop tid env | StopInLoop \<Rightarrow> stopInLoop tid | ResetChannel \<Rightarrow> resetChannel)"

text \<open>\<open>start\<close> and \<open>stop\<close> may be called in any thread \<open>t\<close>.\<close>

definition start :: "int \<Rightarrow> cn_env \<Rightarrow> Connector \<Rightarrow> Connector result" where
  "start t env s = runInLoop (run_cn t env) t StartInLoop (s\<lparr>cn_connect := True\<rparr>)"

definition stop :: "int \<Rightarrow> cn_env \<Rightarrow> Connector \<Rightarrow> Connector result" where
  "stop t env s = runInLoop (run_cn t env) t StopInLoop (s\<lparr>cn_connect := False\<rparr>)"

definition restart :: "int \<Rightarrow> cn_env \<Rightarrow> Connector \<Rightarrow> Connector result" where
  "restart tid env s =
     rbind (assertInLoopThread tid s) (\<lambda>_.
     startInLoop tid env (s\<lparr>cn_state := kDisconnected, cn_retryDelayMs := kInitRetryDelayMs, cn_connect := True\<rparr>))"

definition cn_handleWrite :: "int \<Rightarrow> nat \<Rightarrow> bool \<Rightarrow> Connector \<Rightarrow> Connector result" where
  "cn_handleWrite tid err isSelfConnect s =
     (if cn_state s = kConnecting then
        rbind (removeAndResetChannel tid s) (\<lambda>(sockfd, s).
        if err \<noteq> 0 then Inr (retry sockfd s)
        else if isSelfConnect then Inr (retry sockfd s)
        else
          let s = s\<lparr>cn_state := kConnected\<rparr>
          in Inr (if cn_connect s then s\<lparr>cn_handed := cn_handed s @ [sockfd]\<rparr> else cn_close sockfd s))
      else rbind (guard (cn_state s = kDisconnected) ''state_ == kDisconnected'') (\<lambda>_. Inr s))"

definition cn_handleError :: "int \<Rightarrow> Connector \<Rightarrow> Connector result" where
  "cn_handleError tid s =
     rbind (guard (cn_state s = kConnecting) ''state_ == kConnecting'') (\<lambda>_.
     rbind (removeAndResetChannel tid s) (\<lambda>(sockfd, s). Inr (retry sockfd s)))"

definition Connector_dtor :: "Connector \<Rightarrow> unit result" where
  "Connector_dtor s = guard (cn_channel s = None) ''!channel_''"

text \<open>The callbacks of the channel.\<close>

definition cn_callback :: "int \<Rightarrow> nat \<Rightarrow> bool \<Rightarrow> callback_kind \<Rightarrow> Connector \<Rightarrow> Connector result" where
  "cn_callback tid err isSelfConnect k = (case k of
     WriteCB \<Rightarrow> cn_handleWrite tid err isSelfConnect
   | ErrorCB \<Rightarrow> cn_handleError tid
   | _ \<Rightarrow> Inr)"

section \<open>The invariant\<close>

text \<open>
  The channel is registered exactly while connecting; the loop is not dispatching another channel
  of the same round.
\<close>

definition cn_link :: "int \<Rightarrow> Connector \<Rightarrow> bool" where
  "cn_link tid s \<longleftrightarrow> loop_ok tid s \<and> (\<forall>b. removable b s) \<and>
     (case cn_channel s of
        None \<Rightarrow> cn_state s \<noteq> kConnecting
      | Some a \<Rightarrow> (\<exists>c. chans s a = Some c \<and> \<not> ch_eventHandling c) \<and>
          (registered a s \<longleftrightarrow> cn_state s = kConnecting))"

text \<open>\<open>fs\<close>: the functors still to be run.\<close>

definition cn_queue :: "cn_functor list \<Rightarrow> Connector \<Rightarrow> bool" where
  "cn_queue fs s \<longleftrightarrow>
     count_list fs ResetChannel = (if cn_channel s \<noteq> None \<and> cn_state s \<noteq> kConnecting then 1 else 0) \<and>
     count_list fs StartInLoop \<le> 1 \<and>
     (StartInLoop \<in> set fs \<longrightarrow> cn_state s = kDisconnected \<and> cn_channel s = None \<and> cn_timers s = []) \<and>
     (cn_timers s \<noteq> [] \<longrightarrow> cn_state s = kDisconnected) \<and> length (cn_timers s) \<le> 1"

text \<open>Every socket ever opened is closed, handed over, or the one being connected.\<close>

definition cn_current :: "Connector \<Rightarrow> int multiset" where
  "cn_current s = (case cn_channel s of
     None \<Rightarrow> {#}
   | Some a \<Rightarrow> if cn_state s = kConnecting then (case chans s a of None \<Rightarrow> {#} | Some c \<Rightarrow> {#ch_fd c#}) else {#})"

definition cn_books :: "Connector \<Rightarrow> bool" where
  "cn_books s \<longleftrightarrow> mset (cn_opened s) = mset (cn_closed s) + mset (cn_handed s) + cn_current s"

definition backoff :: "int set" where
  "backoff = {500, 1000, 2000, 4000, 8000, 16000, 30000}"

definition cn_delays :: "Connector \<Rightarrow> bool" where
  "cn_delays s \<longleftrightarrow> cn_retryDelayMs s \<in> backoff \<and> set (cn_timers s) \<subseteq> backoff"

definition cn_inv :: "int \<Rightarrow> cn_functor list \<Rightarrow> Connector \<Rightarrow> bool" where
  "cn_inv tid fs s \<longleftrightarrow> cn_link tid s \<and> cn_queue fs s \<and> cn_books s \<and> cn_delays s"

text \<open>The next attempt gets a descriptor and a channel address that nobody uses.\<close>

definition cn_fresh :: "cn_env \<Rightarrow> Connector \<Rightarrow> bool" where
  "cn_fresh env s \<longleftrightarrow> 0 \<le> env_socket env (cn_tries s) \<and> chans s (env_alloc env (cn_tries s)) = None \<and>
     channels s (env_socket env (cn_tries s)) = None"

lemma removable_cong:
  "el_eventHandling s' = el_eventHandling s \<Longrightarrow> el_currentActiveChannel s' = el_currentActiveChannel s \<Longrightarrow>
    el_activeChannels s' = el_activeChannels s \<Longrightarrow> removable b s' = removable b s"
  by (simp add: removable_def)

lemma loop_ok_cong:
  assumes "chans s' = chans s" "pollfds s' = pollfds s" "channels s' = channels s"
    "el_threadId s' = el_threadId s" "el_self s' = el_self s"
  shows "loop_ok tid s' = loop_ok tid s" "registered a s' = registered a s"
  unfolding loop_ok_def poller_ok_def entry_ok_def registered_def watch_def assms by (rule refl)+

lemma cn_frame [simp]:
  "loop_ok tid (s\<lparr>cn_connect := x0\<rparr>) = loop_ok tid s" "registered a (s\<lparr>cn_connect := x0\<rparr>) = registered a s"
  "loop_ok tid (s\<lparr>cn_state := x1\<rparr>) = loop_ok tid s" "registered a (s\<lparr>cn_state := x1\<rparr>) = registered a s"
  "loop_ok tid (s\<lparr>cn_channel := x2\<rparr>) = loop_ok tid s" "registered a (s\<lparr>cn_channel := x2\<rparr>) = registered a s"
  "loop_ok tid (s\<lparr>cn_retryDelayMs := x3\<rparr>) = loop_ok tid s" "registered a (s\<lparr>cn_retryDelayMs := x3\<rparr>) = registered a s"
  "loop_ok tid (s\<lparr>cn_timers := x4\<rparr>) = loop_ok tid s" "registered a (s\<lparr>cn_timers := x4\<rparr>) = registered a s"
  "loop_ok tid (s\<lparr>cn_tries := x5\<rparr>) = loop_ok tid s" "registered a (s\<lparr>cn_tries := x5\<rparr>) = registered a s"
  "loop_ok tid (s\<lparr>cn_opened := x6\<rparr>) = loop_ok tid s" "registered a (s\<lparr>cn_opened := x6\<rparr>) = registered a s"
  "loop_ok tid (s\<lparr>cn_closed := x6\<rparr>) = loop_ok tid s" "registered a (s\<lparr>cn_closed := x6\<rparr>) = registered a s"
  "loop_ok tid (s\<lparr>cn_handed := x6\<rparr>) = loop_ok tid s" "registered a (s\<lparr>cn_handed := x6\<rparr>) = registered a s"
  "loop_ok tid (s\<lparr>el_pendingFunctors := x7\<rparr>) = loop_ok tid s"
  "registered a (s\<lparr>el_pendingFunctors := x7\<rparr>) = registered a s"
  "loop_ok tid (s\<lparr>el_wakeups := x8\<rparr>) = loop_ok tid s" "registered a (s\<lparr>el_wakeups := x8\<rparr>) = registered a s"
  "loop_ok tid (s\<lparr>el_callingPendingFunctors := x9\<rparr>) = loop_ok tid s"
  "registered a (s\<lparr>el_callingPendingFunctors := x9\<rparr>) = registered a s"
  by (rule loop_ok_cong; simp)+

lemma removable_frame [simp]:
  "removable b (s\<lparr>chans := x, pollfds := y, channels := z\<rparr>) = removable b s"
  "removable b (s\<lparr>chans := x\<rparr>) = removable b s"
  by (simp_all add: removable_def)

lemma loop_thread: "loop_ok tid s \<Longrightarrow> assertInLoopThread tid s = Inr ()"
  by (simp add: assertInLoopThread_def isInLoopThread_def loop_ok_def)

section \<open>Taking the channel out, and putting one in\<close>

lemma same_base:
  "c\<lparr>ch_index := 0, ch_events := 0\<rparr> = d\<lparr>ch_index := 0, ch_events := 0\<rparr> \<Longrightarrow>
    ch_fd c = ch_fd d \<and> ch_eventHandling c = ch_eventHandling d"
  by (cases c, cases d) simp

lemma remove_channel:
  assumes ok: "loop_ok tid s" "removable a s"
    and ch: "cn_channel s = Some a" "chans s a = Some c" "registered a s" "\<not> ch_eventHandling c"
  shows "\<exists>x y z w c'. removeAndResetChannel tid s =
      Inr (ch_fd c, s\<lparr>chans := x, pollfds := y, channels := z,
        el_pendingFunctors := el_pendingFunctors s @ [ResetChannel], el_wakeups := w\<rparr>) \<and>
    loop_ok tid (s\<lparr>chans := x, pollfds := y, channels := z\<rparr>) \<and>
    \<not> registered a (s\<lparr>chans := x, pollfds := y, channels := z\<rparr>) \<and>
    x a = Some c' \<and> \<not> ch_eventHandling c'"
proof -
  obtain t where t: "rbind (update_events tid a (\<lambda>e. 0) s) (channel_remove tid a) = Inr t" "loop_ok tid t"
    "\<not> registered a t" "loop_rest t = loop_rest s" "chan_base a t = chan_base a s"
    using loop_reg.retireE [OF ok(1) ch(3)] ok(2) by (metis removable_rest)
  obtain x y z where xyz: "t = s\<lparr>chans := x, pollfds := y, channels := z\<rparr>"
    using loop_rest_update [OF t(4)] by blast
  have "map_option (\<lambda>c. c\<lparr>ch_index := 0, ch_events := 0\<rparr>) (x a) = Some (c\<lparr>ch_index := 0, ch_events := 0\<rparr>)"
    using t(5) ch(2) by (simp add: chan_base_def forget_events_def xyz)
  then obtain c' where c': "x a = Some c'" "c'\<lparr>ch_index := 0, ch_events := 0\<rparr> = c\<lparr>ch_index := 0, ch_events := 0\<rparr>"
    by auto
  then have same: "ch_fd c' = ch_fd c" "ch_eventHandling c' = ch_eventHandling c"
    using same_base [OF c'(2)] by simp_all
  obtain w where "queueInLoop tid ResetChannel t =
      t\<lparr>el_pendingFunctors := el_pendingFunctors t @ [ResetChannel], el_wakeups := w\<rparr>"
    using queueInLoop_eq [of tid ResetChannel t] by (rule exE)
  moreover have "deref a t = Inr c'" using c'(1) by (simp add: xyz)
  moreover have "rbind (disableAll tid a s) (channel_remove tid a) = Inr t"
    using t(1) by (simp add: disableAll_def kNoneEvent_def)
  ultimately have "removeAndResetChannel tid s = Inr (ch_fd c,
      t\<lparr>el_pendingFunctors := el_pendingFunctors t @ [ResetChannel], el_wakeups := w\<rparr>)"
    by (simp add: removeAndResetChannel_def ch(1) same rbind_eq_Inr_conv) (auto simp: rbind_eq_Inr_conv same)
  then show ?thesis using t(2,3) c'(1) same ch(4) unfolding xyz by auto
qed

lemma connecting_ok:
  assumes "loop_ok tid s" "cn_channel s = None" "chans s addr = None" "channels s fd = None" "0 \<le> fd"
  shows "\<exists>x y z c. connecting tid addr fd s =
      Inr (s\<lparr>cn_state := kConnecting, cn_channel := Some addr, chans := x, pollfds := y, channels := z\<rparr>) \<and>
    loop_ok tid (s\<lparr>chans := x, pollfds := y, channels := z\<rparr>) \<and>
    registered addr (s\<lparr>chans := x, pollfds := y, channels := z\<rparr>) \<and>
    x addr = Some c \<and> ch_fd c = fd \<and> \<not> ch_eventHandling c"
proof -
  let ?s = "s\<lparr>cn_state := kConnecting, cn_channel := Some addr, chans := (chans s)(addr \<mapsto> new_channel (el_self s) fd)\<rparr>"
  have "loop_ok tid (s\<lparr>cn_state := kConnecting, cn_channel := Some addr\<rparr>)" using assms(1) by simp
  from loop_ok_new_channel(1) [OF this, of addr] assms(3) have ok: "loop_ok tid ?s" by simp
  have "fresh addr ?s" using assms(4,5) by (simp add: fresh_def new_channel_def)
  then obtain t where t: "update_events tid addr (\<lambda>e. e OR kWriteEvent) ?s = Inr t" "loop_ok tid t" "registered addr t"
    "loop_rest t = loop_rest ?s" "chan_base addr t = chan_base addr ?s"
    using loop_reg.updateE [OF ok, of addr "\<lambda>e. e OR kWriteEvent"] by metis
  obtain x y z where xyz: "t = ?s\<lparr>chans := x, pollfds := y, channels := z\<rparr>"
    using loop_rest_update [OF t(4)] by blast
  let ?c = "new_channel (el_self s) fd"
  have "map_option (\<lambda>c. c\<lparr>ch_index := 0, ch_events := 0\<rparr>) (x addr) = Some (?c\<lparr>ch_index := 0, ch_events := 0\<rparr>)"
    using t(5) by (simp add: chan_base_def forget_events_def xyz)
  then obtain c where c: "x addr = Some c" "c\<lparr>ch_index := 0, ch_events := 0\<rparr> = ?c\<lparr>ch_index := 0, ch_events := 0\<rparr>"
    by auto
  then have "ch_fd c = fd" "\<not> ch_eventHandling c"
    using same_base [OF c(2)] by (simp_all add: new_channel_def)
  moreover have "connecting tid addr fd s = Inr t"
    using t(1) assms(2) by (simp add: connecting_def enableWriting_def)
  moreover have "t = s\<lparr>cn_state := kConnecting, cn_channel := Some addr, chans := x, pollfds := y, channels := z\<rparr>"
    by (simp add: xyz)
  moreover have "loop_ok tid (s\<lparr>chans := x, pollfds := y, channels := z\<rparr>)"
    "registered addr (s\<lparr>chans := x, pollfds := y, channels := z\<rparr>)"
    using t(2,3) loop_ok_cong [of "s\<lparr>chans := x, pollfds := y, channels := z\<rparr>" t] by (simp_all add: xyz)
  ultimately show ?thesis using c(1) by blast
qed

text \<open>A state whose channel has just been taken out and whose socket \<open>fd\<close> is not booked yet.\<close>

definition parted :: "int \<Rightarrow> cn_functor list \<Rightarrow> int \<Rightarrow> Connector \<Rightarrow> bool" where
  "parted tid fs fd s \<longleftrightarrow> cn_link tid s \<and> cn_queue fs s \<and> cn_timers s = [] \<and> cn_channel s \<noteq> None \<and>
     cn_state s \<noteq> kConnecting \<and> cn_delays s \<and>
     mset (cn_opened s) = mset (cn_closed s) + mset (cn_handed s) + {#fd#}"

lemma part:
  assumes inv: "cn_inv tid fs s" and state: "cn_state s = kConnecting"
  shows "\<exists>fd s1. removeAndResetChannel tid (s\<lparr>cn_state := st\<rparr>) = Inr (fd, s1) \<and> cn_state s1 = st \<and>
    el_pendingFunctors s1 = el_pendingFunctors s @ [ResetChannel] \<and>
    (\<forall>st'. st' \<noteq> kConnecting \<longrightarrow> parted tid (fs @ [ResetChannel]) fd (s1\<lparr>cn_state := st'\<rparr>))"
proof -
  let ?s = "s\<lparr>cn_state := st\<rparr>"
  from inv state obtain a c where a: "cn_channel s = Some a" "chans s a = Some c" "\<not> ch_eventHandling c" "registered a s"
    by (auto simp: cn_inv_def cn_link_def split: option.splits)
  have ok: "loop_ok tid ?s" "removable a ?s" using inv by (auto simp: cn_inv_def cn_link_def removable_def)
  from remove_channel [OF ok, where c = c] a obtain x y z w c' where
    r: "removeAndResetChannel tid ?s = Inr (ch_fd c, ?s\<lparr>chans := x, pollfds := y, channels := z,
        el_pendingFunctors := el_pendingFunctors s @ [ResetChannel], el_wakeups := w\<rparr>)"
    "loop_ok tid (?s\<lparr>chans := x, pollfds := y, channels := z\<rparr>)"
    "\<not> registered a (?s\<lparr>chans := x, pollfds := y, channels := z\<rparr>)" "x a = Some c'" "\<not> ch_eventHandling c'"
    by auto
  let ?t = "\<lambda>st'. ?s\<lparr>chans := x, pollfds := y, channels := z,
    el_pendingFunctors := el_pendingFunctors s @ [ResetChannel], el_wakeups := w, cn_state := st'\<rparr>"
  have "parted tid (fs @ [ResetChannel]) (ch_fd c) (?t st')" if "st' \<noteq> kConnecting" for st'
  proof -
    have "loop_ok tid (?t st')" "\<not> registered a (?t st')"
      using r(2,3) loop_ok_cong [of "?t st'" "?s\<lparr>chans := x, pollfds := y, channels := z\<rparr>"] by simp_all
    then have "cn_link tid (?t st')"
      using inv a(1) r(4,5) that by (simp add: cn_inv_def cn_link_def removable_def)
    moreover have "cn_queue (fs @ [ResetChannel]) (?t st')" "cn_timers (?t st') = []"
      using inv state a(1) that by (auto simp: cn_inv_def cn_queue_def)
    ultimately show ?thesis
      using inv state a(1,2) that by (simp add: parted_def cn_inv_def cn_books_def cn_current_def cn_delays_def)
  qed
  with r(1) show ?thesis by auto
qed

lemma cn_link_simple:
  assumes "cn_link tid s" "cn_channel s' = cn_channel s" "cn_state s' = cn_state s"
    "chans s' = chans s" "pollfds s' = pollfds s" "channels s' = channels s"
    "el_threadId s' = el_threadId s" "el_self s' = el_self s" "el_eventHandling s' = el_eventHandling s"
    "el_currentActiveChannel s' = el_currentActiveChannel s" "el_activeChannels s' = el_activeChannels s"
  shows "cn_link tid s'"
  using assms(1) loop_ok_cong [OF assms(4-8)] removable_cong [OF assms(9-11)]
  by (auto simp: cn_link_def assms(2-4) split: option.splits)

lemma retry_parted:
  assumes "parted tid fs fd (s\<lparr>cn_state := kDisconnected\<rparr>)"
  shows "cn_inv tid fs (retry fd s)" "el_pendingFunctors (retry fd s) = el_pendingFunctors s"
proof -
  have "cn_link tid (retry fd s)"
    by (rule cn_link_simple [of tid "s\<lparr>cn_state := kDisconnected\<rparr>"])
      (use assms in \<open>simp_all add: parted_def retry_def cn_close_def Let_def\<close>)
  moreover have "cn_queue fs (retry fd s)"
    using assms by (auto simp: parted_def retry_def cn_close_def Let_def cn_queue_def)
  moreover have "cn_books (retry fd s)"
    using assms by (auto simp: parted_def retry_def cn_close_def Let_def cn_books_def cn_current_def split: option.splits)
  moreover have "cn_delays (retry fd s)"
    using assms by (auto simp: parted_def retry_def cn_close_def Let_def cn_delays_def backoff_def kMaxRetryDelayMs_def)
  ultimately show "cn_inv tid fs (retry fd s)" by (simp add: cn_inv_def)
  show "el_pendingFunctors (retry fd s) = el_pendingFunctors s" by (simp add: retry_def cn_close_def Let_def)
qed

lemma connected_parted:
  assumes "parted tid fs fd (s\<lparr>cn_state := kConnected\<rparr>)"
  shows "cn_inv tid fs (s\<lparr>cn_state := kConnected, cn_handed := cn_handed s @ [fd]\<rparr>)"
    "cn_inv tid fs (cn_close fd (s\<lparr>cn_state := kConnected\<rparr>))"
proof -
  have "cn_link tid (s\<lparr>cn_state := kConnected, cn_handed := h\<rparr>)" for h
    by (rule cn_link_simple [of tid "s\<lparr>cn_state := kConnected\<rparr>"]) (use assms in \<open>simp_all add: parted_def\<close>)
  moreover have "cn_link tid (s\<lparr>cn_state := kConnected, cn_closed := k\<rparr>)" for k
    by (rule cn_link_simple [of tid "s\<lparr>cn_state := kConnected\<rparr>"]) (use assms in \<open>simp_all add: parted_def\<close>)
  ultimately
  show "cn_inv tid fs (s\<lparr>cn_state := kConnected, cn_handed := cn_handed s @ [fd]\<rparr>)"
    "cn_inv tid fs (cn_close fd (s\<lparr>cn_state := kConnected\<rparr>))"
    using assms by (auto simp: parted_def cn_inv_def cn_queue_def cn_books_def cn_current_def cn_delays_def
        cn_close_def split: option.splits)
qed

section \<open>Every step keeps the invariant\<close>

lemma cn_inv_simple:
  assumes "cn_inv tid fs s" "cn_channel s' = cn_channel s" "cn_state s' = cn_state s"
    "chans s' = chans s" "pollfds s' = pollfds s" "channels s' = channels s"
    "el_threadId s' = el_threadId s" "el_self s' = el_self s" "el_eventHandling s' = el_eventHandling s"
    "el_currentActiveChannel s' = el_currentActiveChannel s" "el_activeChannels s' = el_activeChannels s"
    "cn_queue fs' s'" "cn_opened s' = cn_opened s" "cn_closed s' = cn_closed s" "cn_handed s' = cn_handed s"
    "cn_delays s'"
  shows "cn_inv tid fs' s'"
proof -
  have "cn_link tid s" using assms(1) by (simp add: cn_inv_def)
  then have "cn_link tid s'" by (rule cn_link_simple [OF _ assms(2-11)])
  moreover have "cn_current s' = cn_current s" by (simp add: cn_current_def assms(2-4) split: option.split)
  ultimately show ?thesis using assms(1,12-16) by (simp add: cn_inv_def cn_books_def)
qed

lemma connect_inv:
  assumes inv: "cn_inv tid fs s" and idle: "cn_state s = kDisconnected" "cn_channel s = None" "cn_timers s = []"
    "StartInLoop \<notin> set fs" and fresh: "cn_fresh env s"
  shows "\<exists>s'. connect tid env s = Inr s' \<and> cn_inv tid fs s' \<and> el_pendingFunctors s' = el_pendingFunctors s"
proof -
  let ?n = "cn_tries s" let ?fd = "env_socket env ?n" let ?e = "env_connect env ?n" let ?a = "env_alloc env ?n"
  let ?s = "s\<lparr>cn_tries := ?n + 1, cn_opened := cn_opened s @ [?fd]\<rparr>"
  note f = fresh [unfolded cn_fresh_def]
  have ok: "loop_ok tid s" "\<forall>b. removable b s" using inv by (simp_all add: cn_inv_def cn_link_def)
  have "cn_link tid s" using inv by (simp add: cn_inv_def)
  then have link: "cn_link tid ?s" by (rule cn_link_simple) simp_all
  have queue: "cn_queue fs ?s" "cn_delays ?s" "count_list fs ResetChannel = 0"
    using inv idle by (simp_all add: cn_inv_def cn_queue_def cn_delays_def)
  have books: "mset (cn_opened ?s) = mset (cn_closed s) + mset (cn_handed s) + {#?fd#}"
    using inv idle by (simp add: cn_inv_def cn_books_def cn_current_def)
  consider (wait) "?e \<in> connecting_errnos" | (again) "?e \<notin> connecting_errnos" "?e \<in> retry_errnos"
    | (give_up) "?e \<notin> connecting_errnos" "?e \<notin> retry_errnos" by blast
  then show ?thesis
  proof cases
    case wait
    have "loop_ok tid ?s" using link by (simp add: cn_link_def)
    from connecting_ok [OF this, of ?a ?fd] f idle obtain x y z c where
      c: "connecting tid ?a ?fd ?s = Inr (?s\<lparr>cn_state := kConnecting, cn_channel := Some ?a, chans := x, pollfds := y, channels := z\<rparr>)"
      "loop_ok tid (?s\<lparr>chans := x, pollfds := y, channels := z\<rparr>)"
      "registered ?a (?s\<lparr>chans := x, pollfds := y, channels := z\<rparr>)"
      "x ?a = Some c" "ch_fd c = ?fd" "\<not> ch_eventHandling c" by auto
    let ?t = "?s\<lparr>cn_state := kConnecting, cn_channel := Some ?a, chans := x, pollfds := y, channels := z\<rparr>"
    have "loop_ok tid ?t" "registered ?a ?t"
      using c(2,3) loop_ok_cong [of ?t "?s\<lparr>chans := x, pollfds := y, channels := z\<rparr>"] by simp_all
    then have "cn_link tid ?t" using ok(2) c(4,6) by (simp add: cn_link_def removable_def)
    moreover have "cn_queue fs ?t" "cn_delays ?t" "cn_books ?t"
      using queue idle books c(4,5) by (simp_all add: cn_queue_def cn_delays_def cn_books_def cn_current_def)
    ultimately have "cn_inv tid fs ?t" by (simp add: cn_inv_def)
    with c(1) wait f show ?thesis by (simp add: connect_def Let_def)
  next
    case again
    have "cn_link tid (retry ?fd ?s)"
      by (rule cn_link_simple [OF link]) (simp_all add: retry_def cn_close_def Let_def idle)
    moreover have "cn_queue fs (retry ?fd ?s)" "cn_delays (retry ?fd ?s)" "cn_books (retry ?fd ?s)"
      using queue idle books by (auto simp: retry_def cn_close_def Let_def cn_queue_def cn_delays_def cn_books_def
          cn_current_def backoff_def kMaxRetryDelayMs_def)
    ultimately have "cn_inv tid fs (retry ?fd ?s)" by (simp add: cn_inv_def)
    moreover have "el_pendingFunctors (retry ?fd ?s) = el_pendingFunctors s"
      by (simp add: retry_def cn_close_def Let_def)
    ultimately show ?thesis using again f by (simp add: connect_def Let_def)
  next
    case give_up
    have "cn_link tid (cn_close ?fd ?s)" by (rule cn_link_simple [OF link]) (simp_all add: cn_close_def)
    then have "cn_inv tid fs (cn_close ?fd ?s)"
      using queue idle books by (simp add: cn_close_def cn_inv_def cn_queue_def cn_delays_def cn_books_def cn_current_def)
    then show ?thesis using give_up f by (simp add: connect_def Let_def cn_close_def)
  qed
qed

lemma startInLoop_inv:
  assumes "cn_inv tid fs s" "cn_state s = kDisconnected" "cn_channel s = None" "cn_timers s = []"
    "StartInLoop \<notin> set fs" "cn_fresh env s"
  shows "\<exists>s'. startInLoop tid env s = Inr s' \<and> cn_inv tid fs s' \<and> el_pendingFunctors s' = el_pendingFunctors s"
proof -
  have "assertInLoopThread tid s = Inr ()" using assms(1) by (simp add: cn_inv_def cn_link_def loop_thread)
  with assms(1,2) connect_inv [OF assms] show ?thesis by (simp add: startInLoop_def)
qed

lemma stopInLoop_inv:
  assumes inv: "cn_inv tid (gs @ el_pendingFunctors s) s"
  shows "\<exists>s'. stopInLoop tid s = Inr s' \<and> cn_inv tid (gs @ el_pendingFunctors s') s' \<and>
    (cn_state s \<noteq> kConnecting \<longrightarrow> s' = s) \<and> (cn_state s = kConnecting \<longrightarrow> StartInLoop \<notin> set gs)"
proof -
  have thread: "assertInLoopThread tid s = Inr ()" using inv by (simp add: cn_inv_def cn_link_def loop_thread)
  show ?thesis
  proof (cases "cn_state s = kConnecting")
    case True
    from part [OF inv True, of kDisconnected] obtain fd s1 where
      s1: "removeAndResetChannel tid (s\<lparr>cn_state := kDisconnected\<rparr>) = Inr (fd, s1)"
      "el_pendingFunctors s1 = el_pendingFunctors s @ [ResetChannel]"
      "parted tid ((gs @ el_pendingFunctors s) @ [ResetChannel]) fd (s1\<lparr>cn_state := kDisconnected\<rparr>)" by auto
    note r = retry_parted [OF s1(3)]
    have "StartInLoop \<notin> set gs" using inv True by (auto simp: cn_inv_def cn_queue_def)
    with True thread s1 r show ?thesis by (simp add: stopInLoop_def)
  next
    case False
    with thread inv show ?thesis by (simp add: stopInLoop_def)
  qed
qed

lemma resetChannel_inv:
  assumes inv: "cn_inv tid (ResetChannel # fs) s"
  shows "\<exists>s'. resetChannel s = Inr s' \<and> cn_inv tid fs s' \<and> el_pendingFunctors s' = el_pendingFunctors s \<and>
    StartInLoop \<notin> set fs"
proof -
  from inv have "cn_channel s \<noteq> None" "cn_state s \<noteq> kConnecting" "StartInLoop \<notin> set fs"
    by (auto simp: cn_inv_def cn_queue_def split: if_splits)
  then obtain a c where a: "cn_channel s = Some a" "chans s a = Some c" "\<not> ch_eventHandling c" "\<not> registered a s"
    "loop_ok tid s" "\<forall>b. removable b s"
    using inv by (auto simp: cn_inv_def cn_link_def)
  let ?s = "s\<lparr>chans := (chans s)(a := None), cn_channel := None\<rparr>"
  have "loop_ok tid (s\<lparr>chans := (chans s)(a := None)\<rparr>)"
    using loop_ok_set_channel(1) [OF a(5) no_entry [OF a(5,4)]] .
  then have "cn_link tid ?s" using a(6) \<open>cn_state s \<noteq> kConnecting\<close> by (simp add: cn_link_def removable_def)
  moreover have "cn_queue fs ?s" "cn_books ?s" "cn_delays ?s"
    using inv \<open>cn_state s \<noteq> kConnecting\<close> a(1)
    by (auto simp: cn_inv_def cn_queue_def cn_books_def cn_current_def cn_delays_def split: option.splits)
  moreover have "resetChannel s = Inr ?s" using a(1-3) by (simp add: resetChannel_def Channel_dtor_def)
  ultimately show ?thesis using \<open>StartInLoop \<notin> set fs\<close> by (simp add: cn_inv_def)
qed

lemma run_cn_inv:
  assumes inv: "cn_inv tid ((f # gs) @ el_pendingFunctors s) s" and fresh: "f = StartInLoop \<longrightarrow> cn_fresh env s"
  shows "\<exists>s'. run_cn tid env f s = Inr s' \<and> cn_inv tid (gs @ el_pendingFunctors s') s' \<and>
    (StartInLoop \<in> set gs \<longrightarrow> s' = s)"
proof (cases f)
  case StartInLoop
  have q: "cn_queue (gs @ el_pendingFunctors s) s" "cn_state s = kDisconnected" "cn_channel s = None"
    "cn_timers s = []" "StartInLoop \<notin> set (gs @ el_pendingFunctors s)"
    using inv StartInLoop by (auto simp: cn_inv_def cn_queue_def count_list_0_iff)
  then have "cn_inv tid (gs @ el_pendingFunctors s) s" using inv by (simp add: cn_inv_def)
  from startInLoop_inv [OF this q(2-5), of env] fresh StartInLoop q(5) show ?thesis
    by (fastforce simp: run_cn_def)
next
  case StopInLoop
  have "cn_queue (gs @ el_pendingFunctors s) s" using inv StopInLoop by (simp add: cn_inv_def cn_queue_def)
  then have "cn_inv tid (gs @ el_pendingFunctors s) s" using inv by (simp add: cn_inv_def)
  from stopInLoop_inv [OF this] StopInLoop show ?thesis by (auto simp: run_cn_def)
next
  case ResetChannel
  from resetChannel_inv [of tid "gs @ el_pendingFunctors s" s] inv ResetChannel show ?thesis
    by (auto simp: run_cn_def)
qed

lemma run_all_inv:
  "cn_inv tid (fs @ el_pendingFunctors s) s \<Longrightarrow> (StartInLoop \<in> set fs \<longrightarrow> cn_fresh env s) \<Longrightarrow>
    \<exists>s'. rfold (run_cn tid env) fs s = Inr s' \<and> cn_inv tid (el_pendingFunctors s') s'"
proof (induction fs arbitrary: s)
  case (Cons f fs)
  from run_cn_inv [OF Cons.prems(1), of env] Cons.prems(2) obtain s1 where
    "run_cn tid env f s = Inr s1" "cn_inv tid (fs @ el_pendingFunctors s1) s1" "StartInLoop \<in> set fs \<longrightarrow> s1 = s"
    by auto
  with Cons.IH [of s1] Cons.prems(2) show ?case by auto
qed simp

section \<open>The life of a connector\<close>

text \<open>What may happen to a connector; a call in a thread \<open>t\<close>; the events of its channel with their outcome.\<close>

datatype cn_event =
    CallStart int
  | CallStop int
  | CallRestart
  | Functors
  | RetryTimer
  | ChannelEvent "32 word" nat bool

definition cn_step :: "int \<Rightarrow> cn_env \<Rightarrow> cn_event \<Rightarrow> Connector \<Rightarrow> Connector result" where
  "cn_step tid env ev s = (case ev of
     CallStart t \<Rightarrow> start t env s
   | CallStop t \<Rightarrow> stop t env s
   | CallRestart \<Rightarrow> restart tid env s
   | Functors \<Rightarrow> doPendingFunctors (run_cn tid env) s
   | RetryTimer \<Rightarrow> startInLoop tid env (s\<lparr>cn_timers := drop 1 (cn_timers s)\<rparr>)
   | ChannelEvent r err isSelf \<Rightarrow> rfold (cn_callback tid err isSelf) (fired r) s)"

text \<open>
  The proper use: it is started when it is idle (in particular not while a retry is pending), restarted
  when its connection has been handed over, as \<open>TcpClient\<close> does, and stopped at any time; a retry timer
  expires only after the functors of the round that set it have run; the kernel gives fresh descriptors.
\<close>

definition cn_allowed :: "cn_env \<Rightarrow> cn_event \<Rightarrow> Connector \<Rightarrow> bool" where
  "cn_allowed env ev s \<longleftrightarrow> cn_fresh env s \<and> (case ev of
     CallStart t \<Rightarrow> cn_state s = kDisconnected \<and> cn_channel s = None \<and> cn_timers s = [] \<and>
       StartInLoop \<notin> set (el_pendingFunctors s)
   | CallStop t \<Rightarrow> True
   | CallRestart \<Rightarrow> cn_state s = kConnected \<and> cn_channel s = None
   | Functors \<Rightarrow> True
   | RetryTimer \<Rightarrow> cn_timers s \<noteq> [] \<and> cn_channel s = None
   | ChannelEvent r err isSelf \<Rightarrow> cn_state s = kConnecting)"

lemma queue_functor_inv:
  assumes inv: "cn_inv tid (el_pendingFunctors s) s" and "cn_queue (el_pendingFunctors s @ [f]) s"
  shows "cn_inv tid (el_pendingFunctors (queueInLoop t f (s\<lparr>cn_connect := b\<rparr>))) (queueInLoop t f (s\<lparr>cn_connect := b\<rparr>))"
proof -
  obtain w where q: "queueInLoop t f (s\<lparr>cn_connect := b\<rparr>) =
      s\<lparr>cn_connect := b, el_pendingFunctors := el_pendingFunctors s @ [f], el_wakeups := w\<rparr>"
    using queueInLoop_eq [of t f "s\<lparr>cn_connect := b\<rparr>"] by auto
  show ?thesis unfolding q
    by (rule cn_inv_simple [OF inv]) (use assms in \<open>simp_all add: cn_inv_def cn_queue_def cn_delays_def\<close>)
qed

lemma connect_flag_inv:
  assumes inv: "cn_inv tid fs s"
  shows "cn_inv tid fs (s\<lparr>cn_connect := b\<rparr>)"
  by (rule cn_inv_simple [OF inv]) (use assms in \<open>simp_all add: cn_inv_def cn_queue_def cn_delays_def\<close>)

lemma callback_inv:
  assumes inv: "cn_inv tid (el_pendingFunctors s) s" and state: "cn_state s = kConnecting"
    and k: "k = WriteCB \<or> k = ErrorCB"
  shows "\<exists>s'. cn_callback tid err isSelf k s = Inr s' \<and> cn_inv tid (el_pendingFunctors s') s' \<and>
    (k = ErrorCB \<longrightarrow> cn_state s' = kDisconnected)"
proof -
  have "s\<lparr>cn_state := kConnecting\<rparr> = s" using state by (cases s) simp
  with part [OF inv state, of kConnecting] obtain fd s1 where
    s1: "removeAndResetChannel tid s = Inr (fd, s1)" "el_pendingFunctors s1 = el_pendingFunctors s @ [ResetChannel]"
    and p: "\<And>st. st \<noteq> kConnecting \<Longrightarrow> parted tid (el_pendingFunctors s @ [ResetChannel]) fd (s1\<lparr>cn_state := st\<rparr>)"
    by auto
  note r = retry_parted [OF p [of kDisconnected, simplified]]
  note c = connected_parted [OF p [of kConnected, simplified]]
  have "cn_state (retry fd s1) = kDisconnected" by (simp add: retry_def Let_def)
  with s1 r c state k show ?thesis
    by (auto simp: cn_callback_def cn_handleWrite_def cn_handleError_def cn_close_def Let_def)
qed

lemma channel_event_inv:
  assumes inv: "cn_inv tid (el_pendingFunctors s) s" and state: "cn_state s = kConnecting"
  shows "\<exists>s'. rfold (cn_callback tid err isSelf) (fired r) s = Inr s' \<and> cn_inv tid (el_pendingFunctors s') s'"
proof -
  let ?cb = "cn_callback tid err isSelf"
  have skip: "rfold ?cb (if b then [CloseCB] else []) u = Inr u" "rfold ?cb (if b then [ReadCB] else []) u = Inr u" for b u
    by (simp_all add: cn_callback_def)
  obtain s1 where s1: "rfold ?cb (if bit r 5 \<or> bit r 3 then [ErrorCB] else []) s = Inr s1"
    "cn_inv tid (el_pendingFunctors s1) s1" "cn_state s1 = kConnecting \<or> cn_state s1 = kDisconnected"
    using callback_inv [OF inv state, of ErrorCB err isSelf] inv state
    by (cases "bit r 5 \<or> bit r 3") auto
  have "\<exists>s2. ?cb WriteCB s1 = Inr s2 \<and> cn_inv tid (el_pendingFunctors s2) s2"
  proof (cases "cn_state s1 = kConnecting")
    case True
    with callback_inv [OF s1(2) True, of WriteCB] show ?thesis by auto
  next
    case False
    with s1(2,3) show ?thesis by (simp add: cn_callback_def cn_handleWrite_def)
  qed
  with s1(2) obtain s2 where "rfold ?cb (if bit r 2 then [WriteCB] else []) s1 = Inr s2"
    "cn_inv tid (el_pendingFunctors s2) s2"
    by (cases "bit r 2") auto
  then show ?thesis unfolding fired_def rfold_append by (simp only: skip s1(1) rbind_Inr) simp
qed

lemma call_start_inv:
  assumes inv: "cn_inv tid (el_pendingFunctors s) s" and may: "cn_allowed env (CallStart t) s"
  shows "\<exists>s'. cn_step tid env (CallStart t) s = Inr s' \<and> cn_inv tid (el_pendingFunctors s') s'"
proof -
  have "cn_fresh env s" using may by (simp add: cn_allowed_def)
  then have fresh': "cn_fresh env (s\<lparr>cn_connect := b\<rparr>)" "cn_fresh env (s\<lparr>cn_timers := x\<rparr>)"
    "cn_fresh env (s\<lparr>cn_state := st, cn_retryDelayMs := d, cn_connect := b\<rparr>)" for b x st d
    by (simp_all add: cn_fresh_def)
  have here: "isInLoopThread u s \<longleftrightarrow> u = tid" for u
    using inv by (auto simp: cn_inv_def cn_link_def loop_ok_def isInLoopThread_def)
  from may have idle: "cn_state s = kDisconnected" "cn_channel s = None" "cn_timers s = []"
    "StartInLoop \<notin> set (el_pendingFunctors s)" by (simp_all add: cn_allowed_def)
  show ?thesis
  proof (cases "t = tid")
    case True
    have "isInLoopThread tid (s\<lparr>cn_connect := True\<rparr>)" using here [of tid] by (simp add: isInLoopThread_def)
    moreover from startInLoop_inv [OF connect_flag_inv [OF inv, of True], of env] fresh'(1) idle
    have "\<exists>s'. startInLoop tid env (s\<lparr>cn_connect := True\<rparr>) = Inr s' \<and> cn_inv tid (el_pendingFunctors s') s'"
      by auto
    ultimately show ?thesis by (simp add: cn_step_def start_def runInLoop_def run_cn_def True)
  next
    case False
    have "cn_queue (el_pendingFunctors s @ [StartInLoop]) s"
      using inv idle by (simp add: cn_inv_def cn_queue_def count_list_0_iff)
    from queue_functor_inv [OF inv this] False here show ?thesis
      by (simp add: cn_step_def start_def runInLoop_def isInLoopThread_def)
  qed
qed

lemma call_stop_inv:
  assumes inv: "cn_inv tid (el_pendingFunctors s) s" and may: "cn_allowed env (CallStop t) s"
  shows "\<exists>s'. cn_step tid env (CallStop t) s = Inr s' \<and> cn_inv tid (el_pendingFunctors s') s'"
proof -
  have here: "isInLoopThread u s \<longleftrightarrow> u = tid" for u
    using inv by (auto simp: cn_inv_def cn_link_def loop_ok_def isInLoopThread_def)
  show ?thesis
  proof (cases "t = tid")
    case True
    from stopInLoop_inv [of tid "[]" "s\<lparr>cn_connect := False\<rparr>"] connect_flag_inv [OF inv, of False] show ?thesis
      using here by (auto simp: cn_step_def stop_def runInLoop_def run_cn_def True isInLoopThread_def)
  next
    case False
    have "cn_queue (el_pendingFunctors s @ [StopInLoop]) s" using inv by (simp add: cn_inv_def cn_queue_def)
    from queue_functor_inv [OF inv this] False here show ?thesis
      by (simp add: cn_step_def stop_def runInLoop_def isInLoopThread_def)
  qed
qed

lemma functors_step_inv:
  assumes inv: "cn_inv tid (el_pendingFunctors s) s" and may: "cn_allowed env Functors s"
  shows "\<exists>s'. cn_step tid env Functors s = Inr s' \<and> cn_inv tid (el_pendingFunctors s') s'"
proof -
  have fresh: "cn_fresh env s" using may by (simp add: cn_allowed_def)
  let ?s = "s\<lparr>el_callingPendingFunctors := True, el_pendingFunctors := []\<rparr>"
  have "cn_inv tid (el_pendingFunctors s @ el_pendingFunctors ?s) ?s"
    by (rule cn_inv_simple [OF inv]) (use inv in \<open>simp_all add: cn_inv_def cn_queue_def cn_delays_def\<close>)
  from run_all_inv [OF this] fresh obtain t where t: "rfold (run_cn tid env) (el_pendingFunctors s) ?s = Inr t"
    "cn_inv tid (el_pendingFunctors t) t" by (auto simp: cn_fresh_def)
  have "cn_inv tid (el_pendingFunctors t) (t\<lparr>el_callingPendingFunctors := False\<rparr>)"
    by (rule cn_inv_simple [OF t(2)]) (use t(2) in \<open>simp_all add: cn_inv_def cn_queue_def cn_delays_def\<close>)
  with t(1) show ?thesis by (simp add: cn_step_def doPendingFunctors_def swap_functors_def)
qed

lemma retry_timer_inv:
  assumes inv: "cn_inv tid (el_pendingFunctors s) s" and may: "cn_allowed env RetryTimer s"
  shows "\<exists>s'. cn_step tid env RetryTimer s = Inr s' \<and> cn_inv tid (el_pendingFunctors s') s'"
proof -
  have "cn_fresh env s" using may by (simp add: cn_allowed_def)
  then have fresh': "cn_fresh env (s\<lparr>cn_connect := b\<rparr>)" "cn_fresh env (s\<lparr>cn_timers := x\<rparr>)"
    "cn_fresh env (s\<lparr>cn_state := st, cn_retryDelayMs := d, cn_connect := b\<rparr>)" for b x st d
    by (simp_all add: cn_fresh_def)
  from may have idle: "cn_timers s \<noteq> []" "cn_channel s = None" by (simp_all add: cn_allowed_def)
  let ?s = "s\<lparr>cn_timers := drop 1 (cn_timers s)\<rparr>"
  from inv idle have "cn_state s = kDisconnected" "cn_timers ?s = []" "StartInLoop \<notin> set (el_pendingFunctors s)"
    "cn_queue (el_pendingFunctors s) ?s"
    by (auto simp: cn_inv_def cn_queue_def)
  moreover from this(4) have "cn_inv tid (el_pendingFunctors s) ?s"
    using inv in_set_dropD by (intro cn_inv_simple [OF inv]) (fastforce simp: cn_inv_def cn_delays_def)+
  ultimately show ?thesis using startInLoop_inv [of tid "el_pendingFunctors s" ?s env] idle fresh'
    by (auto simp: cn_step_def)
qed

lemma call_restart_inv:
  assumes inv: "cn_inv tid (el_pendingFunctors s) s" and may: "cn_allowed env CallRestart s"
  shows "\<exists>s'. cn_step tid env CallRestart s = Inr s' \<and> cn_inv tid (el_pendingFunctors s') s'"
proof -
  have "cn_fresh env s" using may by (simp add: cn_allowed_def)
  then have fresh': "cn_fresh env (s\<lparr>cn_connect := b\<rparr>)" "cn_fresh env (s\<lparr>cn_timers := x\<rparr>)"
    "cn_fresh env (s\<lparr>cn_state := st, cn_retryDelayMs := d, cn_connect := b\<rparr>)" for b x st d
    by (simp_all add: cn_fresh_def)
  from may have idle: "cn_state s = kConnected" "cn_channel s = None" by (simp_all add: cn_allowed_def)
  let ?s = "s\<lparr>cn_state := kDisconnected, cn_retryDelayMs := kInitRetryDelayMs, cn_connect := True\<rparr>"
  from inv idle have t: "cn_timers s = []" "StartInLoop \<notin> set (el_pendingFunctors s)"
    by (auto simp: cn_inv_def cn_queue_def)
  have "cn_link tid ?s" using inv idle by (simp add: cn_inv_def cn_link_def removable_def)
  then have "cn_inv tid (el_pendingFunctors s) ?s" using inv idle t
    by (simp add: cn_inv_def cn_queue_def cn_books_def cn_current_def cn_delays_def backoff_def kInitRetryDelayMs_def)
  with startInLoop_inv [of tid "el_pendingFunctors s" ?s env] idle t fresh' have
    "\<exists>s'. startInLoop tid env ?s = Inr s' \<and> cn_inv tid (el_pendingFunctors s') s'" by auto
  moreover have "assertInLoopThread tid s = Inr ()" using inv by (simp add: cn_inv_def cn_link_def loop_thread)
  ultimately show ?thesis by (simp add: cn_step_def restart_def)
qed

lemma cn_step_inv:
  assumes inv: "cn_inv tid (el_pendingFunctors s) s" and may: "cn_allowed env ev s"
  shows "\<exists>s'. cn_step tid env ev s = Inr s' \<and> cn_inv tid (el_pendingFunctors s') s'"
proof (cases ev)
  case (ChannelEvent r err isSelf)
  with channel_event_inv [OF inv] may show ?thesis by (simp add: cn_step_def cn_allowed_def)
qed (use inv may call_start_inv call_stop_inv functors_step_inv retry_timer_inv call_restart_inv in blast)+

section \<open>Properties\<close>

text \<open>
  Starting a connector a second time while a retry is pending: the timer finds it connecting, and the
  process aborts.
\<close>

lemma start_while_retrying_aborts:
  assumes "loop_ok tid s" "cn_state s = kDisconnected" "cn_channel s = None" "cn_timers s \<noteq> []" "cn_fresh env s"
    and "env_connect env (cn_tries s) \<in> connecting_errnos"
  shows "\<exists>s'. start tid env s = Inr s' \<and>
    cn_step tid env RetryTimer s' = Inl (Assertion ''state_ == kDisconnected'')"
proof -
  let ?fd = "env_socket env (cn_tries s)" and ?a = "env_alloc env (cn_tries s)"
  let ?s = "s\<lparr>cn_connect := True, cn_tries := cn_tries s + 1, cn_opened := cn_opened s @ [?fd]\<rparr>"
  have "loop_ok tid ?s" using assms(1) by simp
  from connecting_ok [OF this, of ?a ?fd] assms(3,5) obtain x y z where
    c: "connecting tid ?a ?fd ?s = Inr (?s\<lparr>cn_state := kConnecting, cn_channel := Some ?a, chans := x, pollfds := y, channels := z\<rparr>)"
    "loop_ok tid (?s\<lparr>chans := x, pollfds := y, channels := z\<rparr>)" by (auto simp: cn_fresh_def)
  let ?t = "?s\<lparr>cn_state := kConnecting, cn_channel := Some ?a, chans := x, pollfds := y, channels := z\<rparr>"
  have "isInLoopThread tid s" using assms(1) by (simp add: isInLoopThread_def loop_ok_def)
  then have "start tid env s = Inr ?t"
    using c(1) assms by (simp add: start_def runInLoop_def run_cn_def startInLoop_def connect_def Let_def
        assertInLoopThread_def isInLoopThread_def cn_fresh_def)
  moreover have "cn_step tid env RetryTimer ?t = Inl (Assertion ''state_ == kDisconnected'')"
    using assms(1) by (simp add: cn_step_def startInLoop_def assertInLoopThread_def isInLoopThread_def loop_ok_def)
  ultimately show ?thesis by blast
qed

lemma new_Connector_inv:
  assumes "loop_ok tid l" "\<forall>b. removable b l" "el_pendingFunctors l = []"
  shows "cn_inv tid [] (new_Connector l)"
proof -
  have "loop_ok tid (new_Connector l)"
    using assms(1) loop_ok_cong [of "new_Connector l" l] by (simp add: new_Connector_def)
  then show ?thesis
    using assms(2,3) by (simp add: cn_inv_def cn_link_def cn_queue_def cn_books_def cn_current_def cn_delays_def
        new_Connector_def removable_def backoff_def kInitRetryDelayMs_def)
qed

inductive cn_reachable :: "int \<Rightarrow> cn_env \<Rightarrow> Connector \<Rightarrow> Connector \<Rightarrow> bool" for tid env s0 where
  init: "cn_reachable tid env s0 s0"
| step: "cn_reachable tid env s0 s \<Longrightarrow> cn_allowed env ev s \<Longrightarrow> cn_step tid env ev s = Inr s' \<Longrightarrow>
    cn_reachable tid env s0 s'"


definition idle_loop :: Connector where
  "idle_loop = \<lparr>chans = (\<lambda>_. None), pollfds = [], channels = (\<lambda>_. None), el_self = 1,
     el_looping = False, el_quit = False, el_eventHandling = False, el_callingPendingFunctors = False,
     el_threadId = 77, el_pollReturnTime = 0, el_activeChannels = [], el_currentActiveChannel = None,
     el_pendingFunctors = [], el_wakeups = 0, cn_connect = False, cn_state = kDisconnected, cn_channel = None,
     cn_retryDelayMs = 0, cn_timers = [], cn_tries = 0, cn_opened = [], cn_closed = [], cn_handed = []\<rparr>"


end
