(* ===== verification/Monitor.thy ===== *)
theory Monitor
  imports Prelude
begin

text \<open>
  Threads that share an object through a mutex and condition variables: the meaning of
  \<open>muduo/base/Mutex.h\<close> and \<open>Condition.h\<close> for the classes whose methods are one critical section each
  (\<open>BlockingQueue\<close>, \<open>BoundedBlockingQueue\<close>, \<open>CountDownLatch\<close>).

  A method \<open>MutexLockGuard lock(mutex_); while(c) cond_.wait(); ...\<close> is a function from the shared state to
  an outcome: \<open>Wait cv\<close> if the loop condition holds (the thread releases the mutex and sleeps on \<open>cv\<close>), or
  \<open>Leave s sig r\<close>, the state after the body, the notification it makes and its result. Since the mutex is
  held in between, an interleaving of the threads is a sequence of such sections: \<open>monitor_step\<close>. A sleeping
  thread may also wake for no reason, as the condition variables of POSIX allow.
\<close>

section \<open>Monitors\<close>

datatype 'cv signal = No_signal | Notify 'cv | NotifyAll 'cv

datatype ('cv, 's, 'r) outcome = Wait 'cv | Leave 's "'cv signal" 'r

datatype ('op, 'cv) thread = Outside | Entering 'op | Waiting 'cv 'op

record ('op, 'cv, 's, 'r) monitor =
  shared :: 's
  threads :: "('op, 'cv) thread list"
  history :: "('op \<times> 'r) list"

definition waiters :: "'cv \<Rightarrow> ('op, 'cv) thread list \<Rightarrow> nat" where
  "waiters cv ts = length (filter (\<lambda>t. \<exists>op. t = Waiting cv op) ts)"

definition enterers :: "('op \<Rightarrow> bool) \<Rightarrow> ('op, 'cv) thread list \<Rightarrow> nat" where
  "enterers p ts = length (filter (\<lambda>t. \<exists>op. t = Entering op \<and> p op) ts)"

definition wake_one :: "'cv \<Rightarrow> ('op, 'cv) thread \<Rightarrow> ('op, 'cv) thread" where
  "wake_one cv t = (case t of Waiting cv' op \<Rightarrow> if cv' = cv then Entering op else t | _ \<Rightarrow> t)"

text \<open>Who runs after a notification: nobody, one of the waiters if there is one, or all of them.\<close>

inductive woken :: "'cv signal \<Rightarrow> ('op, 'cv) thread list \<Rightarrow> ('op, 'cv) thread list \<Rightarrow> bool" where
  nobody: "woken No_signal ts ts"
| no_waiter: "waiters cv ts = 0 \<Longrightarrow> woken (Notify cv) ts ts"
| one: "i < length ts \<Longrightarrow> ts ! i = Waiting cv op \<Longrightarrow> woken (Notify cv) ts (ts[i := Entering op])"
| all: "woken (NotifyAll cv) ts (map (wake_one cv) ts)"

inductive monitor_step ::
  "('op \<Rightarrow> 's \<Rightarrow> ('cv, 's, 'r) outcome) \<Rightarrow> ('op, 'cv, 's, 'r) monitor \<Rightarrow> ('op, 'cv, 's, 'r) monitor \<Rightarrow> bool"
  for critical where
  call: "i < length (threads m) \<Longrightarrow> threads m ! i = Outside \<Longrightarrow>
    monitor_step critical m (m\<lparr>threads := (threads m)[i := Entering op]\<rparr>)"
| wait: "i < length (threads m) \<Longrightarrow> threads m ! i = Entering op \<Longrightarrow> critical op (shared m) = Wait cv \<Longrightarrow>
    monitor_step critical m (m\<lparr>threads := (threads m)[i := Waiting cv op]\<rparr>)"
| leave: "i < length (threads m) \<Longrightarrow> threads m ! i = Entering op \<Longrightarrow> critical op (shared m) = Leave s sig r \<Longrightarrow>
    woken sig ((threads m)[i := Outside]) ts \<Longrightarrow>
    monitor_step critical m (m\<lparr>shared := s, threads := ts, history := history m @ [(op, r)]\<rparr>)"
| spurious: "i < length (threads m) \<Longrightarrow> threads m ! i = Waiting cv op \<Longrightarrow>
    monitor_step critical m (m\<lparr>threads := (threads m)[i := Entering op]\<rparr>)"

definition new_monitor :: "nat \<Rightarrow> 's \<Rightarrow> ('op, 'cv, 's, 'r) monitor" where
  "new_monitor n s = \<lparr>shared = s, threads = replicate n Outside, history = []\<rparr>"

definition reachable where
  "reachable critical n s m \<longleftrightarrow> (monitor_step critical)\<^sup>*\<^sup>* (new_monitor n s) m"

lemma reachable_induct [consumes 1, case_names new step]:
  assumes "reachable critical n s m" "P (new_monitor n s)"
    and "\<And>m m'. P m \<Longrightarrow> monitor_step critical m m' \<Longrightarrow> P m'"
  shows "P m"
  using assms(1) unfolding reachable_def
  by (induction rule: rtranclp_induct) (use assms(2,3) in blast)+

lemma filter_update_length:
  assumes "i < length ts"
  shows "length (filter p (ts[i := t])) + of_bool (p (ts ! i)) = length (filter p ts) + of_bool (p t)"
  using assms
proof (induction ts arbitrary: i)
  case (Cons a ts)
  then show ?case by (cases i) auto
qed simp

lemma waiters_update:
  "i < length ts \<Longrightarrow> waiters cv (ts[i := t]) + of_bool (\<exists>op. ts ! i = Waiting cv op) =
    waiters cv ts + of_bool (\<exists>op. t = Waiting cv op)"
  unfolding waiters_def by (rule filter_update_length)

lemma enterers_update:
  "i < length ts \<Longrightarrow> enterers p (ts[i := t]) + of_bool (\<exists>op. ts ! i = Entering op \<and> p op) =
    enterers p ts + of_bool (\<exists>op. t = Entering op \<and> p op)"
  unfolding enterers_def by (rule filter_update_length)

lemma counts_new [simp]:
  "waiters cv (threads (new_monitor n s)) = 0" "enterers p (threads (new_monitor n s)) = 0"
  by (simp_all add: waiters_def enterers_def new_monitor_def)

section \<open>Queues\<close>

datatype 'a queue_op = Put 'a | Take

datatype queue_cv = notEmpty | notFull

text \<open>\<open>BlockingQueue\<close>.\<close>

fun bq_section :: "'a queue_op \<Rightarrow> 'a list \<Rightarrow> (queue_cv, 'a list, 'a option) outcome" where
  "bq_section (Put x) queue = Leave (queue @ [x]) (Notify notEmpty) None"
| "bq_section Take queue = (case queue of
     [] \<Rightarrow> Wait notEmpty
   | front # rest \<Rightarrow> Leave rest No_signal (Some front))"

text \<open>\<open>BoundedBlockingQueue\<close>, over a circular buffer of \<open>maxSize\<close> elements.\<close>

fun bbq_section :: "nat \<Rightarrow> 'a queue_op \<Rightarrow> 'a list \<Rightarrow> (queue_cv, 'a list, 'a option) outcome" where
  "bbq_section maxSize (Put x) queue =
     (if length queue = maxSize then Wait notFull else Leave (queue @ [x]) (Notify notEmpty) None)"
| "bbq_section maxSize Take queue = (case queue of
     [] \<Rightarrow> Wait notEmpty
   | front # rest \<Rightarrow> Leave rest (Notify notFull) (Some front))"

text \<open>What was put and what was taken, in the order of the critical sections.\<close>

fun puts :: "('a queue_op \<times> 'a option) list \<Rightarrow> 'a list" where
  "puts [] = []"
| "puts ((Put x, r) # h) = x # puts h"
| "puts ((Take, r) # h) = puts h"

fun takes :: "('a queue_op \<times> 'a option) list \<Rightarrow> 'a list" where
  "takes [] = []"
| "takes ((Put x, r) # h) = takes h"
| "takes ((Take, r) # h) = (case r of None \<Rightarrow> takes h | Some x \<Rightarrow> x # takes h)"

lemma puts_append [simp]: "puts (g @ h) = puts g @ puts h"
  by (induction g rule: puts.induct) simp_all

lemma takes_append [simp]: "takes (g @ h) = takes g @ takes h"
  by (induction g rule: takes.induct) (simp_all split: option.split)

abbreviation takers :: "('a queue_op, queue_cv) thread list \<Rightarrow> nat" where
  "takers ts \<equiv> enterers (\<lambda>op. op = Take) ts"

abbreviation putters :: "('a queue_op, queue_cv) thread list \<Rightarrow> nat" where
  "putters ts \<equiv> enterers (\<lambda>op. op \<noteq> Take) ts"

text \<open>
  The invariant: first in, first out; the bound; a thread waits only on the condition of its own operation;
  and if anybody waits for an element (for room), every element (every free place) has a thread that is awake
  to take it (to fill it).
\<close>

definition own_condition :: "('a queue_op, queue_cv) thread list \<Rightarrow> bool" where
  "own_condition ts \<longleftrightarrow> (\<forall>t\<in>set ts. \<forall>cv op. t = Waiting cv op \<longrightarrow> (cv = notEmpty \<longleftrightarrow> op = Take))"

definition queue_inv :: "nat \<Rightarrow> ('a queue_op, queue_cv, 'a list, 'a option) monitor \<Rightarrow> bool" where
  "queue_inv maxSize m \<longleftrightarrow>
     puts (history m) = takes (history m) @ shared m \<and>
     length (shared m) \<le> maxSize \<and>
     own_condition (threads m) \<and>
     (waiters notEmpty (threads m) \<noteq> 0 \<longrightarrow> length (shared m) \<le> takers (threads m)) \<and>
     (waiters notFull (threads m) \<noteq> 0 \<longrightarrow> maxSize \<le> length (shared m) + putters (threads m))"

lemma own_condition_update:
  "own_condition ts \<Longrightarrow> (\<And>cv op. t = Waiting cv op \<Longrightarrow> (cv = notEmpty \<longleftrightarrow> op = Take)) \<Longrightarrow>
    own_condition (ts[i := t])"
  unfolding own_condition_def using set_update_subset_insert [of ts i t] by blast

lemma own_condition_nth:
  "own_condition ts \<Longrightarrow> i < length ts \<Longrightarrow> ts ! i = Waiting cv op \<Longrightarrow> cv = notEmpty \<longleftrightarrow> op = Take"
  unfolding own_condition_def by (metis nth_mem)

lemma waiter_counted: "i < length ts \<Longrightarrow> ts ! i = Waiting cv op \<Longrightarrow> waiters cv ts \<noteq> 0"
  unfolding waiters_def by (auto simp: filter_empty_conv) (metis nth_mem)

text \<open>How the counts change when thread \<open>i\<close> moves.\<close>

lemma move_enter:
  assumes "i < length ts" "ts ! i = Outside"
  shows "waiters cv (ts[i := Entering op]) = waiters cv ts"
    "enterers p (ts[i := Entering op]) = enterers p ts + of_bool (p op)"
  using waiters_update [OF assms(1), of cv "Entering op"] enterers_update [OF assms(1), of p "Entering op"] assms(2)
  by simp_all

lemma move_wait:
  assumes "i < length ts" "ts ! i = Entering op"
  shows "waiters cv' (ts[i := Waiting cv op]) = waiters cv' ts + of_bool (cv = cv')"
    "enterers p ts = enterers p (ts[i := Waiting cv op]) + of_bool (p op)"
  using waiters_update [OF assms(1), of cv' "Waiting cv op"] enterers_update [OF assms(1), of p "Waiting cv op"] assms(2)
  by simp_all

lemma move_leave:
  assumes "i < length ts" "ts ! i = Entering op"
  shows "waiters cv (ts[i := Outside]) = waiters cv ts"
    "enterers p ts = enterers p (ts[i := Outside]) + of_bool (p op)"
  using waiters_update [OF assms(1), of cv Outside] enterers_update [OF assms(1), of p Outside] assms(2)
  by simp_all

lemma move_wake:
  assumes "i < length ts" "ts ! i = Waiting cv op"
  shows "waiters cv' ts = waiters cv' (ts[i := Entering op]) + of_bool (cv = cv')"
    "enterers p (ts[i := Entering op]) = enterers p ts + of_bool (p op)"
  using waiters_update [OF assms(1), of cv' "Entering op"] enterers_update [OF assms(1), of p "Entering op"] assms(2)
  by simp_all

text \<open>After a notification: the state of the sleepers, in terms of the counts before.\<close>

lemma woken_queue:
  assumes "woken (Notify cv) ts ts'" "own_condition ts"
  shows "own_condition ts' \<and>
    (waiters cv ts = 0 \<and> ts' = ts \<or>
     waiters cv ts \<noteq> 0 \<and> waiters notEmpty ts' \<le> waiters notEmpty ts \<and>
     waiters notFull ts' \<le> waiters notFull ts \<and>
     takers ts' = takers ts + of_bool (cv = notEmpty) \<and> putters ts' = putters ts + of_bool (cv = notFull))"
  using assms(1)
proof (cases rule: woken.cases)
  case (one i op)
  then have "cv = notEmpty \<longleftrightarrow> op = Take" using assms(2) own_condition_nth by blast
  with one assms(2) show ?thesis
    using move_wake [OF one(2,3)] waiter_counted [OF one(2,3)]
    by (cases cv) (auto intro: own_condition_update)
qed (use assms(2) in auto)

lemma queue_inv_step:
  assumes inv: "queue_inv maxSize m" and step: "monitor_step (bbq_section maxSize) m m'"
  shows "queue_inv maxSize m'"
  using step
proof cases
  case (call i op)
  with inv own_condition_update [of "threads m" "Entering op" i] show ?thesis
    unfolding queue_inv_def by (auto simp: move_enter)
next
  case (spurious i cv op)
  have "own_condition (threads m)" using inv by (simp add: queue_inv_def)
  then have "own_condition ((threads m)[i := Entering op])" "cv = notEmpty \<longleftrightarrow> op = Take"
    using spurious(2,3) by (auto intro: own_condition_update dest: own_condition_nth)
  with inv spurious move_wake [OF spurious(2,3)] show ?thesis
    unfolding queue_inv_def by (cases cv) auto
next
  case (wait i op cv)
  have "(cv = notEmpty \<longleftrightarrow> op = Take) \<and> (op = Take \<longrightarrow> shared m = []) \<and>
      (op \<noteq> Take \<longrightarrow> length (shared m) = maxSize)"
    using wait(4) by (cases op) (auto split: list.splits if_splits)
  moreover from this inv have "own_condition ((threads m)[i := Waiting cv op])"
    unfolding queue_inv_def by (intro own_condition_update) auto
  ultimately show ?thesis
    using inv wait(1) move_wait [OF wait(2,3), where cv = cv] unfolding queue_inv_def by (cases "op = Take") auto
next
  case (leave i op s sig r ts)
  let ?ts = "(threads m)[i := Outside]"
  have own: "own_condition ?ts" using inv unfolding queue_inv_def by (intro own_condition_update) auto
  show ?thesis
  proof (cases op)
    case (Put x)
    with leave(4) have s: "s = shared m @ [x]" "sig = Notify notEmpty" "r = None" "length (shared m) \<noteq> maxSize"
      by (auto split: if_splits)
    note woken = woken_queue [OF leave(5) [unfolded s(2)] own]
    show ?thesis using inv woken move_leave [OF leave(2,3)] s Put leave(1)
      unfolding queue_inv_def by (auto 4 0)
  next
    case Take
    with leave(4) obtain x where s: "shared m = x # s" "sig = Notify notFull" "r = Some x"
      by (auto split: list.splits)
    note woken = woken_queue [OF leave(5) [unfolded s(2)] own]
    show ?thesis using inv woken move_leave [OF leave(2,3)] s Take leave(1)
      unfolding queue_inv_def by (auto 4 0)
  qed
qed

lemma queue_inv_reachable: "reachable (bbq_section maxSize) n [] m \<Longrightarrow> queue_inv maxSize m"
proof (induction rule: reachable_induct)
  case new
  then show ?case by (simp add: queue_inv_def own_condition_def) (simp add: new_monitor_def)
next
  case (step m m')
  then show ?case by (rule queue_inv_step)
qed

lemma enterer_exists:
  assumes "enterers p ts \<noteq> 0"
  shows "\<exists>j op. j < length ts \<and> ts ! j = Entering op \<and> p op"
proof -
  from assms obtain t where "t \<in> set ts" "\<exists>op. t = Entering op \<and> p op"
    unfolding enterers_def by (auto simp: filter_empty_conv)
  then show ?thesis by (metis in_set_conv_nth)
qed

text \<open>\<open>BlockingQueue\<close>: the same invariant, without a bound.\<close>

lemma bq_inv_step:
  assumes inv: "queue_inv (length (shared m)) m \<and> waiters notFull (threads m) = 0"
    and step: "monitor_step bq_section m m'"
  shows "queue_inv (length (shared m')) m' \<and> waiters notFull (threads m') = 0"
  using step
proof cases
  case (call i op)
  with inv own_condition_update [of "threads m" "Entering op" i] show ?thesis
    unfolding queue_inv_def by (auto simp: move_enter)
next
  case (spurious i cv op)
  have "own_condition (threads m)" using inv by (simp add: queue_inv_def)
  then have "own_condition ((threads m)[i := Entering op])" "cv = notEmpty \<longleftrightarrow> op = Take"
    using spurious(2,3) by (auto intro: own_condition_update dest: own_condition_nth)
  with inv spurious move_wake [OF spurious(2,3)] show ?thesis
    unfolding queue_inv_def by (cases cv) auto
next
  case (wait i op cv)
  have "cv = notEmpty \<and> op = Take \<and> shared m = []"
    using wait(4) by (cases op) (auto split: list.splits)
  moreover from this inv have "own_condition ((threads m)[i := Waiting cv op])"
    unfolding queue_inv_def by (intro own_condition_update) auto
  ultimately show ?thesis
    using inv wait(1) move_wait [OF wait(2,3), where cv = cv] unfolding queue_inv_def by auto
next
  case (leave i op s sig r ts)
  let ?ts = "(threads m)[i := Outside]"
  have own: "own_condition ?ts" using inv unfolding queue_inv_def by (intro own_condition_update) auto
  show ?thesis
  proof (cases op)
    case (Put x)
    with leave(4) have s: "s = shared m @ [x]" "sig = Notify notEmpty" "r = None" by auto
    note woken = woken_queue [OF leave(5) [unfolded s(2)] own]
    show ?thesis using inv woken move_leave [OF leave(2,3)] s Put leave(1)
      unfolding queue_inv_def by (auto 4 0)
  next
    case Take
    with leave(4) obtain x where s: "shared m = x # s" "sig = No_signal" "r = Some x"
      by (auto split: list.splits)
    then have "ts = ?ts" using leave(5) by (auto elim: woken.cases)
    then show ?thesis using inv own move_leave [OF leave(2,3)] s Take leave(1)
      unfolding queue_inv_def by auto
  qed
qed

lemma bq_inv_reachable:
  "reachable bq_section n [] m \<Longrightarrow> queue_inv (length (shared m)) m \<and> waiters notFull (threads m) = 0"
proof (induction rule: reachable_induct)
  case new
  then show ?case by (simp add: queue_inv_def own_condition_def) (simp add: new_monitor_def)
next
  case (step m m')
  then show ?case by (rule bq_inv_step)
qed

text \<open>A call can proceed when its section does not wait; no call is stuck if nobody sleeps for nothing.\<close>

definition proceeds where
  "proceeds critical op s \<longleftrightarrow> (case critical op s of Wait cv \<Rightarrow> False | Leave _ _ _ \<Rightarrow> True)"

definition nobody_stuck where
  "nobody_stuck critical m \<longleftrightarrow> (\<forall>t\<in>set (threads m). \<forall>cv op. t = Waiting cv op \<and> proceeds critical op (shared m) \<longrightarrow>
     (\<exists>t'\<in>set (threads m). \<exists>op'. t' = Entering op' \<and> proceeds critical op' (shared m)))"

lemma queue_not_stuck:
  assumes "queue_inv maxSize m"
  shows "nobody_stuck (bbq_section maxSize) m"
  unfolding nobody_stuck_def
proof (intro ballI allI impI)
  fix t cv op
  assume t: "t \<in> set (threads m)" "t = Waiting cv op \<and> proceeds (bbq_section maxSize) op (shared m)"
  then obtain i where i: "i < length (threads m)" "threads m ! i = Waiting cv op" by (metis in_set_conv_nth)
  have "own_condition (threads m)" using assms by (simp add: queue_inv_def)
  note w = waiter_counted [OF i] own_condition_nth [OF this i]
  have "\<exists>j op'. j < length (threads m) \<and> threads m ! j = Entering op' \<and> (op' = Take \<longleftrightarrow> op = Take)"
  proof (cases "op = Take")
    case True
    with t w have "0 < length (shared m)" by (auto simp: proceeds_def)
    moreover have "length (shared m) \<le> takers (threads m)" using w True assms by (auto simp: queue_inv_def)
    ultimately have "takers (threads m) \<noteq> 0" by linarith
    from enterer_exists [OF this] True show ?thesis by blast
  next
    case False
    with t(2) have "length (shared m) \<noteq> maxSize" by (cases op) (auto simp: proceeds_def)
    moreover have "cv = notFull" using w(2) False by (cases cv) auto
    ultimately have "putters (threads m) \<noteq> 0" using w(1) assms by (auto simp: queue_inv_def)
    from enterer_exists [OF this] False show ?thesis by blast
  qed
  then obtain j op' where j: "j < length (threads m)" "threads m ! j = Entering op'" "op' = Take \<longleftrightarrow> op = Take" by blast
  then have "proceeds (bbq_section maxSize) op' (shared m)"
    using t(2) by (cases op; cases op') (auto simp: proceeds_def split: if_splits)
  with j show "\<exists>t'\<in>set (threads m). \<exists>op'. t' = Entering op' \<and> proceeds (bbq_section maxSize) op' (shared m)"
    by (metis nth_mem)
qed

section \<open>\<open>CountDownLatch\<close>\<close>

datatype latch_op = LatchWait | CountDown | GetCount

fun latch_section :: "latch_op \<Rightarrow> int \<Rightarrow> (unit, int, int) outcome" where
  "latch_section LatchWait count = (if count > 0 then Wait () else Leave count No_signal 0)"
| "latch_section CountDown count =
     (let count = count - 1 in Leave count (if count = 0 then NotifyAll () else No_signal) 0)"
| "latch_section GetCount count = Leave count No_signal count"

lemma woken_all: "waiters cv (map (wake_one cv) ts) = 0"
  by (auto simp: waiters_def filter_empty_conv wake_one_def split: thread.splits if_splits)

lemma woken_NotifyAll: "woken (NotifyAll cv) ts ts' \<Longrightarrow> waiters cv ts' = 0"
  by (cases rule: woken.cases) (auto simp: woken_all)

lemma waiters_zero_update:
  "waiters cv ts = 0 \<Longrightarrow> (\<And>op. t \<noteq> Waiting cv op) \<Longrightarrow> waiters cv (ts[i := t]) = 0"
  using set_update_subset_insert [of ts i t] by (auto simp: waiters_def filter_empty_conv)

lemma woken_zero: "woken sig ts ts' \<Longrightarrow> waiters cv ts = 0 \<Longrightarrow> waiters cv ts' = 0"
proof (induction rule: woken.induct)
  case (all cv' ts)
  then show ?case by (auto simp: waiters_def filter_empty_conv wake_one_def split: thread.splits if_splits)
qed (auto intro: waiters_zero_update)

text \<open>
  Nobody sleeps at an open latch. As \<open>countDown\<close> notifies only when the count reaches zero, this needs
  that a count once below or at zero never comes back.
\<close>

lemma latch_open:
  "reachable latch_section n c m \<Longrightarrow> shared m \<le> 0 \<Longrightarrow> waiters () (threads m) = 0"
proof (induction rule: reachable_induct)
  case new
  then show ?case by simp
next
  case (step m m')
  from step(2) show ?case
  proof cases
    case (leave i op s sig r ts)
    show ?thesis
    proof (cases "shared m \<le> 0")
      case True
      with step(1) have "waiters () ((threads m)[i := Outside]) = 0" by (auto intro: waiters_zero_update)
      with woken_zero leave(1,5) show ?thesis by fastforce
    next
      case False
      then have "s \<le> 0 \<longrightarrow> sig = NotifyAll ()" using leave(4) by (cases op) (auto simp: Let_def split: if_splits)
      with leave(1,5) step(3) show ?thesis by (auto intro: woken_NotifyAll)
    qed
  next
    case (wait i op cv)
    then have "0 < shared m" by (cases op) (auto split: if_splits)
    with step(3) wait(1) show ?thesis by simp
  qed (use step(1,3) in \<open>auto intro: waiters_zero_update\<close>)
qed

section \<open>Properties\<close>

text \<open>
  \<open>BoundedBlockingQueue\<close> is a bounded first-in-first-out channel for any number of threads in any
  interleaving, spurious wake-ups included: what was taken is a prefix of what was put, never more than
  \<open>maxSize\<close> elements are in between, and no wake-up is lost: while a thread sleeps although its \<open>put\<close> or
  \<open>take\<close> could proceed, another thread is awake whose call can proceed.
\<close>

theorem bounded_queue_correct:
  assumes "reachable (bbq_section maxSize) n [] m"
  shows "puts (history m) = takes (history m) @ shared m \<and> length (shared m) \<le> maxSize \<and>
    nobody_stuck (bbq_section maxSize) m"
  using queue_inv_reachable [OF assms] queue_not_stuck by (auto simp: queue_inv_def)

theorem bounded_queue_correct_witness:
  "\<exists>m. reachable (bbq_section 1) 2 [] m \<and> shared m = [CHR ''a''] \<and> history m = [(Put (CHR ''a''), None)] \<and>
    nobody_stuck (bbq_section 1) m"
proof -
  let ?m0 = "new_monitor 2 [] :: (char queue_op, queue_cv, string, char option) monitor"
  let ?m1 = "?m0\<lparr>threads := [Entering (Put (CHR ''a'')), Outside]\<rparr>"
  let ?m2 = "?m1\<lparr>shared := [CHR ''a''], threads := [Outside, Outside], history := [(Put (CHR ''a''), None)]\<rparr>"
  have "monitor_step (bbq_section 1) ?m0 ?m1"
    using monitor_step.call [of 0 ?m0 "bbq_section 1" "Put (CHR ''a'')"]
    by (simp add: new_monitor_def numeral_2_eq_2)
  moreover have "woken (Notify notEmpty) [Outside, Outside :: (char queue_op, queue_cv) thread] [Outside, Outside]"
    by (rule no_waiter) (simp add: waiters_def)
  then have "monitor_step (bbq_section 1) ?m1 ?m2"
    using monitor_step.leave [of 0 ?m1 "Put (CHR ''a'')" "bbq_section 1" "''a''" "Notify notEmpty" None
        "[Outside, Outside]"]
    by (simp add: new_monitor_def)
  ultimately have "reachable (bbq_section 1) 2 [] ?m2"
    unfolding reachable_def by (meson converse_rtranclp_into_rtranclp rtranclp.rtrancl_refl)
  with bounded_queue_correct [OF this] show ?thesis by (intro exI [of _ ?m2]) simp
qed

end
