(* ===== verification/EventLoopThread.thy ===== *)
theory EventLoopThread
  imports Monitor
begin

text \<open>
  \<open>muduo/net/EventLoopThread.cc\<close> and \<open>EventLoopThreadPool.cc\<close>: threads that each run an event loop, and
  the round-robin choice among them. Loops are named by numbers. The rendezvous of \<open>startLoop\<close> and
  \<open>threadFunc\<close> is a pair of monitor sections; what the pool sees of it is the loop that \<open>startLoop\<close> returns.
\<close>

section \<open>\<open>startLoop\<close> and \<open>threadFunc\<close>\<close>

text \<open>
  The caller waits until \<open>loop_\<close> is set, the new thread sets it after the initial callback has run on the
  loop it has constructed.
\<close>

datatype rendezvous = AwaitLoop | PublishLoop nat

fun rendezvous_section :: "rendezvous \<Rightarrow> nat option \<Rightarrow> (unit, nat option, nat option) outcome" where
  "rendezvous_section AwaitLoop loop = (if loop = None then Wait () else Leave loop No_signal loop)"
| "rendezvous_section (PublishLoop l) loop = Leave (Some l) (Notify ()) None"

text \<open>Thread 0 is the caller of \<open>startLoop\<close>, thread 1 the thread of the loop \<open>l\<close>.\<close>

definition rendezvous_roles :: "nat \<Rightarrow> (rendezvous, unit) thread list \<Rightarrow> bool" where
  "rendezvous_roles l ts \<longleftrightarrow> length ts = 2 \<and>
     (\<forall>op. ts ! 0 = Entering op \<longrightarrow> op = AwaitLoop) \<and> (\<forall>op. ts ! 1 = Entering op \<longrightarrow> op = PublishLoop l)"

inductive startLoop_reachable :: "nat \<Rightarrow> (rendezvous, unit, nat option, nat option) monitor \<Rightarrow> bool" for l where
  new: "startLoop_reachable l (new_monitor 2 None)"
| step: "startLoop_reachable l m \<Longrightarrow> monitor_step rendezvous_section m m' \<Longrightarrow>
    rendezvous_roles l (threads m') \<Longrightarrow> startLoop_reachable l m'"

definition rendezvous_inv :: "nat \<Rightarrow> (rendezvous, unit, nat option, nat option) monitor \<Rightarrow> bool" where
  "rendezvous_inv l m \<longleftrightarrow> rendezvous_roles l (threads m) \<and> shared m \<in> {None, Some l} \<and>
     (\<forall>cv op. threads m ! 1 \<noteq> Waiting cv op) \<and>
     (shared m = Some l \<longrightarrow> (\<forall>cv op. threads m ! 0 \<noteq> Waiting cv op)) \<and>
     (\<forall>r. (AwaitLoop, r) \<in> set (history m) \<longrightarrow> r = Some l)"

lemma two_threads: "i < (2 :: nat) \<Longrightarrow> i = 0 \<or> i = 1"
  by auto

lemma rendezvous_step:
  assumes inv: "rendezvous_inv l m" and step: "monitor_step rendezvous_section m m'"
    and roles: "rendezvous_roles l (threads m')"
  shows "rendezvous_inv l m'"
proof -
  have len: "length (threads m) = 2" using inv by (simp add: rendezvous_inv_def rendezvous_roles_def)
  from step show ?thesis
  proof cases
    case (call i op)
    with inv roles len two_threads [of i] show ?thesis
      by (auto simp: rendezvous_inv_def nth_list_update)
  next
    case (wait i op cv)
    then have "op = AwaitLoop" "shared m = None" by (cases op; auto split: if_splits)+
    moreover from this inv wait(2,3) len two_threads [of i] have "i = 0"
      by (auto simp: rendezvous_inv_def rendezvous_roles_def)
    ultimately show ?thesis
      using wait(1) inv roles len by (auto simp: rendezvous_inv_def)
  next
    case (spurious i cv op)
    with inv roles len two_threads [of i] show ?thesis
      by (auto simp: rendezvous_inv_def nth_list_update)
  next
    case (leave i op s sig r ts)
    show ?thesis
    proof (cases op)
      case AwaitLoop
      with leave have "s = shared m" "s \<noteq> None" "sig = No_signal" "r = s"
        by (auto split: if_splits)
      moreover from this leave(5) have "ts = (threads m)[i := Outside]" by (auto elim: woken.cases)
      ultimately show ?thesis
        using leave(1,2) AwaitLoop inv roles len two_threads [of i]
        by (auto simp: rendezvous_inv_def nth_list_update)
    next
      case (PublishLoop l')
      with leave(2,3) inv len two_threads [of i] have i: "i = 1" "l' = l"
        by (auto simp: rendezvous_inv_def rendezvous_roles_def)
      have s: "s = Some l" "sig = Notify ()" using leave(4) PublishLoop i by auto
      from leave(5) [unfolded s(2) i(1)] have "\<forall>cv op. ts ! 0 \<noteq> Waiting cv op \<and> ts ! 1 \<noteq> Waiting cv op"
      proof (cases rule: woken.cases)
        case no_waiter
        have no: "t \<noteq> Waiting () op" if "t \<in> set ts" for t op
          using no_waiter that by (auto simp: waiters_def filter_empty_conv)
        have "ts ! 0 \<in> set ts" "ts ! 1 \<in> set ts" using no_waiter len by (auto intro!: nth_mem simp del: nth_list_update_eq nth_list_update_neq)
        with no show "\<forall>cv op. ts ! 0 \<noteq> Waiting cv op \<and> ts ! 1 \<noteq> Waiting cv op" by auto
      next
        case (one j op)
        with len two_threads [of j] have "j = 0" by auto
        with one len show "\<forall>cv op. ts ! 0 \<noteq> Waiting cv op \<and> ts ! 1 \<noteq> Waiting cv op" by auto
      qed
      then show ?thesis
        using leave(1) s PublishLoop inv roles by (auto simp: rendezvous_inv_def)
    qed
  qed
qed

text \<open>
  \<open>startLoop\<close> returns the loop of the new thread and no other value, and once the loop is published its
  caller does not sleep: a wake-up that comes before the wait is not lost.
\<close>

lemma startLoop_returns:
  assumes "startLoop_reachable l m"
  shows "(\<forall>r. (AwaitLoop, r) \<in> set (history m) \<longrightarrow> r = Some l) \<and>
    (shared m \<noteq> None \<longrightarrow> (\<forall>cv op. threads m ! 0 \<noteq> Waiting cv op))"
proof -
  from assms have "rendezvous_inv l m"
  proof induction
    case new
    show ?case by (simp add: rendezvous_inv_def rendezvous_roles_def new_monitor_def numeral_2_eq_2 nth_Cons')
  next
    case (step m m')
    then show ?case by (blast intro: rendezvous_step)
  qed
  then show ?thesis by (auto simp: rendezvous_inv_def)
qed

section \<open>The pool\<close>

record EventLoopThreadPool =
  lp_baseLoop :: nat
  lp_started :: bool
  lp_numThreads :: int
  lp_next :: int
  lp_loops :: "nat list"
  lp_inits :: "nat list" \<comment> \<open>the loops the initial callback has run on\<close>

definition new_EventLoopThreadPool :: "nat \<Rightarrow> EventLoopThreadPool" where
  "new_EventLoopThreadPool baseLoop = \<lparr>lp_baseLoop = baseLoop, lp_started = False, lp_numThreads = 0,
     lp_next = 0, lp_loops = [], lp_inits = []\<rparr>"

definition pool_setThreadNum :: "int \<Rightarrow> 'z EventLoopThreadPool_scheme \<Rightarrow> 'z EventLoopThreadPool_scheme" where
  "pool_setThreadNum numThreads p = p\<lparr>lp_numThreads := numThreads\<rparr>"

definition base_assertInLoop :: "nat \<Rightarrow> 'z EventLoopThreadPool_scheme \<Rightarrow> unit result" where
  \<comment> \<open>\<open>assertInLoopThread\<close> of the base loop, in the thread of the loop \<open>tid\<close>.\<close>
  "base_assertInLoop tid p =
     (if tid = lp_baseLoop p then Inr () else Inl (Fatal ''EventLoop::abortNotInLoopThread''))"

text \<open>\<open>new_loop i\<close> is what the \<open>i\<close>-th \<open>startLoop\<close> returns; its thread runs the initial callback first.\<close>

definition pool_start ::
  "nat \<Rightarrow> bool \<Rightarrow> (nat \<Rightarrow> nat) \<Rightarrow> 'z EventLoopThreadPool_scheme \<Rightarrow> 'z EventLoopThreadPool_scheme result" where
  "pool_start tid cb new_loop p =
     rbind (guard (\<not> lp_started p) ''!started_'') (\<lambda>_.
     rbind (base_assertInLoop tid p) (\<lambda>_.
     let p = p\<lparr>lp_started := True\<rparr>;
         p = fold (\<lambda>i p. p\<lparr>lp_loops := lp_loops p @ [new_loop i],
               lp_inits := lp_inits p @ (if cb then [new_loop i] else [])\<rparr>) [0..<nat (lp_numThreads p)] p
     in Inr (if lp_numThreads p = 0 \<and> cb then p\<lparr>lp_inits := lp_inits p @ [lp_baseLoop p]\<rparr> else p)))"

definition getNextLoop ::
  "nat \<Rightarrow> 'z EventLoopThreadPool_scheme \<Rightarrow> (nat \<times> 'z EventLoopThreadPool_scheme) result" where
  "getNextLoop tid p =
     rbind (base_assertInLoop tid p) (\<lambda>_.
     if lp_loops p \<noteq> [] then
       rbind (if 0 \<le> lp_next p \<and> lp_next p < int (length (lp_loops p)) then Inr ()
              else Inl (Undefined ''index past the vector'')) (\<lambda>_.
       let loop = lp_loops p ! nat (lp_next p);
           p = p\<lparr>lp_next := lp_next p + 1\<rparr>
       in Inr (loop, if lp_next p \<ge> int (length (lp_loops p)) then p\<lparr>lp_next := 0\<rparr> else p))
     else Inr (lp_baseLoop p, p))"

section \<open>Round robin\<close>

definition pool_ok :: "'z EventLoopThreadPool_scheme \<Rightarrow> bool" where
  "pool_ok p \<longleftrightarrow> 0 \<le> lp_next p \<and> (lp_loops p \<noteq> [] \<longrightarrow> lp_next p < int (length (lp_loops p))) \<and>
     (lp_loops p = [] \<longrightarrow> lp_next p = 0) \<and> (\<not> lp_started p \<longrightarrow> lp_loops p = [])"

definition pool_loops :: "'z EventLoopThreadPool_scheme \<Rightarrow> nat set" where
  "pool_loops p = insert (lp_baseLoop p) (set (lp_loops p))"

lemma pool_ok_new [simp]: "pool_ok (new_EventLoopThreadPool b)"
  by (simp add: pool_ok_def new_EventLoopThreadPool_def)

lemma start_fold:
  "fold (\<lambda>i p. p\<lparr>lp_loops := lp_loops p @ [f i], lp_inits := lp_inits p @ (if cb then [f i] else [])\<rparr>) xs p =
     p\<lparr>lp_loops := lp_loops p @ map f xs, lp_inits := lp_inits p @ (if cb then map f xs else [])\<rparr>"
  by (induction xs arbitrary: p) simp_all

lemma pool_start_eq:
  assumes "pool_ok p" and "\<not> lp_started p" and "tid = lp_baseLoop p"
  shows "pool_start tid cb new_loop p = Inr (p\<lparr>lp_started := True,
      lp_loops := map new_loop [0..<nat (lp_numThreads p)],
      lp_inits := lp_inits p @ (if cb then map new_loop [0..<nat (lp_numThreads p)] @
        (if lp_numThreads p = 0 then [lp_baseLoop p] else []) else [])\<rparr>)"
  using assms by (simp add: pool_start_def base_assertInLoop_def start_fold Let_def pool_ok_def)

lemma getNextLoop_ok:
  assumes "pool_ok p" and "tid = lp_baseLoop p"
  shows "\<exists>l n. getNextLoop tid p = Inr (l, p\<lparr>lp_next := n\<rparr>) \<and> l \<in> pool_loops p \<and> pool_ok (p\<lparr>lp_next := n\<rparr>) \<and>
     (lp_loops p = [] \<longrightarrow> l = lp_baseLoop p) \<and>
     (lp_loops p \<noteq> [] \<longrightarrow> l = lp_loops p ! nat (lp_next p) \<and> n = (lp_next p + 1) mod int (length (lp_loops p)))"
proof (cases "lp_loops p = []")
  case True
  with assms show ?thesis
    by (intro exI [of _ "lp_baseLoop p"] exI [of _ "lp_next p"])
      (simp add: getNextLoop_def base_assertInLoop_def pool_loops_def)
next
  case False
  let ?n = "(lp_next p + 1) mod int (length (lp_loops p))"
  have range: "0 \<le> lp_next p" "lp_next p < int (length (lp_loops p))" using assms(1) False by (auto simp: pool_ok_def)
  then have n: "(if lp_next p + 1 \<ge> int (length (lp_loops p)) then 0 else lp_next p + 1) = ?n"
    by (auto simp: antisym_conv)
  have "getNextLoop tid p = Inr (lp_loops p ! nat (lp_next p), p\<lparr>lp_next := ?n\<rparr>)"
    using range assms(2) False n
    by (auto simp: getNextLoop_def base_assertInLoop_def Let_def split: if_splits)
  moreover have "pool_ok (p\<lparr>lp_next := ?n\<rparr>)" using assms(1) False by (auto simp: pool_ok_def)
  ultimately show ?thesis using False range
    by (intro exI [of _ "lp_loops p ! nat (lp_next p)"] exI [of _ ?n])
      (auto simp: pool_loops_def nat_less_iff)
qed

fun next_loops :: "nat \<Rightarrow> nat \<Rightarrow> 'z EventLoopThreadPool_scheme \<Rightarrow> (nat list \<times> 'z EventLoopThreadPool_scheme) result" where
  "next_loops 0 tid p = Inr ([], p)"
| "next_loops (Suc k) tid p =
     rbind (getNextLoop tid p) (\<lambda>(l, p).
     rbind (next_loops k tid p) (\<lambda>(ls, p). Inr (l # ls, p)))"

lemma next_loops_eq:
  assumes "pool_ok p" and "tid = lp_baseLoop p" and "lp_loops p \<noteq> []"
  shows "\<exists>p'. next_loops k tid p =
    Inr (map (\<lambda>i. lp_loops p ! (nat (lp_next p + int i) mod length (lp_loops p))) [0..<k], p')"
  using assms
proof (induction k arbitrary: p)
  case (Suc k)
  let ?n = "(lp_next p + 1) mod int (length (lp_loops p))"
  let ?m = "length (lp_loops p)"
  have g: "getNextLoop tid p = Inr (lp_loops p ! nat (lp_next p), p\<lparr>lp_next := ?n\<rparr>)"
    "pool_ok (p\<lparr>lp_next := ?n\<rparr>)"
    using getNextLoop_ok [OF Suc.prems(1,2)] Suc.prems(3) by auto
  have range: "0 \<le> lp_next p" "lp_next p < int ?m" using Suc.prems by (auto simp: pool_ok_def)
  have "nat (?n + int i) mod ?m = nat (lp_next p + int (Suc i)) mod ?m" for i
  proof -
    have "?n + int i = int (nat (?n + int i))" "lp_next p + int (Suc i) = int (nat (lp_next p + int (Suc i)))"
      using range by (simp_all add: Suc.prems)
    moreover have "(?n + int i) mod int ?m = (lp_next p + int (Suc i)) mod int ?m"
      unfolding mod_add_left_eq by (simp add: algebra_simps)
    ultimately show ?thesis by (metis of_nat_eq_iff zmod_int)
  qed
  with Suc.IH [OF g(2)] Suc.prems(2,3) obtain p' where
    "next_loops k tid (p\<lparr>lp_next := ?n\<rparr>) =
      Inr (map (\<lambda>i. lp_loops p ! (nat (lp_next p + int (Suc i)) mod ?m)) [0..<k], p')" by auto
  moreover have "nat (lp_next p) mod ?m = nat (lp_next p)" using range by (simp add: nat_less_iff)
  ultimately show ?case
    by (simp add: g(1) upt_conv_Cons map_Suc_upt [symmetric] comp_def del: upt_Suc)
qed simp

text \<open>
  After the pool has started in the thread of its base loop, \<open>k\<close> calls of \<open>getNextLoop\<close> give the loops of
  the threads in turn, starting over after the last one, and never index past the vector; with no thread,
  they all give the base loop.
\<close>

theorem pool_round_robin:
  assumes "0 \<le> n"
  shows "\<exists>p p'. pool_start b cb new_loop (pool_setThreadNum n (new_EventLoopThreadPool b)) = Inr p \<and>
    lp_inits p = (if cb then if n = 0 then [b] else map new_loop [0..<nat n] else []) \<and>
    next_loops k b p = Inr (map (\<lambda>i. if n = 0 then b else new_loop (i mod nat n)) [0..<k], p')"
proof -
  let ?p0 = "pool_setThreadNum n (new_EventLoopThreadPool b)"
  obtain p where p: "pool_start b cb new_loop ?p0 = Inr p" "lp_loops p = map new_loop [0..<nat n]"
    "lp_next p = 0" "lp_baseLoop p = b" "lp_started p"
    "lp_inits p = (if cb then if n = 0 then [b] else map new_loop [0..<nat n] else [])"
    using pool_start_eq [of ?p0 b cb new_loop]
    by (simp add: pool_setThreadNum_def new_EventLoopThreadPool_def pool_ok_def)
  have ok: "pool_ok p" using p by (simp add: pool_ok_def)
  show ?thesis
  proof (cases "n = 0")
    case True
    have "next_loops k b p = Inr (map (\<lambda>i. b) [0..<k], p)"
    proof (induction k)
      case (Suc k)
      have "getNextLoop b p = Inr (b, p)"
        using True p by (simp add: getNextLoop_def base_assertInLoop_def)
      with Suc show ?case by (simp add: map_replicate_const replicate_append_same del: replicate_Suc)
          (simp add: replicate_append_same [symmetric])
    qed simp
    with True p show ?thesis by (intro exI [of _ p]) auto
  next
    case False
    with assms have "lp_loops p \<noteq> []" by (simp add: p)
    from next_loops_eq [OF ok _ this, of b k] obtain p' where
      "next_loops k b p = Inr (map (\<lambda>i. map new_loop [0..<nat n] ! (i mod nat n)) [0..<k], p')"
      by (auto simp: p)
    moreover have "map new_loop [0..<nat n] ! (i mod nat n) = new_loop (i mod nat n)" for i
      using False assms by simp
    ultimately show ?thesis using False p by (intro exI [of _ p] exI [of _ p']) simp
  qed
qed

theorem pool_round_robin_witness:
  "\<exists>p p'. pool_start 7 True (\<lambda>i. 10 + i) (pool_setThreadNum 3 (new_EventLoopThreadPool 7)) = Inr p \<and>
    next_loops 5 7 p = Inr ([10, 11, 12, 10, 11], p')"
  using pool_round_robin [of 3 7 True "\<lambda>i. 10 + i" 5] by (auto simp: upt_rec)

end
