(* ===== verification/StringPiece.thy ===== *)
theory StringPiece
  imports Prelude "HOL-Library.List_Lexorder" "HOL-Library.Char_ord"
begin

text \<open>
  \<open>muduo/base/StringPiece.h\<close>: a view of bytes owned by somebody else. A pointer is an array and an
  offset into it, so that a read past the array is a value of \<open>error\<close>; the piece itself is the pair of
  the pointer and the \<open>int\<close> length. \<open>std::string\<close> is ordered as lists of bytes are by the library's
  lexicographic order, and the comparison operators are shown to agree with it. A read of no byte is
  allowed at any pointer, as every \<open>memcmp\<close> allows it.
\<close>

section \<open>Pointers\<close>

datatype char_ptr = Null | Ptr string nat

abbreviation (input) nul :: char where "nul \<equiv> CHR 0x00"

definition bytes_at :: "char_ptr \<Rightarrow> int \<Rightarrow> string result" where
  "bytes_at p n =
     (if n < 0 then Inl (Undefined ''negative length'') else
      if n = 0 then Inr [] else
      case p of
        Null \<Rightarrow> Inl (Undefined ''null pointer'')
      | Ptr arr off \<Rightarrow>
          if off + nat n \<le> length arr then Inr (take (nat n) (drop off arr))
          else Inl (Undefined ''read past the array''))"

definition strlen :: "char_ptr \<Rightarrow> nat result" where
  "strlen p =
     (case p of
        Null \<Rightarrow> Inl (Undefined ''null pointer'')
      | Ptr arr off \<Rightarrow>
          if nul \<in> set (drop off arr) then Inr (std_find nul (drop off arr))
          else Inl (Undefined ''read past the array''))"

definition memcmp :: "char_ptr \<Rightarrow> char_ptr \<Rightarrow> int \<Rightarrow> int result" where
  \<comment> \<open>The C library fixes the sign of the answer only.\<close>
  "memcmp p q n =
     rbind (bytes_at p n) (\<lambda>a.
     rbind (bytes_at q n) (\<lambda>b.
     Inr (if a < b then - 1 else if a = b then 0 else 1)))"

definition ptr_add :: "char_ptr \<Rightarrow> int \<Rightarrow> char_ptr result" where
  "ptr_add p n =
     (if n = 0 then Inr p else
      case p of
        Null \<Rightarrow> Inl (Undefined ''pointer arithmetic'')
      | Ptr arr off \<Rightarrow>
          if 0 \<le> int off + n \<and> int off + n \<le> int (length arr)
          then Inr (Ptr arr (nat (int off + n))) else Inl (Undefined ''pointer arithmetic''))"

definition static_cast_int :: "nat \<Rightarrow> int" where
  "static_cast_int n = sint (word_of_nat n :: 32 word)"

section \<open>The piece and its operations\<close>

record StringPiece =
  sp_ptr :: char_ptr
  sp_length :: int

definition sp_new :: StringPiece where
  "sp_new = \<lparr>sp_ptr = Null, sp_length = 0\<rparr>"

definition sp_cstr :: "char_ptr \<Rightarrow> StringPiece result" where
  "sp_cstr str = rbind (strlen str) (\<lambda>n. Inr \<lparr>sp_ptr = str, sp_length = static_cast_int n\<rparr>)"

definition c_str :: "string \<Rightarrow> char_ptr" where
  \<comment> \<open>The storage of a \<open>std::string\<close>, with its terminator.\<close>
  "c_str s = Ptr (s @ [nul]) 0"

definition sp_string :: "string \<Rightarrow> StringPiece" where
  "sp_string s = \<lparr>sp_ptr = c_str s, sp_length = static_cast_int (length s)\<rparr>"

definition sp_range :: "char_ptr \<Rightarrow> int \<Rightarrow> StringPiece" where
  "sp_range offs n = \<lparr>sp_ptr = offs, sp_length = n\<rparr>"

definition sp_data :: "StringPiece \<Rightarrow> char_ptr" where "sp_data p = sp_ptr p"

definition sp_size :: "StringPiece \<Rightarrow> int" where "sp_size p = sp_length p"

definition sp_empty :: "StringPiece \<Rightarrow> bool" where "sp_empty p \<longleftrightarrow> sp_length p = 0"

definition sp_set :: "char_ptr \<Rightarrow> int \<Rightarrow> StringPiece \<Rightarrow> StringPiece" where
  "sp_set buffer n p = p\<lparr>sp_ptr := buffer, sp_length := n\<rparr>"

definition sp_set_cstr :: "char_ptr \<Rightarrow> StringPiece \<Rightarrow> StringPiece result" where
  "sp_set_cstr str p =
     rbind (strlen str) (\<lambda>n. Inr (p\<lparr>sp_ptr := str, sp_length := static_cast_int n\<rparr>))"

definition sp_at :: "StringPiece \<Rightarrow> int \<Rightarrow> char result" where
  "sp_at p i = rbind (ptr_add (sp_ptr p) i) (\<lambda>q. rbind (bytes_at q 1) (\<lambda>cs. Inr (hd cs)))"

definition remove_prefix :: "int \<Rightarrow> StringPiece \<Rightarrow> StringPiece result" where
  "remove_prefix n p =
     rbind (ptr_add (sp_ptr p) n) (\<lambda>q. Inr (p\<lparr>sp_ptr := q, sp_length := sp_length p - n\<rparr>))"

definition remove_subfix :: "int \<Rightarrow> StringPiece \<Rightarrow> StringPiece" where
  "remove_subfix n p = p\<lparr>sp_length := sp_length p - n\<rparr>"

definition sp_eq :: "StringPiece \<Rightarrow> StringPiece \<Rightarrow> bool result" where
  "sp_eq p x =
     (if sp_length p = sp_length x
      then rbind (memcmp (sp_ptr p) (sp_ptr x) (sp_length p)) (\<lambda>r. Inr (r = 0))
      else Inr False)"

definition sp_ne :: "StringPiece \<Rightarrow> StringPiece \<Rightarrow> bool result" where
  "sp_ne p x = rbind (sp_eq p x) (\<lambda>b. Inr (\<not> b))"

text \<open>The macro \<open>STRINGPIECE_BINARY_PREDICATE\<close> and its four instances.\<close>

definition binary_predicate ::
  "(int \<Rightarrow> int \<Rightarrow> bool) \<Rightarrow> (int \<Rightarrow> int \<Rightarrow> bool) \<Rightarrow> StringPiece \<Rightarrow> StringPiece \<Rightarrow> bool result" where
  "binary_predicate cmp auxcmp p x =
     rbind (memcmp (sp_ptr p) (sp_ptr x)
       (if sp_length p < sp_length x then sp_length p else sp_length x)) (\<lambda>r.
     Inr (auxcmp r 0 \<or> r = 0 \<and> cmp (sp_length p) (sp_length x)))"

definition sp_less where "sp_less = binary_predicate (<) (<)"

definition sp_le where "sp_le = binary_predicate (\<le>) (<)"

definition sp_ge where "sp_ge = binary_predicate (\<ge>) (>)"

definition sp_greater where "sp_greater = binary_predicate (>) (>)"

definition sp_compare :: "StringPiece \<Rightarrow> StringPiece \<Rightarrow> int result" where
  "sp_compare p x =
     rbind (memcmp (sp_ptr p) (sp_ptr x)
       (if sp_length p < sp_length x then sp_length p else sp_length x)) (\<lambda>r.
     Inr (if r = 0 then
            if sp_length p > sp_length x then 1
            else if sp_length p < sp_length x then - 1 else r
          else r))"

definition as_string :: "StringPiece \<Rightarrow> string result" where
  "as_string p = bytes_at (sp_data p) (sp_size p)"

definition CopyToString :: "StringPiece \<Rightarrow> string result" where
  "CopyToString p = bytes_at (sp_ptr p) (sp_length p)"

definition starts_with :: "StringPiece \<Rightarrow> StringPiece \<Rightarrow> bool result" where
  "starts_with p x =
     (if sp_length p > sp_length x
      then rbind (memcmp (sp_ptr p) (sp_ptr x) (sp_length p)) (\<lambda>r. Inr (r = 0))
      else Inr False)"

section \<open>The views\<close>

lemma bytes_at_length: "bytes_at p n = Inr xs \<Longrightarrow> n = int (length xs)"
  by (auto simp: bytes_at_def split: if_splits char_ptr.splits)

lemma view_prefix:
  "bytes_at p n = Inr xs \<Longrightarrow> 0 \<le> m \<Longrightarrow> m \<le> n \<Longrightarrow> bytes_at p m = Inr (take (nat m) xs)"
  by (auto simp: bytes_at_def min_def split: if_splits char_ptr.splits)

lemma static_cast_int: "n < 2 ^ 31 \<Longrightarrow> static_cast_int n = int n"
  by (simp add: static_cast_int_def signed_of_nat signed_take_bit_int_eq_self)

lemma as_string_size: "as_string p = Inr xs \<Longrightarrow> sp_length p = int (length xs)"
  by (simp add: as_string_def sp_data_def sp_size_def bytes_at_length)

lemma as_string_sp_string [simp]: "length s < 2 ^ 31 \<Longrightarrow> as_string (sp_string s) = Inr s"
  by (simp add: as_string_def sp_data_def sp_size_def sp_string_def c_str_def static_cast_int
      bytes_at_def)

lemma as_string_take:
  assumes "as_string p = Inr xs" and "0 \<le> m" and "m \<le> int (length xs)"
  shows "bytes_at (sp_ptr p) m = Inr (take (nat m) xs)"
  using assms view_prefix [of "sp_ptr p" "sp_length p" xs m] as_string_size [of p xs]
  by (simp add: as_string_def sp_data_def sp_size_def)

text \<open>Removing a prefix or a suffix of a valid piece leaves the view of the rest.\<close>

lemma remove_prefix_drop:
  assumes "as_string p = Inr xs" and "n \<le> length xs"
  shows "\<exists>q. remove_prefix (int n) p = Inr q \<and> as_string q = Inr (drop n xs)"
proof (cases "n = 0")
  case True
  with assms show ?thesis
    by (simp add: remove_prefix_def ptr_add_def)
next
  case False
  note len = as_string_size [OF assms(1)]
  from False assms(2) have "xs \<noteq> []" by auto
  with assms(1) len obtain arr off where
    ptr: "sp_ptr p = Ptr arr off" "off + length xs \<le> length arr" "xs = take (length xs) (drop off arr)"
    by (auto simp: as_string_def sp_data_def sp_size_def bytes_at_def split: if_splits char_ptr.splits)
  let ?q = "p\<lparr>sp_ptr := Ptr arr (off + n), sp_length := int (length xs) - int n\<rparr>"
  have "remove_prefix (int n) p = Inr ?q"
    using False ptr len assms(2) by (simp add: remove_prefix_def ptr_add_def nat_add_distrib)
  moreover have "drop n xs = take (length xs - n) (drop (off + n) arr)"
    by (subst ptr(3)) (simp add: drop_take add.commute)
  then have "as_string ?q = Inr (drop n xs)"
    using ptr(2) assms(2)
    by (auto simp: as_string_def sp_data_def sp_size_def bytes_at_def nat_diff_distrib)
  ultimately show ?thesis by blast
qed

lemma remove_subfix_take:
  assumes "as_string p = Inr xs" and "n \<le> length xs"
  shows "as_string (remove_subfix (int n) p) = Inr (take (length xs - n) xs)"
  using as_string_take [OF assms(1), of "int (length xs - n)"] as_string_size [OF assms(1)] assms(2)
  by (simp add: as_string_def sp_data_def sp_size_def remove_subfix_def of_nat_diff [symmetric]
      del: of_nat_diff)

section \<open>Comparison\<close>

lemma less_prefix_iff:
  fixes xs ys :: string
  defines "k \<equiv> min (length xs) (length ys)"
  shows "xs < ys \<longleftrightarrow> take k xs < take k ys \<or> take k xs = take k ys \<and> length xs < length ys"
    and "xs = ys \<longleftrightarrow> take k xs = take k ys \<and> length xs = length ys"
proof -
  show "xs < ys \<longleftrightarrow> take k xs < take k ys \<or> take k xs = take k ys \<and> length xs < length ys"
    unfolding k_def
  proof (induction xs arbitrary: ys)
    case Nil
    then show ?case by (cases ys) simp_all
  next
    case (Cons x xs)
    then show ?case by (cases ys) auto
  qed
  show "xs = ys \<longleftrightarrow> take k xs = take k ys \<and> length xs = length ys"
    unfolding k_def by auto
qed

lemma memcmp_pieces:
  assumes "as_string p = Inr xs" and "as_string q = Inr ys"
  defines "k \<equiv> min (length xs) (length ys)"
  shows "memcmp (sp_ptr p) (sp_ptr q)
       (if sp_length p < sp_length q then sp_length p else sp_length q) =
     Inr (if take k xs < take k ys then - 1 else if take k xs = take k ys then 0 else 1)"
proof -
  have "(if sp_length p < sp_length q then sp_length p else sp_length q) = int k"
    using as_string_size [OF assms(1)] as_string_size [OF assms(2)] by (simp add: k_def min_def)
  moreover have "bytes_at (sp_ptr p) (int k) = Inr (take k xs)"
    using as_string_take [OF assms(1), of "int k"] by (simp add: k_def)
  moreover have "bytes_at (sp_ptr q) (int k) = Inr (take k ys)"
    using as_string_take [OF assms(2), of "int k"] by (simp add: k_def)
  ultimately show ?thesis by (simp add: memcmp_def)
qed

lemma prefix_cases:
  fixes xs ys :: string
  defines "k \<equiv> min (length xs) (length ys)"
  obtains (less) "take k xs < take k ys" and "xs < ys"
    | (same) "take k xs = take k ys" and "xs < ys \<longleftrightarrow> length xs < length ys"
        and "ys < xs \<longleftrightarrow> length ys < length xs" and "xs = ys \<longleftrightarrow> length xs = length ys"
    | (greater) "take k ys < take k xs" and "ys < xs"
proof -
  note iff = less_prefix_iff [of xs ys, folded k_def]
  have flip: "min (length ys) (length xs) = k" by (simp add: k_def min.commute)
  note iff' = less_prefix_iff [of ys xs, unfolded flip]
  consider "take k xs < take k ys" | "take k xs = take k ys" | "take k ys < take k xs"
    using linorder_cases by blast
  then show thesis
  proof cases
    case 1
    with iff(1) show thesis by (intro less) blast+
  next
    case 2
    with iff iff'(1) show thesis by (intro same) auto
  next
    case 3
    with iff'(1) show thesis by (intro greater) blast+
  qed
qed

lemma binary_predicate_eq:
  assumes "as_string p = Inr xs" and "as_string q = Inr ys"
  defines "k \<equiv> min (length xs) (length ys)"
  shows "binary_predicate cmp auxcmp p q =
     Inr (let r = if take k xs < take k ys then - 1 else if take k xs = take k ys then 0 else 1
          in auxcmp r 0 \<or> r = 0 \<and> cmp (int (length xs)) (int (length ys)))"
  unfolding binary_predicate_def memcmp_pieces [OF assms(1,2)] rbind_Inr k_def Let_def
  by (simp add: as_string_size [OF assms(1)] as_string_size [OF assms(2)])

lemma binary_predicate_pieces:
  assumes "as_string p = Inr xs" and "as_string q = Inr ys"
  shows "sp_less p q = Inr (xs < ys)" "sp_le p q = Inr (xs \<le> ys)"
    "sp_ge p q = Inr (xs \<ge> ys)" "sp_greater p q = Inr (xs > ys)"
  unfolding sp_less_def sp_le_def sp_ge_def sp_greater_def binary_predicate_eq [OF assms] Let_def
  by (rule prefix_cases [of xs ys]; auto simp: le_less)+

lemma sp_compare_pieces:
  assumes "as_string p = Inr xs" and "as_string q = Inr ys"
  shows "sp_compare p q = Inr (if xs < ys then - 1 else if xs = ys then 0 else 1)"
  unfolding sp_compare_def memcmp_pieces [OF assms] rbind_Inr
  unfolding as_string_size [OF assms(1)] as_string_size [OF assms(2)]
  by (rule prefix_cases [of xs ys]; auto)

lemma sp_eq_pieces:
  assumes "as_string p = Inr xs" and "as_string q = Inr ys"
  shows "sp_eq p q = Inr (xs = ys)" "sp_ne p q = Inr (xs \<noteq> ys)"
proof -
  show "sp_eq p q = Inr (xs = ys)"
  proof (cases "length xs = length ys")
    case True
    then have "memcmp (sp_ptr p) (sp_ptr q) (sp_length p) =
        Inr (if xs < ys then - 1 else if xs = ys then 0 else 1)"
      using memcmp_pieces [OF assms] as_string_size [OF assms(1)] as_string_size [OF assms(2)]
      by simp
    with True show ?thesis
      using as_string_size [OF assms(1)] as_string_size [OF assms(2)] by (simp add: sp_eq_def)
  next
    case False
    then show ?thesis
      using as_string_size [OF assms(1)] as_string_size [OF assms(2)] by (auto simp: sp_eq_def)
  qed
  then show "sp_ne p q = Inr (xs \<noteq> ys)" by (simp add: sp_ne_def)
qed

text \<open>
  The comparison operators of two valid pieces read no byte outside them and decide the
  lexicographic order of their contents as unsigned bytes; \<open>compare\<close> gives its sign.
\<close>

theorem comparison_lexicographic:
  assumes "as_string p = Inr xs" and "as_string q = Inr ys"
  shows "sp_compare p q = Inr (if xs < ys then - 1 else if xs = ys then 0 else 1) \<and>
    sp_eq p q = Inr (xs = ys) \<and> sp_ne p q = Inr (xs \<noteq> ys) \<and> sp_less p q = Inr (xs < ys) \<and>
    sp_le p q = Inr (xs \<le> ys) \<and> sp_ge p q = Inr (xs \<ge> ys) \<and> sp_greater p q = Inr (xs > ys)"
  using sp_compare_pieces [OF assms] sp_eq_pieces [OF assms] binary_predicate_pieces [OF assms]
  by simp

theorem comparison_lexicographic_witness:
  "sp_compare (sp_string ''abc'') (sp_range (Ptr ''xxabd'' 2) 2) = Inr 1 \<and>
   sp_less (sp_range (Ptr ''xxabd'' 2) 2) (sp_string ''abc'') = Inr True"
proof -
  have view: "as_string (sp_range (Ptr ''xxabd'' 2) 2) = Inr ''ab''"
    by (simp add: as_string_def sp_data_def sp_size_def sp_range_def bytes_at_def)
  have whole: "as_string (sp_string ''abc'') = Inr ''abc''" by simp
  show ?thesis
    using comparison_lexicographic [OF whole view] comparison_lexicographic [OF view whole]
    by (simp add: less_le_not_le)
qed

section \<open>Prefixes\<close>

text \<open>
  \<open>starts_with\<close> compares as many bytes as the longer piece has, so it reads past the shorter one:
  with a prefix that is a C string it never answers yes.
\<close>

lemma starts_with_cstr:
  assumes "as_string p = Inr xs" and "nul \<notin> set xs" and "length ys < length xs"
    and "length xs < 2 ^ 31"
  shows "starts_with p (sp_string ys) \<noteq> Inr True"
proof -
  have "sp_length (sp_string ys) = int (length ys)"
    using assms(3,4) by (simp add: sp_string_def static_cast_int)
  moreover have "bytes_at (sp_ptr p) (int (length xs)) = Inr xs"
    using as_string_take [OF assms(1), of "int (length xs)"] by simp
  moreover have "bytes_at (sp_ptr (sp_string ys)) (int (length xs)) \<noteq> Inr xs"
  proof
    assume "bytes_at (sp_ptr (sp_string ys)) (int (length xs)) = Inr xs"
    then have "xs = take (length xs) (ys @ [nul])"
      using assms(3) by (auto simp: sp_string_def c_str_def bytes_at_def split: if_splits)
    then have "nul \<in> set xs" using assms(3) by (metis append_eq_conv_conj in_set_conv_decomp
        length_append_singleton less_Suc_eq_le not_less take_all Suc_leI)
    with assms(2) show False ..
  qed
  ultimately show ?thesis
    using as_string_size [OF assms(1)] assms(3)
    by (auto simp: starts_with_def memcmp_def rbind_eq_Inr_conv split: if_splits)
qed

end
