(* ===== verification/InetAddress.thy ===== *)
theory InetAddress
  imports Endian StringPiece
begin

text \<open>
  \<open>muduo/net/SocketsOps.cc\<close>, \<open>InetAddress.h\<close>, \<open>InetAddress.cc\<close> and \<open>Socket.cc\<close>: IPv4 addresses and the
  wrappers of the socket calls. A \<open>sockaddr_in\<close> holds the port and the address as they lie in memory,
  in network order; \<open>inet_ntop\<close> and \<open>inet_pton\<close> are those of the C library for \<open>AF_INET\<close>. The answer of
  a system call (its return value, \<open>errno\<close>, the structure it fills in) is an argument of its wrapper.
\<close>

section \<open>Socket addresses\<close>

record sockaddr_in =
  sin_family :: nat
  sin_port :: "16 word"
  sin_addr :: "32 word"

definition AF_INET :: nat where "AF_INET = 2"

definition INADDR_ANY :: "32 word" where "INADDR_ANY = 0"

definition zero_sockaddr :: sockaddr_in where
  \<comment> \<open>What \<open>bzero\<close> leaves.\<close>
  "zero_sockaddr = \<lparr>sin_family = 0, sin_port = 0, sin_addr = 0\<rparr>"

section \<open>The C library\<close>

fun dotted :: "nat list \<Rightarrow> string" where
  "dotted [] = []"
| "dotted [n] = show_nat n"
| "dotted (n # ns) = show_nat n @ CHR ''.'' # dotted ns"

definition inet_ntop :: "bool \<Rightarrow> 32 word \<Rightarrow> string" where
  "inet_ntop le a = dotted (map of_char (store_bytes le 4 a))"

text \<open>The octets read so far, the last one first, and whether it already has a digit.\<close>

fun pton_loop :: "string \<Rightarrow> nat list \<Rightarrow> bool \<Rightarrow> nat list option" where
  "pton_loop [] octets saw_digit = (if length octets < 4 then None else Some (rev octets))"
| "pton_loop (c # cs) octets saw_digit =
     (if 48 \<le> (of_char c :: nat) \<and> of_char c \<le> (57 :: nat) then
        let d = of_char c - 48 in
        if saw_digit then
          let v = 10 * hd octets + d in
          if hd octets = 0 \<or> v > 255 then None else pton_loop cs (v # List.tl octets) True
        else if length octets = 4 then None else pton_loop cs (d # octets) True
      else if c = CHR ''.'' \<and> saw_digit then
        if length octets = 4 then None else pton_loop cs octets False
      else None)"

definition inet_pton :: "bool \<Rightarrow> string \<Rightarrow> 32 word \<Rightarrow> int \<times> 32 word" where
  "inet_pton le src dst =
     (case pton_loop src [] False of
        None \<Rightarrow> (0, dst)
      | Some octets \<Rightarrow> (1, load_bytes le (map char_of octets)))"

definition c_string :: "char_ptr \<Rightarrow> string result" where
  "c_string p = rbind (strlen p) (\<lambda>n. bytes_at p (int n))"

section \<open>Addresses as text\<close>

definition sockets_toIp :: "bool \<Rightarrow> nat \<Rightarrow> sockaddr_in \<Rightarrow> string result" where
  "sockets_toIp le bufsize addr =
     rbind (guard (bufsize \<ge> 16) ''size >= INET_ADDRSTRLEN'') (\<lambda>_.
     Inr (inet_ntop le (sin_addr addr)))"

definition sockets_toIpPort :: "bool \<Rightarrow> nat \<Rightarrow> sockaddr_in \<Rightarrow> string result" where
  "sockets_toIpPort le bufsize addr =
     rbind (sockets_toIp le 16 addr) (\<lambda>host.
     let port = networkToHost16 le (sin_port addr)
     in Inr (snprintf bufsize (host @ '':'' @ show_nat (unat port))))"

text \<open>The flag tells whether the error was logged.\<close>

definition sockets_fromIpPort ::
  "bool \<Rightarrow> char_ptr \<Rightarrow> 16 word \<Rightarrow> sockaddr_in \<Rightarrow> (bool \<times> sockaddr_in) result" where
  "sockets_fromIpPort le ip port addr =
     rbind (c_string ip) (\<lambda>src.
     let addr = addr\<lparr>sin_family := AF_INET, sin_port := hostToNetwork16 le port\<rparr>
     in case inet_pton le src (sin_addr addr) of
          (ret, a) \<Rightarrow> Inr (ret < 0, addr\<lparr>sin_addr := a\<rparr>))"

definition InetAddress_port :: "bool \<Rightarrow> 16 word \<Rightarrow> sockaddr_in" where
  "InetAddress_port le port =
     zero_sockaddr\<lparr>sin_family := AF_INET, sin_addr := hostToNetwork32 le INADDR_ANY,
       sin_port := hostToNetwork16 le port\<rparr>"

definition InetAddress_ip :: "bool \<Rightarrow> StringPiece \<Rightarrow> 16 word \<Rightarrow> sockaddr_in result" where
  "InetAddress_ip le ip port =
     rbind (sockets_fromIpPort le (sp_data ip) port zero_sockaddr) (\<lambda>(logged, addr). Inr addr)"

definition InetAddress_toIpPort :: "bool \<Rightarrow> sockaddr_in \<Rightarrow> string result" where
  "InetAddress_toIpPort le addr = sockets_toIpPort le 32 addr"

definition InetAddress_toIp :: "bool \<Rightarrow> sockaddr_in \<Rightarrow> string result" where
  "InetAddress_toIp le addr = sockets_toIp le 32 addr"

definition ipNetEndian :: "sockaddr_in \<Rightarrow> 32 word" where "ipNetEndian a = sin_addr a"

definition portNetEndian :: "sockaddr_in \<Rightarrow> 16 word" where "portNetEndian a = sin_port a"

section \<open>The socket calls\<close>

definition createNonblockingOrDie :: "int \<Rightarrow> int result" where
  "createNonblockingOrDie sockfd =
     (if sockfd < 0 then Inl (Fatal ''sockets::createNonBlockingOrDie'') else Inr sockfd)"

definition bindOrDie :: "int \<Rightarrow> unit result" where
  "bindOrDie ret = (if ret < 0 then Inl (Fatal ''sockets::bindOrDie'') else Inr ())"

definition listenOrDie :: "int \<Rightarrow> unit result" where
  "listenOrDie ret = (if ret < 0 then Inl (Fatal ''sockets::listenOrDie'') else Inr ())"

text \<open>
  The errors \<open>accept\<close> passes on, with their numbers on Linux: \<open>EAGAIN\<close>, \<open>ECONNABORTED\<close>, \<open>EINTR\<close>,
  \<open>EPROTO\<close>, \<open>EPERM\<close>, \<open>EMFILE\<close>. Every other one is fatal.
\<close>

definition EMFILE :: nat where "EMFILE = 24"

definition accept_errnos :: "nat list" where "accept_errnos = [11, 103, 4, 71, 1, EMFILE]"

definition sockets_accept :: "int \<Rightarrow> nat \<Rightarrow> (int \<times> nat) result" where
  "sockets_accept connfd errno =
     (if connfd < 0 \<and> errno \<notin> set accept_errnos then Inl (Fatal ''error of ::accept'')
      else Inr (connfd, errno))"

definition getSocketError :: "int \<Rightarrow> nat \<Rightarrow> nat \<Rightarrow> nat" where
  "getSocketError ret optval errno = (if ret < 0 then errno else optval)"

definition getLocalAddr :: "int \<Rightarrow> sockaddr_in \<Rightarrow> sockaddr_in" where
  "getLocalAddr ret name = (if ret < 0 then zero_sockaddr else name)"

definition getPeerAddr :: "int \<Rightarrow> sockaddr_in \<Rightarrow> sockaddr_in" where
  "getPeerAddr ret name = (if ret < 0 then zero_sockaddr else name)"

definition isSelfConnect :: "sockaddr_in \<Rightarrow> sockaddr_in \<Rightarrow> bool" where
  "isSelfConnect localaddr peeraddr \<longleftrightarrow>
     sin_port localaddr = sin_port peeraddr \<and> sin_addr localaddr = sin_addr peeraddr"

definition Socket_bindAddress :: "int \<Rightarrow> unit result" where
  "Socket_bindAddress ret = bindOrDie ret"

definition Socket_listen :: "int \<Rightarrow> unit result" where
  "Socket_listen ret = listenOrDie ret"

text \<open>\<open>accept\<close> with the address the kernel filled in; \<open>peeraddr\<close> is set for a positive descriptor only.\<close>

definition Socket_accept ::
  "int \<Rightarrow> nat \<Rightarrow> sockaddr_in \<Rightarrow> sockaddr_in \<Rightarrow> (int \<times> nat \<times> sockaddr_in) result" where
  "Socket_accept connfd errno addr peeraddr =
     rbind (sockets_accept connfd errno) (\<lambda>(connfd, errno).
     Inr (connfd, errno, if connfd > 0 then addr else peeraddr))"

section \<open>Reading and printing\<close>

lemma digit_char_code [simp]: "d < 10 \<Longrightarrow> of_char (digit_char d) = 48 + d"
  by (rule of_char_digit_char)

lemma digit_of_char:
  assumes "48 \<le> (of_char c :: nat)" and "of_char c \<le> (57 :: nat)"
  shows "digit_char (of_char c - 48) = c"
proof -
  have "digit_char (of_char c - 48) = char_of (of_char c :: nat)" using assms by (simp add: digit_char_def)
  then show ?thesis by simp
qed

lemma show_nat_snoc: "v \<noteq> 0 \<Longrightarrow> d < 10 \<Longrightarrow> show_nat (10 * v + d) = show_nat v @ [digit_char d]"
  by (subst show_nat.simps) simp

lemma show_nat_digit: "d < 10 \<Longrightarrow> show_nat d = [digit_char d]"
  by (subst show_nat.simps) simp

lemma dotted_Cons: "ns \<noteq> [] \<Longrightarrow> dotted (n # ns) = show_nat n @ CHR ''.'' # dotted ns"
  by (cases ns) simp_all

lemma pton_loop_sound:
  "pton_loop cs octets saw_digit = Some r \<Longrightarrow>
     (\<not> saw_digit \<longrightarrow> length octets < 4 \<longrightarrow>
       (\<exists>ns. r = rev octets @ ns \<and> ns \<noteq> [] \<and> length r = 4 \<and> (\<forall>n\<in>set ns. n < 256) \<and> cs = dotted ns)) \<and>
     (saw_digit \<longrightarrow> (\<forall>v vs. octets = v # vs \<longrightarrow> length vs < 4 \<longrightarrow> v < 256 \<longrightarrow>
       (\<exists>n ns. r = rev vs @ n # ns \<and> length r = 4 \<and> (\<forall>n\<in>set (n # ns). n < 256) \<and>
          show_nat v @ cs = dotted (n # ns))))"
proof (induction cs octets saw_digit rule: pton_loop.induct)
  case (1 octets saw_digit)
  then show ?case by (fastforce split: if_splits)
next
  case (2 c cs octets saw_digit)
  show ?case
  proof (cases "48 \<le> (of_char c :: nat) \<and> of_char c \<le> (57 :: nat)")
    case digit: True
    let ?d = "of_char c - 48 :: nat"
    have d: "?d < 10" "digit_char ?d = c" using digit digit_of_char [of c] by auto
    show ?thesis
    proof (cases saw_digit)
      case True
      show ?thesis
      proof (intro conjI impI allI)
        fix v vs assume o: "octets = v # vs" "length vs < 4" "v < 256"
        with "2.prems" digit True have v: "v \<noteq> 0" "10 * v + ?d \<le> 255"
          and rest: "pton_loop cs ((10 * v + ?d) # vs) True = Some r"
          by (auto simp: Let_def split: if_splits)
        have "show_nat v @ c # cs = show_nat (10 * v + ?d) @ cs"
          using show_nat_snoc [OF v(1) d(1)] d(2) by simp
        moreover have "\<exists>n ns. r = rev vs @ n # ns \<and> length r = 4 \<and> (\<forall>n\<in>set (n # ns). n < 256) \<and>
            show_nat (10 * v + ?d) @ cs = dotted (n # ns)"
          using "2.IH"(1) [OF digit refl True refl] o v rest by simp
        ultimately show "\<exists>n ns. r = rev vs @ n # ns \<and> length r = 4 \<and> (\<forall>n\<in>set (n # ns). n < 256) \<and>
            show_nat v @ c # cs = dotted (n # ns)"
          by presburger
      qed (use True in simp)
    next
      case False
      show ?thesis
      proof (intro conjI impI allI)
        assume len: "length octets < 4"
        with "2.prems" digit False have rest: "pton_loop cs (?d # octets) True = Some r"
          by (auto simp: Let_def)
        from "2.IH"(2) [OF digit refl False _ rest] len d obtain n ns where
          "r = rev octets @ n # ns" "length r = 4" "\<forall>n\<in>set (n # ns). n < 256"
          "show_nat ?d @ cs = dotted (n # ns)" by auto
        then show "\<exists>ns. r = rev octets @ ns \<and> ns \<noteq> [] \<and> length r = 4 \<and> (\<forall>n\<in>set ns. n < 256) \<and>
            c # cs = dotted ns"
          using show_nat_digit [OF d(1)] d(2) by (intro exI [of _ "n # ns"]) simp
      qed (use False in simp)
    qed
  next
    case False
    with "2.prems" have dot: "c = CHR ''.''" "saw_digit" "length octets \<noteq> 4"
      and rest: "pton_loop cs octets False = Some r"
      by (auto split: if_splits)
    show ?thesis
    proof (intro conjI impI allI)
      fix v vs assume o: "octets = v # vs" "length vs < 4" "v < 256"
      with "2.IH"(3) [OF False _ dot(3) rest] dot obtain ns where
        "r = rev octets @ ns" "ns \<noteq> []" "length r = 4" "\<forall>n\<in>set ns. n < 256" "cs = dotted ns"
        by auto
      with o dot show "\<exists>n ns. r = rev vs @ n # ns \<and> length r = 4 \<and> (\<forall>n\<in>set (n # ns). n < 256) \<and>
          show_nat v @ c # cs = dotted (n # ns)"
        by (intro exI [of _ v] exI [of _ ns]) (simp add: dotted_Cons)
    qed (use dot in simp)
  qed
qed

lemma pton_loop_number:
  "n < 256 \<Longrightarrow> length octets < 4 \<Longrightarrow>
     pton_loop (show_nat n @ rest) octets False = pton_loop rest (n # octets) True"
proof (induction n arbitrary: rest rule: show_nat.induct)
  case (1 n)
  show ?case
  proof (cases "n < 10")
    case True
    with "1.prems" show ?thesis by (simp add: show_nat_digit)
  next
    case False
    have "show_nat n = show_nat (n div 10) @ [digit_char (n mod 10)]"
      using False by (subst show_nat.simps) simp
    moreover have "n mod 10 \<le> 9" "n div 10 \<noteq> 0" "n div 10 < 256" using False "1.prems" by simp_all
    ultimately show ?thesis
      using "1.IH" [OF False, of "digit_char (n mod 10) # rest"] "1.prems" by (simp add: Let_def)
  qed
qed

lemma pton_loop_dotted:
  "ns \<noteq> [] \<Longrightarrow> length octets + length ns = 4 \<Longrightarrow> \<forall>n\<in>set ns. n < 256 \<Longrightarrow>
     pton_loop (dotted ns) octets False = Some (rev octets @ ns)"
proof (induction ns arbitrary: octets rule: dotted.induct)
  case (2 n)
  then show ?case using pton_loop_number [of n octets "[]"] by simp
next
  case (3 n n' ns)
  then show ?case by (simp add: pton_loop_number)
qed simp

lemma pton_loop_iff:
  "pton_loop cs [] False = Some r \<longleftrightarrow> length r = 4 \<and> (\<forall>n\<in>set r. n < 256) \<and> cs = dotted r"
proof
  assume "pton_loop cs [] False = Some r"
  from pton_loop_sound [OF this] show "length r = 4 \<and> (\<forall>n\<in>set r. n < 256) \<and> cs = dotted r"
    by auto
next
  assume "length r = 4 \<and> (\<forall>n\<in>set r. n < 256) \<and> cs = dotted r"
  then show "pton_loop cs [] False = Some r" using pton_loop_dotted [of r "[]"] by (cases r) auto
qed


section \<open>The text of an address\<close>

lemma octets_less: "n \<in> set (map of_char cs) \<Longrightarrow> n < (256 :: nat)"
  using of_char_less by auto

lemma load_store: "load_bytes le (store_bytes le 4 (a :: 32 word)) = a"
  using unat_mod_bytes [of 4 a] by (cases le) (simp_all add: load_bytes_def store_bytes_def)

lemma store_load: "length cs = 4 \<Longrightarrow> store_bytes le 4 (load_bytes le cs :: 32 word) = cs"
  by (cases le) (simp_all add: load_bytes_def store_bytes_def unat_bytes)

lemma map_char_of_octets: "\<forall>n\<in>set ns. n < 256 \<Longrightarrow> map of_char (map char_of ns :: string) = (ns :: nat list)"
  by (induction ns) simp_all

text \<open>A text is read as an address exactly if it is how that address is printed.\<close>

lemma inet_pton_iff: "inet_pton le src dst = (1, a) \<and> inet_ntop le a = src \<longleftrightarrow> inet_ntop le a = src"
  "(\<forall>a. inet_ntop le a \<noteq> src) \<Longrightarrow> inet_pton le src dst = (0, dst)"
proof -
  have read: "inet_pton le (inet_ntop le a) dst = (1, a)" for a
  proof -
    have "pton_loop (inet_ntop le a) [] False = Some (map of_char (store_bytes le 4 a))"
      unfolding pton_loop_iff inet_ntop_def using octets_less by auto
    then show ?thesis by (simp add: inet_pton_def load_store comp_def)
  qed
  then show "inet_pton le src dst = (1, a) \<and> inet_ntop le a = src \<longleftrightarrow> inet_ntop le a = src" by auto
  show "inet_pton le src dst = (0, dst)" if no: "\<forall>a. inet_ntop le a \<noteq> src"
  proof (cases "pton_loop src [] False")
    case None
    then show ?thesis by (simp add: inet_pton_def)
  next
    case (Some octets)
    then have o: "length octets = 4" "\<forall>n\<in>set octets. n < 256" "src = dotted octets"
      unfolding pton_loop_iff by auto
    then have "inet_ntop le (load_bytes le (map char_of octets)) = src"
      using map_char_of_octets [OF o(2)] by (simp add: inet_ntop_def store_load)
    with no show ?thesis by blast
  qed
qed

lemma length_dotted: "\<forall>n\<in>set ns. n < 256 \<Longrightarrow> ns \<noteq> [] \<Longrightarrow> length (dotted ns) \<le> 4 * length ns - 1"
proof (induction ns rule: dotted.induct)
  case (2 n)
  then show ?case using length_show_nat_le [of n 3] by simp
next
  case (3 n n' ns)
  then show ?case using length_show_nat_le [of n 3] by simp
qed simp

lemma length_inet_ntop: "length (inet_ntop le a) \<le> 15"
proof -
  have "store_bytes le 4 a \<noteq> []" by (metis length_store_bytes list.size(3) zero_neq_numeral)
  then show ?thesis
    using length_dotted [of "map of_char (store_bytes le 4 a)"] octets_less
    by (simp add: inet_ntop_def)
qed

lemma nul_not_digit: "nul \<notin> set (show_nat n)"
proof
  assume "nul \<in> set (show_nat n)"
  then obtain d where d: "d < 10" "nul = digit_char d" using show_nat_digits by blast
  then have "(of_char nul :: nat) = 48 + d" using of_char_digit_char [of d] by simp
  then show False by simp
qed

lemma dotted_no_nul: "nul \<notin> set (dotted ns)"
  by (induction ns rule: dotted.induct) (simp_all add: nul_not_digit)

lemma inet_ntop_no_nul: "nul \<notin> set (inet_ntop le a)"
  by (simp add: inet_ntop_def dotted_no_nul)

lemma std_find_end: "x \<notin> set xs \<Longrightarrow> std_find x (xs @ [x]) = length xs"
  by (induction xs) (auto simp: std_find_def)

lemma c_string_c_str: "nul \<notin> set s \<Longrightarrow> c_string (c_str s) = Inr s"
  by (simp add: c_string_def strlen_def c_str_def std_find_end bytes_at_def)

lemma InetAddress_ip_eq:
  assumes "nul \<notin> set src"
  shows "InetAddress_ip le (sp_string src) port =
    Inr \<lparr>sin_family = AF_INET, sin_port = hostToNetwork16 le port, sin_addr = snd (inet_pton le src 0)\<rparr>"
  using c_string_c_str [OF assms]
  by (simp add: InetAddress_ip_def sockets_fromIpPort_def sp_data_def sp_string_def zero_sockaddr_def
      split: prod.split)

lemma toIpPort_eq:
  "InetAddress_toIpPort le a =
     Inr (inet_ntop le (sin_addr a) @ '':'' @ show_nat (unat (networkToHost16 le (sin_port a))))"
  "length (inet_ntop le (sin_addr a) @ '':'' @ show_nat (unat (networkToHost16 le (sin_port a)))) \<le> 21"
proof -
  let ?p = "unat (networkToHost16 le (sin_port a))"
  have "?p < 10 ^ 5" using unsigned_less [of "networkToHost16 le (sin_port a)", where ?'a = nat] by simp
  from length_show_nat_le [OF this]
  show len: "length (inet_ntop le (sin_addr a) @ '':'' @ show_nat ?p) \<le> 21"
    using length_inet_ntop [of le "sin_addr a"] by simp
  then show "InetAddress_toIpPort le a = Inr (inet_ntop le (sin_addr a) @ '':'' @ show_nat ?p)"
    by (simp add: InetAddress_toIpPort_def sockets_toIpPort_def sockets_toIp_def snprintf_def)
qed

lemma host_network16: "hostToNetwork16 le (networkToHost16 le x) = x"
  by (simp add: networkToHost16_def hostToNetwork16_def bswap_bswap)

lemma ntop_any: "inet_ntop le 0 = ''0.0.0.0''"
proof -
  have "inet_ntop True 0 = ''0.0.0.0''" "inet_ntop False 0 = ''0.0.0.0''" by (code_simp, code_simp)
  then show ?thesis by (cases le) (simp_all only:)
qed

lemma toIp_eq: "InetAddress_toIp le a = Inr (inet_ntop le (sin_addr a))"
  by (simp add: InetAddress_toIp_def sockets_toIp_def)


lemma bytes_le_4: "bytes_le 4 v =
    [char_of (v mod 256), char_of (v div 256 mod 256), char_of (v div 65536 mod 256),
     char_of (v div 16777216 mod 256)]"
proof -
  have four: "4 = Suc (Suc (Suc (Suc 0)))" by simp
  show ?thesis unfolding four by (simp only: bytes_le.simps div_mult2_eq [symmetric]) simp
qed


text \<open>
  A socket is taken for connected to itself when its two ends agree in port and address: then both
  print alike, and the family does not matter.
\<close>

lemma isSelfConnect_text:
  "isSelfConnect a b \<Longrightarrow> InetAddress_toIpPort le a = InetAddress_toIpPort le b"
  by (simp add: isSelfConnect_def toIpPort_eq)

end
