(* ===== verification/TcpServer.thy ===== *)
theory TcpServer
  imports TcpConnection EventLoopThread InetAddress
begin

text \<open>
  \<open>muduo/net/TcpServer.cc\<close> and \<open>Acceptor.cc\<close>: the connections of a server over its loops. The server lives on
  the base loop, a connection on the loop the pool chose for it; they speak through the functors each
  loop runs in turn (\<open>sv_functors\<close>). Objects are named by numbers: \<open>sv_conns\<close> holds the connections ever
  made. Of a connection the server sees its life only (\<open>conn\<close>: its state, whether its channel is
  registered with the poller, and whether it watches anything); the last section shows that the three
  operations used here are those of \<open>TcpConnection\<close>.

  An event is a step of one thread; a run is any sequence of events.
\<close>

section \<open>The server and its connections\<close>

record conn =
  cx_name :: string
  cx_loop :: nat
  cx_sockfd :: int
  cx_state :: stateE
  cx_registered :: bool
  cx_watched :: bool

datatype sv_functor =
  ConnectEstablished nat | RemoveConnectionInLoop nat | DestroyConnection nat | AcceptorListen

record Acceptor =
  ac_listenning :: bool
  ac_reading :: bool
  ac_idleFd :: int
  ac_dropped :: "int list" \<comment> \<open>what the idle descriptor made room for: accepted and closed\<close>

record TcpServer = EventLoopThreadPool +
  sv_alive :: bool
  sv_hostport :: string
  sv_name :: string
  sv_acceptor :: Acceptor
  sv_started :: bool
  sv_nextConnId :: int
  sv_connections :: "(string \<times> nat) list"
  sv_conns :: "nat \<Rightarrow> conn option"
  sv_functors :: "nat \<Rightarrow> sv_functor list"

section \<open>Loops\<close>

definition sv_queueInLoop :: "nat \<Rightarrow> sv_functor \<Rightarrow> TcpServer \<Rightarrow> TcpServer" where
  "sv_queueInLoop lp f s = s\<lparr>sv_functors := (sv_functors s)(lp := sv_functors s lp @ [f])\<rparr>"

definition sv_runInLoop ::
  "(sv_functor \<Rightarrow> TcpServer \<Rightarrow> TcpServer result) \<Rightarrow> nat \<Rightarrow> nat \<Rightarrow> sv_functor \<Rightarrow> TcpServer \<Rightarrow> TcpServer result" where
  "sv_runInLoop run tid lp f s = (if tid = lp then run f s else Inr (sv_queueInLoop lp f s))"

section \<open>The life of a connection\<close>

definition cx_deref :: "nat \<Rightarrow> TcpServer \<Rightarrow> conn result" where
  "cx_deref c s = (case sv_conns s c of None \<Rightarrow> Inl (Undefined ''no such connection'') | Some x \<Rightarrow> Inr x)"

definition cx_assertInLoop :: "nat \<Rightarrow> conn \<Rightarrow> unit result" where
  "cx_assertInLoop tid x =
     (if tid = cx_loop x then Inr () else Inl (Fatal ''EventLoop::abortNotInLoopThread''))"

definition cx_established :: "conn \<Rightarrow> conn result" where
  "cx_established x =
     rbind (guard (cx_state x = kConnecting) ''state_ == kConnecting'') (\<lambda>_.
     Inr (x\<lparr>cx_state := kConnected, cx_registered := True, cx_watched := True\<rparr>))"

definition cx_closed :: "conn \<Rightarrow> conn result" where
  "cx_closed x =
     rbind (guard (cx_state x = kConnected \<or> cx_state x = kDisconnecting)
              ''state_ == kConnected || state_ == kDisconnecting'') (\<lambda>_.
     Inr (x\<lparr>cx_state := kDisconnected, cx_watched := False\<rparr>))"

definition cx_destroyed :: "conn \<Rightarrow> conn result" where
  "cx_destroyed x =
     (let x = if cx_state x = kConnected then x\<lparr>cx_state := kDisconnected, cx_watched := False\<rparr> else x
      in rbind (guard (\<not> cx_watched x) ''isNoneEvent()'') (\<lambda>_.
         rbind (guard (cx_registered x) ''channels_.find(channel->fd()) != channels_.end()'') (\<lambda>_.
         Inr (x\<lparr>cx_registered := False\<rparr>))))"

definition on_conn ::
  "nat \<Rightarrow> nat \<Rightarrow> (conn \<Rightarrow> conn result) \<Rightarrow> TcpServer \<Rightarrow> TcpServer result" where
  "on_conn tid c f s =
     rbind (cx_deref c s) (\<lambda>x.
     rbind (cx_assertInLoop tid x) (\<lambda>_.
     rbind (f x) (\<lambda>x. Inr (s\<lparr>sv_conns := (sv_conns s)(c \<mapsto> x)\<rparr>))))"

section \<open>The server\<close>

definition new_Acceptor :: "int \<Rightarrow> int \<Rightarrow> int \<Rightarrow> Acceptor result" where
  \<comment> \<open>The answers of \<open>socket\<close>, of \<open>open("/dev/null")\<close> and of \<open>bind\<close>.\<close>
  "new_Acceptor sockfd idleFd bind_ret =
     rbind (createNonblockingOrDie sockfd) (\<lambda>sockfd.
     rbind (guard (idleFd \<ge> 0) ''idleFd_ >= 0'') (\<lambda>_.
     rbind (Socket_bindAddress bind_ret) (\<lambda>_.
     Inr \<lparr>ac_listenning = False, ac_reading = False, ac_idleFd = idleFd, ac_dropped = []\<rparr>)))"

definition new_TcpServer ::
  "bool \<Rightarrow> nat \<Rightarrow> sockaddr_in \<Rightarrow> string \<Rightarrow> int \<Rightarrow> int \<Rightarrow> int \<Rightarrow> TcpServer result" where
  "new_TcpServer le lp listenAddr nameArg sockfd idleFd bind_ret =
     rbind (InetAddress_toIpPort le listenAddr) (\<lambda>hostport.
     rbind (new_Acceptor sockfd idleFd bind_ret) (\<lambda>acceptor.
     Inr (EventLoopThreadPool.extend (new_EventLoopThreadPool lp)
       (TcpServer.TcpServer.fields True hostport nameArg acceptor False 1 [] (\<lambda>_. None) (\<lambda>_. [])))))"

definition sv_setThreadNum :: "int \<Rightarrow> TcpServer \<Rightarrow> TcpServer result" where
  "sv_setThreadNum numThreads s =
     rbind (guard (0 \<le> numThreads) ''0 <= numThreads'') (\<lambda>_. Inr (pool_setThreadNum numThreads s))"

definition Acceptor_listen :: "nat \<Rightarrow> int \<Rightarrow> TcpServer \<Rightarrow> TcpServer result" where
  "Acceptor_listen tid listen_ret s =
     rbind (base_assertInLoop tid s) (\<lambda>_.
     rbind (Socket_listen listen_ret) (\<lambda>_.
     Inr (s\<lparr>sv_acceptor := (sv_acceptor s)\<lparr>ac_listenning := True, ac_reading := True\<rparr>\<rparr>)))"

definition removeConnectionInLoop :: "nat \<Rightarrow> nat \<Rightarrow> TcpServer \<Rightarrow> TcpServer result" where
  "removeConnectionInLoop tid c s =
     rbind (base_assertInLoop tid s) (\<lambda>_.
     rbind (cx_deref c s) (\<lambda>x.
     let n = (if map_of (sv_connections s) (cx_name x) = None then 0 else 1 :: nat);
         s = s\<lparr>sv_connections := map_erase (cx_name x) (sv_connections s)\<rparr>
     in rbind (guard (n = 1) ''n == 1'') (\<lambda>_.
        Inr (sv_queueInLoop (cx_loop x) (DestroyConnection c) s))))"

text \<open>What a functor does; the server's own ones hold a plain pointer to it.\<close>

definition run_sv :: "nat \<Rightarrow> int \<Rightarrow> sv_functor \<Rightarrow> TcpServer \<Rightarrow> TcpServer result" where
  "run_sv tid listen_ret f s = (case f of
     ConnectEstablished c \<Rightarrow> on_conn tid c cx_established s
   | DestroyConnection c \<Rightarrow> on_conn tid c cx_destroyed s
   | RemoveConnectionInLoop c \<Rightarrow>
       if sv_alive s then removeConnectionInLoop tid c s else Inl (Undefined ''TcpServer has been destroyed'')
   | AcceptorListen \<Rightarrow>
       if sv_alive s then Acceptor_listen tid listen_ret s else Inl (Undefined ''TcpServer has been destroyed''))"

definition removeConnection :: "nat \<Rightarrow> nat \<Rightarrow> TcpServer \<Rightarrow> TcpServer result" where
  "removeConnection tid c s =
     (if sv_alive s
      then sv_runInLoop (run_sv tid 0) tid (lp_baseLoop s) (RemoveConnectionInLoop c) s
      else Inl (Undefined ''TcpServer has been destroyed''))"

definition sv_start :: "nat \<Rightarrow> bool \<Rightarrow> (nat \<Rightarrow> nat) \<Rightarrow> int \<Rightarrow> TcpServer \<Rightarrow> TcpServer result" where
  "sv_start tid cb new_loop listen_ret s =
     rbind (if \<not> sv_started s then pool_start tid cb new_loop (s\<lparr>sv_started := True\<rparr>) else Inr s) (\<lambda>s.
     if \<not> ac_listenning (sv_acceptor s)
     then sv_runInLoop (run_sv tid listen_ret) tid (lp_baseLoop s) AcceptorListen s
     else Inr s)"

definition conn_name :: "string \<Rightarrow> string \<Rightarrow> int \<Rightarrow> string" where
  "conn_name nm hostport connId = nm @ snprintf 32 ('':'' @ hostport @ ''#'' @ show_int connId)"

text \<open>\<open>c\<close> is the new \<open>TcpConnection\<close> object.\<close>

definition newConnection :: "nat \<Rightarrow> nat \<Rightarrow> int \<Rightarrow> sockaddr_in \<Rightarrow> TcpServer \<Rightarrow> TcpServer result" where
  "newConnection tid c sockfd peerAddr s =
     rbind (base_assertInLoop tid s) (\<lambda>_.
     rbind (getNextLoop tid s) (\<lambda>(ioLoop, s).
     let connName = conn_name (sv_name s) (sv_hostport s) (sv_nextConnId s) in
     rbind (if sv_nextConnId s < 2 ^ 31 - 1 then Inr () else Inl (Undefined ''signed overflow'')) (\<lambda>_.
     let s = s\<lparr>sv_nextConnId := sv_nextConnId s + 1\<rparr>;
         x = \<lparr>cx_name = connName, cx_loop = ioLoop, cx_sockfd = sockfd, cx_state = kConnecting,
               cx_registered = False, cx_watched = False\<rparr>;
         s = s\<lparr>sv_conns := (sv_conns s)(c \<mapsto> x), sv_connections := map_insert connName c (sv_connections s)\<rparr>
     in sv_runInLoop (run_sv tid 0) tid ioLoop (ConnectEstablished c) s)))"

text \<open>
  \<open>handleRead\<close> of the acceptor: the answer of \<open>accept\<close>, then, on an error, the descriptor that the idle
  one made room for and the one that replaces it. The condition \<open>errno = EMFILE\<close> is an assignment, so
  its value is that of \<open>EMFILE\<close>.
\<close>

record accept_answer =
  ans_connfd :: int
  ans_errno :: nat
  ans_addr :: sockaddr_in
  ans_extra :: int
  ans_idleFd :: int

definition Acceptor_handleRead :: "nat \<Rightarrow> bool \<Rightarrow> nat \<Rightarrow> accept_answer \<Rightarrow> TcpServer \<Rightarrow> TcpServer result" where
  "Acceptor_handleRead tid le c ans s =
     rbind (base_assertInLoop tid s) (\<lambda>_.
     rbind (Socket_accept (ans_connfd ans) (ans_errno ans) (ans_addr ans) (InetAddress_port le 0))
       (\<lambda>(connfd, errno, peerAddr).
     if connfd \<ge> 0 then newConnection tid c connfd peerAddr s
     else
       let errno = EMFILE in
       if errno \<noteq> 0 then
         Inr (s\<lparr>sv_acceptor := (sv_acceptor s)\<lparr>ac_idleFd := ans_idleFd ans,
           ac_dropped := ac_dropped (sv_acceptor s) @ [ans_extra ans]\<rparr>\<rparr>)
       else Inr s))"

text \<open>The connection's \<open>handleClose\<close>, whose close callback is \<open>removeConnection\<close>.\<close>

definition cx_handleClose :: "nat \<Rightarrow> nat \<Rightarrow> TcpServer \<Rightarrow> TcpServer result" where
  "cx_handleClose tid c s = rbind (on_conn tid c cx_closed s) (removeConnection tid c)"

definition TcpServer_dtor :: "nat \<Rightarrow> TcpServer \<Rightarrow> TcpServer result" where
  "TcpServer_dtor tid s =
     rbind (base_assertInLoop tid s) (\<lambda>_.
     rbind (rfold (\<lambda>(nm, c) s.
         rbind (cx_deref c s) (\<lambda>x.
         sv_runInLoop (run_sv tid 0) tid (cx_loop x) (DestroyConnection c) s)) (sv_connections s) s) (\<lambda>s.
     Inr (s\<lparr>sv_alive := False, sv_connections := []\<rparr>)))"

section \<open>Events\<close>

datatype sv_event =
    Start bool "nat \<Rightarrow> nat" \<comment> \<open>\<open>start()\<close> on the base loop\<close>
  | Accept nat accept_answer \<comment> \<open>the listening socket is readable\<close>
  | RunFunctor nat \<comment> \<open>a loop runs its next functor\<close>
  | UserShutdown nat \<comment> \<open>somebody calls \<open>shutdown\<close> on a connection\<close>
  | PeerClose nat \<comment> \<open>the poller reports the end of a connection\<close>

text \<open>
  An event that cannot happen changes nothing: the poller reports channels with interests only, and a
  new object does not lie where another one is. New threads have loops of their own.
\<close>

definition sv_step :: "bool \<Rightarrow> sv_event \<Rightarrow> TcpServer \<Rightarrow> TcpServer result" where
  "sv_step le ev s = (case ev of
     Start cb new_loop \<Rightarrow>
       if inj new_loop \<and> lp_baseLoop s \<notin> range new_loop
       then sv_start (lp_baseLoop s) cb new_loop 0 s else Inr s
   | Accept c ans \<Rightarrow>
       if ac_reading (sv_acceptor s) \<and> sv_conns s c = None
       then Acceptor_handleRead (lp_baseLoop s) le c ans s else Inr s
   | RunFunctor lp \<Rightarrow>
       (case sv_functors s lp of
          [] \<Rightarrow> Inr s
        | f # fs \<Rightarrow> run_sv lp 0 f (s\<lparr>sv_functors := (sv_functors s)(lp := fs)\<rparr>))
   | UserShutdown c \<Rightarrow>
       (case sv_conns s c of
          None \<Rightarrow> Inr s
        | Some x \<Rightarrow> Inr (if cx_state x = kConnected
            then s\<lparr>sv_conns := (sv_conns s)(c \<mapsto> x\<lparr>cx_state := kDisconnecting\<rparr>)\<rparr> else s))
   | PeerClose c \<Rightarrow>
       (case sv_conns s c of
          None \<Rightarrow> Inr s
        | Some x \<Rightarrow> if cx_registered x \<and> cx_watched x then cx_handleClose (cx_loop x) c s else Inr s))"


section \<open>The invariant\<close>

text \<open>
  The functors due, by loop: those queued and, while one is being handed over or run, the one in hand.
\<close>

definition pend :: "(nat \<times> sv_functor) option \<Rightarrow> TcpServer \<Rightarrow> nat \<Rightarrow> sv_functor \<Rightarrow> nat" where
  "pend h s l f = count_list (sv_functors s l) f + of_bool (h = Some (l, f))"

fun functor_conn :: "sv_functor \<Rightarrow> nat option" where
  "functor_conn (ConnectEstablished c) = Some c"
| "functor_conn (RemoveConnectionInLoop c) = Some c"
| "functor_conn (DestroyConnection c) = Some c"
| "functor_conn AcceptorListen = None"

definition listed :: "TcpServer \<Rightarrow> nat \<Rightarrow> conn \<Rightarrow> bool" where
  "listed s c x \<longleftrightarrow> map_of (sv_connections s) (cx_name x) = Some c"

text \<open>
  The life of a connection: it is established once, on its loop; while it is open it is listed and its
  channel registered; once closed, it is removed once, on the base loop, and destroyed once, on its own.
\<close>

definition conn_inv :: "(nat \<Rightarrow> sv_functor \<Rightarrow> nat) \<Rightarrow> nat \<Rightarrow> bool \<Rightarrow> nat \<Rightarrow> conn \<Rightarrow> bool" where
  "conn_inv due base inmap c x \<longleftrightarrow>
     (cx_state x \<noteq> kDisconnected \<longrightarrow> inmap) \<and>
     cx_watched x = (cx_state x = kConnected \<or> cx_state x = kDisconnecting) \<and>
     (inmap \<longrightarrow> cx_registered x = (cx_state x \<noteq> kConnecting)) \<and>
     (\<forall>l. due l (ConnectEstablished c) = of_bool (l = cx_loop x \<and> cx_state x = kConnecting)) \<and>
     (\<forall>l. due l (RemoveConnectionInLoop c) = of_bool (l = base \<and> cx_state x = kDisconnected \<and> inmap)) \<and>
     (\<forall>l. due l (DestroyConnection c) =
        of_bool (l = cx_loop x \<and> cx_state x = kDisconnected \<and> \<not> inmap \<and> cx_registered x))"

definition names_ok :: "TcpServer \<Rightarrow> bool" where
  "names_ok s \<longleftrightarrow> std_map (sv_connections s) \<and>
     (\<forall>nm c. map_of (sv_connections s) nm = Some c \<longrightarrow> (\<exists>x. sv_conns s c = Some x \<and> cx_name x = nm)) \<and>
     (\<forall>c x. sv_conns s c = Some x \<longrightarrow>
        (\<exists>i. 1 \<le> i \<and> i < sv_nextConnId s \<and> cx_name x = conn_name (sv_name s) (sv_hostport s) i)) \<and>
     (\<forall>c d x y. sv_conns s c = Some x \<longrightarrow> sv_conns s d = Some y \<longrightarrow> cx_name x = cx_name y \<longrightarrow> c = d)"

definition sv_inv :: "(nat \<times> sv_functor) option \<Rightarrow> TcpServer \<Rightarrow> bool" where
  "sv_inv h s \<longleftrightarrow> sv_alive s \<and> pool_ok s \<and> 1 \<le> sv_nextConnId s \<and> length (sv_hostport s) \<le> 21 \<and>
     (lp_started s \<longrightarrow> sv_started s) \<and> names_ok s \<and>
     (\<forall>c x. sv_conns s c = Some x \<longrightarrow> conn_inv (pend h s) (lp_baseLoop s) (listed s c x) c x) \<and>
     (\<forall>c l f. sv_conns s c = None \<longrightarrow> functor_conn f = Some c \<longrightarrow> pend h s l f = 0) \<and>
     (\<forall>l. pend h s l AcceptorListen = 0)"

lemma pend_queue: "pend None (sv_queueInLoop l f s) = pend (Some (l, f)) s"
  by (auto simp: pend_def sv_queueInLoop_def fun_eq_iff)

lemma pend_take:
  "sv_functors s l = f # fs \<Longrightarrow> pend (Some (l, f)) (s\<lparr>sv_functors := (sv_functors s)(l := fs)\<rparr>) = pend None s"
  by (auto simp: pend_def fun_eq_iff)

lemma pend_in_hand: "pend (Some (l, f)) s l' g = pend None s l' g + of_bool (l' = l \<and> g = f)"
  by (auto simp: pend_def)

lemma pend_frame [simp]:
  "pend h (s\<lparr>sv_conns := x1\<rparr>) = pend h s" "pend h (s\<lparr>sv_connections := x2\<rparr>) = pend h s"
  "pend h (s\<lparr>sv_nextConnId := x3\<rparr>) = pend h s" "pend h (s\<lparr>lp_next := x4\<rparr>) = pend h s"
  "pend h (s\<lparr>sv_acceptor := x5\<rparr>) = pend h s"
  by (simp_all add: pend_def fun_eq_iff)

lemma conn_inv_cong:
  assumes "\<And>l f. functor_conn f = Some c \<Longrightarrow> due' l f = due l f"
  shows "conn_inv due' base m c x = conn_inv due base m c x"
  using assms by (simp add: conn_inv_def)

lemma conn_inv_due:
  assumes "conn_inv due base m c x"
  shows "due l (ConnectEstablished c) = of_bool (l = cx_loop x \<and> cx_state x = kConnecting)"
    "due l (RemoveConnectionInLoop c) = of_bool (l = base \<and> cx_state x = kDisconnected \<and> m)"
    "due l (DestroyConnection c) =
       of_bool (l = cx_loop x \<and> cx_state x = kDisconnected \<and> \<not> m \<and> cx_registered x)"
  using assms by (simp_all add: conn_inv_def)

lemma sv_inv_conn: "sv_inv h s \<Longrightarrow> sv_conns s c = Some x \<Longrightarrow>
    conn_inv (pend h s) (lp_baseLoop s) (listed s c x) c x"
  by (simp add: sv_inv_def)

text \<open>A functor in hand belongs to a connection.\<close>

lemma in_hand_conn:
  assumes "sv_inv (Some (l, f)) s"
  shows "\<exists>c x. functor_conn f = Some c \<and> sv_conns s c = Some x"
proof -
  have pos: "pend (Some (l, f)) s l f \<noteq> 0" by (simp add: pend_def)
  with assms obtain c where "functor_conn f = Some c" by (cases f) (auto simp: sv_inv_def)
  with pos assms show ?thesis by (fastforce simp: sv_inv_def)
qed

text \<open>A step on one connection: the others keep their functors and their place.\<close>

lemma sv_inv_change:
  assumes inv: "sv_inv h s" and x: "sv_conns s c = Some x" "cx_name x' = cx_name x"
    and s': "s' = s\<lparr>sv_conns := (sv_conns s)(c \<mapsto> x'), sv_connections := m, sv_functors := q\<rparr>"
    and m: "m = sv_connections s \<or> m = map_erase (cx_name x) (sv_connections s)"
    and others: "\<And>l f. functor_conn f \<noteq> Some c \<Longrightarrow> pend h' s' l f = pend h s l f"
    and own: "conn_inv (pend h' s') (lp_baseLoop s) (map_of m (cx_name x) = Some c) c x'"
  shows "sv_inv h' s'"
proof -
  have names: "names_ok s" using inv by (simp add: sv_inv_def)
  have unique: "cx_name y \<noteq> cx_name x" if "sv_conns s d = Some y" "d \<noteq> c" for d y
    using names that x(1) unfolding names_ok_def by blast
  have m_of: "map_of m nm = map_of (sv_connections s) nm" if "nm \<noteq> cx_name x" for nm
    using m that by auto
  have m_some: "map_of m nm = Some d \<Longrightarrow> map_of (sv_connections s) nm = Some d" for nm d
    using m by (auto split: if_splits)
  have names': "names_ok s'"
    unfolding names_ok_def
  proof (intro conjI allI impI)
    show "std_map (sv_connections s')" using m names s' map_erase_std by (auto simp: names_ok_def)
  next
    fix nm d assume "map_of (sv_connections s') nm = Some d"
    then have "map_of (sv_connections s) nm = Some d" using s' m_some by simp
    then obtain y where "sv_conns s d = Some y" "cx_name y = nm" using names by (auto simp: names_ok_def)
    then show "\<exists>y. sv_conns s' d = Some y \<and> cx_name y = nm" using s' x by (cases "d = c") auto
  next
    fix d y assume "sv_conns s' d = Some y"
    then obtain y0 where "sv_conns s d = Some y0" "cx_name y0 = cx_name y"
      using s' x by (cases "d = c") auto
    with names s' show "\<exists>i. 1 \<le> i \<and> i < sv_nextConnId s' \<and> cx_name y = conn_name (sv_name s') (sv_hostport s') i"
      by (fastforce simp: names_ok_def)
  next
    fix d e y z assume "sv_conns s' d = Some y" "sv_conns s' e = Some z" "cx_name y = cx_name z"
    then show "d = e" using names s' x unique by (auto simp: names_ok_def split: if_splits)
  qed
  have conns: "conn_inv (pend h' s') (lp_baseLoop s') (listed s' d y) d y" if y: "sv_conns s' d = Some y" for d y
  proof (cases "d = c")
    case True
    with own s' x(2) y show ?thesis by (simp add: listed_def)
  next
    case False
    then have d: "sv_conns s d = Some y" using s' y by simp
    have "listed s' d y = listed s d y" using m_of [OF unique [OF d False]] s' by (simp add: listed_def)
    moreover have "lp_baseLoop s' = lp_baseLoop s" using s' by simp
    moreover have "conn_inv (pend h' s') b k d y = conn_inv (pend h s) b k d y" for b k
      using others False by (intro conn_inv_cong) auto
    ultimately show ?thesis using sv_inv_conn [OF inv d] by simp
  qed
  have "pend h' s' l f = 0" if "sv_conns s' d = None" "functor_conn f = Some d" for d l f
  proof -
    have "d \<noteq> c" "sv_conns s d = None" using that s' by (auto split: if_splits)
    with inv that(2) others [of f l] show ?thesis by (simp add: sv_inv_def)
  qed
  moreover have "pend h' s' l AcceptorListen = 0" for l
    using inv others [of AcceptorListen l] by (simp add: sv_inv_def)
  ultimately show ?thesis
    using inv s' names' conns by (simp add: sv_inv_def pool_ok_def)
qed


section \<open>Every step keeps it\<close>

lemma run_established:
  assumes inv: "sv_inv (Some (tid, ConnectEstablished c)) s"
  shows "\<exists>s'. run_sv tid r (ConnectEstablished c) s = Inr s' \<and> sv_inv None s'"
proof -
  let ?h = "Some (tid, ConnectEstablished c)"
  from in_hand_conn [OF inv] obtain x where x: "sv_conns s c = Some x" by auto
  note own = sv_inv_conn [OF inv x]
  have st: "tid = cx_loop x" "cx_state x = kConnecting" "listed s c x"
    using own conn_inv_due(1) [OF own, of tid] by (auto simp: conn_inv_def pend_def split: if_splits)
  let ?x = "x\<lparr>cx_state := kConnected, cx_registered := True, cx_watched := True\<rparr>"
  let ?s = "s\<lparr>sv_conns := (sv_conns s)(c \<mapsto> ?x)\<rparr>"
  have due: "pend None ?s l f + of_bool (l = tid \<and> f = ConnectEstablished c) = pend ?h s l f" for l f
    by (simp add: pend_in_hand)
  have "run_sv tid r (ConnectEstablished c) s = Inr ?s"
    using x st by (simp add: run_sv_def on_conn_def cx_deref_def cx_assertInLoop_def cx_established_def)
  moreover have "sv_inv None ?s"
  proof (rule sv_inv_change [OF inv x, where x' = ?x and m = "sv_connections s" and q = "sv_functors s"])
    show "pend None ?s l f = pend ?h s l f" if "functor_conn f \<noteq> Some c" for l f
      using due [of l f] that by (cases "f = ConnectEstablished c") auto
    have "pend None ?s l (ConnectEstablished c) = 0" "pend None ?s l (RemoveConnectionInLoop c) = 0"
      "pend None ?s l (DestroyConnection c) = 0" for l
      using due [of l "ConnectEstablished c"] due [of l "RemoveConnectionInLoop c"]
        due [of l "DestroyConnection c"] conn_inv_due [OF own, of l] st by simp_all
    then show "conn_inv (pend None ?s) (lp_baseLoop s) (map_of (sv_connections s) (cx_name x) = Some c) c ?x"
      using st unfolding conn_inv_def listed_def by simp
  qed simp_all
  ultimately show ?thesis by blast
qed

lemma run_destroy:
  assumes inv: "sv_inv (Some (tid, DestroyConnection c)) s"
  shows "\<exists>s'. run_sv tid r (DestroyConnection c) s = Inr s' \<and> sv_inv None s'"
proof -
  let ?h = "Some (tid, DestroyConnection c)"
  from in_hand_conn [OF inv] obtain x where x: "sv_conns s c = Some x" by auto
  note own = sv_inv_conn [OF inv x]
  have st: "tid = cx_loop x" "cx_state x = kDisconnected" "\<not> listed s c x" "cx_registered x" "\<not> cx_watched x"
    using own conn_inv_due(3) [OF own, of tid] by (auto simp: conn_inv_def pend_def split: if_splits)
  let ?x = "x\<lparr>cx_registered := False\<rparr>"
  let ?s = "s\<lparr>sv_conns := (sv_conns s)(c \<mapsto> ?x)\<rparr>"
  have due: "pend None ?s l f + of_bool (l = tid \<and> f = DestroyConnection c) = pend ?h s l f" for l f
    by (simp add: pend_in_hand)
  have "run_sv tid r (DestroyConnection c) s = Inr ?s"
    using x st by (simp add: run_sv_def on_conn_def cx_deref_def cx_assertInLoop_def cx_destroyed_def)
  moreover have "sv_inv None ?s"
  proof (rule sv_inv_change [OF inv x, where x' = ?x and m = "sv_connections s" and q = "sv_functors s"])
    show "pend None ?s l f = pend ?h s l f" if "functor_conn f \<noteq> Some c" for l f
      using due [of l f] that by (cases "f = DestroyConnection c") auto
    have "pend None ?s l (ConnectEstablished c) = 0" "pend None ?s l (RemoveConnectionInLoop c) = 0"
      "pend None ?s l (DestroyConnection c) = 0" for l
      using due [of l "ConnectEstablished c"] due [of l "RemoveConnectionInLoop c"]
        due [of l "DestroyConnection c"] conn_inv_due [OF own, of l] st by simp_all
    then show "conn_inv (pend None ?s) (lp_baseLoop s) (map_of (sv_connections s) (cx_name x) = Some c) c ?x"
      using st unfolding conn_inv_def listed_def by simp
  qed simp_all
  ultimately show ?thesis by blast
qed

lemma run_remove:
  assumes inv: "sv_inv (Some (tid, RemoveConnectionInLoop c)) s"
  shows "\<exists>s'. run_sv tid r (RemoveConnectionInLoop c) s = Inr s' \<and> sv_inv None s'"
proof -
  let ?h = "Some (tid, RemoveConnectionInLoop c)"
  from in_hand_conn [OF inv] obtain x where x: "sv_conns s c = Some x" by auto
  note own = sv_inv_conn [OF inv x]
  have st: "tid = lp_baseLoop s" "cx_state x = kDisconnected" "listed s c x" "cx_registered x" "\<not> cx_watched x"
    using own conn_inv_due(2) [OF own, of tid] by (auto simp: conn_inv_def pend_def split: if_splits)
  let ?m = "map_erase (cx_name x) (sv_connections s)"
  let ?t = "s\<lparr>sv_connections := ?m\<rparr>"
  let ?s = "sv_queueInLoop (cx_loop x) (DestroyConnection c) ?t"
  have due: "pend None ?s l f + of_bool (l = tid \<and> f = RemoveConnectionInLoop c) =
      pend ?h s l f + of_bool (l = cx_loop x \<and> f = DestroyConnection c)" for l f
    unfolding pend_queue by (simp add: pend_in_hand)
  have "sv_alive s" using inv by (simp add: sv_inv_def)
  then have "run_sv tid r (RemoveConnectionInLoop c) s = Inr ?s"
    using x st by (simp add: run_sv_def removeConnectionInLoop_def base_assertInLoop_def cx_deref_def listed_def)
  moreover have "sv_inv None ?s"
  proof (rule sv_inv_change [OF inv x, where x' = x and m = ?m])
    show "?s = s\<lparr>sv_conns := (sv_conns s)(c \<mapsto> x), sv_connections := ?m, sv_functors := sv_functors ?s\<rparr>"
      using x by (simp add: sv_queueInLoop_def fun_upd_idem)
    show "pend None ?s l f = pend ?h s l f" if "functor_conn f \<noteq> Some c" for l f
      using due [of l f] that by (cases "f = RemoveConnectionInLoop c"; cases "f = DestroyConnection c") auto
    have "pend None ?s l (RemoveConnectionInLoop c) = 0" for l
      using due [of l "RemoveConnectionInLoop c"] own st by (auto simp: conn_inv_def split: if_splits)
    moreover have "pend None ?s l (DestroyConnection c) = of_bool (l = cx_loop x)" for l
      using due [of l "DestroyConnection c"] own st by (simp add: conn_inv_def)
    moreover have "pend None ?s l (ConnectEstablished c) = 0" for l
      using due [of l "ConnectEstablished c"] own st by (simp add: conn_inv_def)
    ultimately show "conn_inv (pend None ?s) (lp_baseLoop s) (map_of ?m (cx_name x) = Some c) c x"
      using own st by (simp add: conn_inv_def)
  qed simp_all
  ultimately show ?thesis by blast
qed

lemma run_sv_inv:
  assumes inv: "sv_inv (Some (tid, f)) s"
  shows "\<exists>s'. run_sv tid r f s = Inr s' \<and> sv_inv None s'"
  using assms in_hand_conn [OF inv]
  by (cases f) (use run_established run_destroy run_remove in auto)

lemma sv_inv_queue: "sv_inv None (sv_queueInLoop l f s) = sv_inv (Some (l, f)) s"
proof -
  have "names_ok (sv_queueInLoop l f s) = names_ok s" "listed (sv_queueInLoop l f s) = listed s"
    by (simp_all add: names_ok_def listed_def sv_queueInLoop_def fun_eq_iff)
  then show ?thesis unfolding sv_inv_def pend_queue by (simp add: sv_queueInLoop_def pool_ok_def)
qed

lemma sv_inv_take:
  assumes "sv_functors s l = f # fs"
  shows "sv_inv (Some (l, f)) (s\<lparr>sv_functors := (sv_functors s)(l := fs)\<rparr>) = sv_inv None s"
proof -
  let ?s = "s\<lparr>sv_functors := (sv_functors s)(l := fs)\<rparr>"
  have "names_ok ?s = names_ok s" "listed ?s = listed s"
    by (simp_all add: names_ok_def listed_def fun_eq_iff)
  then show ?thesis unfolding sv_inv_def pend_take [where s = s, OF assms] by (simp add: pool_ok_def)
qed

lemma sv_runInLoop_inv:
  assumes "sv_inv (Some (l, f)) s"
  shows "\<exists>s'. sv_runInLoop (run_sv tid r) tid l f s = Inr s' \<and> sv_inv None s'"
  using assms run_sv_inv [of tid f s r] sv_inv_queue [of l f s] by (auto simp: sv_runInLoop_def)

text \<open>The end of a connection.\<close>

lemma handleClose_inv:
  assumes inv: "sv_inv None s" and x: "sv_conns s c = Some x" and "cx_watched x"
  shows "\<exists>s'. cx_handleClose (cx_loop x) c s = Inr s' \<and> sv_inv None s'"
proof -
  note own = sv_inv_conn [OF inv x]
  have st: "cx_state x = kConnected \<or> cx_state x = kDisconnecting" "listed s c x" "cx_registered x"
    using own assms(3) by (auto simp: conn_inv_def)
  let ?x = "x\<lparr>cx_state := kDisconnected, cx_watched := False\<rparr>"
  let ?s = "s\<lparr>sv_conns := (sv_conns s)(c \<mapsto> ?x)\<rparr>"
  let ?f = "RemoveConnectionInLoop c"
  let ?h = "Some (lp_baseLoop s, ?f)"
  have due: "pend ?h ?s l f = pend None s l f + of_bool (l = lp_baseLoop s \<and> f = ?f)" for l f
    by (simp add: pend_in_hand)
  have "sv_inv ?h ?s"
  proof (rule sv_inv_change [OF inv x, where x' = ?x and m = "sv_connections s" and q = "sv_functors s"])
    show "pend ?h ?s l f = pend None s l f" if "functor_conn f \<noteq> Some c" for l f
      using due [of l f] that by (cases "f = ?f") auto
    show "conn_inv (pend ?h ?s) (lp_baseLoop s) (map_of (sv_connections s) (cx_name x) = Some c) c ?x"
      using own st unfolding conn_inv_def due by (auto simp: listed_def)
  qed simp_all
  from sv_runInLoop_inv [OF this, of "cx_loop x" 0] obtain s' where
    "sv_runInLoop (run_sv (cx_loop x) 0) (cx_loop x) (lp_baseLoop s) ?f ?s = Inr s'" "sv_inv None s'" by blast
  moreover have "on_conn (cx_loop x) c cx_closed s = Inr ?s"
    using x st by (auto simp: on_conn_def cx_deref_def cx_assertInLoop_def cx_closed_def)
  moreover have "sv_alive s" using inv by (simp add: sv_inv_def)
  ultimately show ?thesis by (simp add: cx_handleClose_def removeConnection_def)
qed

lemma shutdown_inv:
  assumes inv: "sv_inv None s" and x: "sv_conns s c = Some x" and "cx_state x = kConnected"
  shows "sv_inv None (s\<lparr>sv_conns := (sv_conns s)(c \<mapsto> x\<lparr>cx_state := kDisconnecting\<rparr>)\<rparr>)"
proof (rule sv_inv_change [OF inv x, where m = "sv_connections s" and q = "sv_functors s"])
  let ?x = "x\<lparr>cx_state := kDisconnecting\<rparr>"
  show "conn_inv (pend None (s\<lparr>sv_conns := (sv_conns s)(c \<mapsto> ?x)\<rparr>)) (lp_baseLoop s)
      (map_of (sv_connections s) (cx_name x) = Some c) c ?x"
    using sv_inv_conn [OF inv x] assms(3) by (auto simp: conn_inv_def listed_def)
qed simp_all


section \<open>New connections\<close>

text \<open>The buffer of 32 bytes holds the whole suffix of a name up to the id 99999999.\<close>

lemma conn_name_inj:
  assumes "length hostport \<le> 21" and "1 \<le> i" "i < 10 ^ 8" and "1 \<le> j" "j < 10 ^ 8"
  shows "conn_name nm hostport i = conn_name nm hostport j \<longleftrightarrow> i = j"
proof -
  have whole: "conn_name nm hostport k = nm @ '':'' @ hostport @ ''#'' @ show_int k"
    if "1 \<le> k" "k < 10 ^ 8" for k
  proof -
    have "nat k < 10 ^ 8" using that(2) by simp
    then have "length (show_nat (nat k)) \<le> 8" by (rule length_show_nat_le) simp
    then have "length (show_int k) \<le> 8" using that(1) by (simp add: show_int_def)
    with assms(1) show ?thesis by (simp add: conn_name_def snprintf_def)
  qed
  show ?thesis using assms by (simp add: whole)
qed

text \<open>Beyond it names can collide: the map then drops a live connection.\<close>

lemma conn_name_collision:
  assumes "length hostport = 21"
  shows "conn_name nm hostport (10 ^ 8) = conn_name nm hostport (10 ^ 8 + 1)"
proof -
  have "show_int (10 ^ 8) = ''10000000'' @ ''0''" "show_int (10 ^ 8 + 1) = ''10000000'' @ ''1''"
    by (simp_all add: show_int_def show_nat.simps digit_char_def) (simp_all add: char_of_eq_iff)
  with assms show ?thesis by (simp add: conn_name_def snprintf_def)
qed

lemma new_name_fresh:
  assumes names: "names_ok s" and host: "length (sv_hostport s) \<le> 21" and pos: "1 \<le> sv_nextConnId s"
    and id: "sv_nextConnId s < 10 ^ 8" and y: "sv_conns s d = Some y"
  shows "cx_name y \<noteq> conn_name (sv_name s) (sv_hostport s) (sv_nextConnId s)"
proof -
  from names y obtain i where i: "1 \<le> i" "i < sv_nextConnId s"
    "cx_name y = conn_name (sv_name s) (sv_hostport s) i" unfolding names_ok_def by blast
  with conn_name_inj [OF host i(1) _ pos id, of "sv_name s"] id show ?thesis by simp
qed

lemma names_ok_new:
  assumes names: "names_ok s" and c: "sv_conns s c = None" and pos: "1 \<le> sv_nextConnId s"
    and new: "\<And>d y. sv_conns s d = Some y \<Longrightarrow> cx_name y \<noteq> cx_name x"
    and x: "cx_name x = conn_name (sv_name s) (sv_hostport s) (sv_nextConnId s)"
  shows "names_ok (s\<lparr>lp_next := n, sv_nextConnId := sv_nextConnId s + 1,
    sv_conns := (sv_conns s)(c \<mapsto> x), sv_connections := map_insert (cx_name x) c (sv_connections s)\<rparr>)"
    (is "names_ok ?s")
    unfolding names_ok_def
proof (intro conjI allI impI)
  show "std_map (sv_connections ?s)" using names by (auto simp: names_ok_def)
next
  fix nm d assume "map_of (sv_connections ?s) nm = Some d"
  then have m: "((map_of (sv_connections s))(cx_name x \<mapsto> c)) nm = Some d" by simp
  show "\<exists>y. sv_conns ?s d = Some y \<and> cx_name y = nm"
  proof (cases "nm = cx_name x")
    case True
    with m have "d = c" by simp
    with True show ?thesis by simp
  next
    case False
    with m have "map_of (sv_connections s) nm = Some d" by simp
    with names obtain y where "sv_conns s d = Some y" "cx_name y = nm" unfolding names_ok_def by blast
    with c show ?thesis by (cases "d = c") auto
  qed
next
  fix d y assume "sv_conns ?s d = Some y"
  then have "y = x \<or> sv_conns s d = Some y" by (cases "d = c") simp_all
  then show "\<exists>i. 1 \<le> i \<and> i < sv_nextConnId ?s \<and> cx_name y = conn_name (sv_name ?s) (sv_hostport ?s) i"
  proof
    assume "y = x"
    with x pos show ?thesis by (intro exI [of _ "sv_nextConnId s"]) simp
  next
    assume "sv_conns s d = Some y"
    with names obtain i where "1 \<le> i" "i < sv_nextConnId s" "cx_name y = conn_name (sv_name s) (sv_hostport s) i"
      unfolding names_ok_def by blast
    then show ?thesis by (intro exI [of _ i]) simp
  qed
next
  fix d e y z assume "sv_conns ?s d = Some y" "sv_conns ?s e = Some z" "cx_name y = cx_name z"
  then show "d = e" using names new by (auto simp: names_ok_def split: if_splits)
qed

lemma sv_inv_new:
  assumes inv: "sv_inv None s" and c: "sv_conns s c = None" and "sv_nextConnId s < 10 ^ 8"
    and x: "x = \<lparr>cx_name = conn_name (sv_name s) (sv_hostport s) (sv_nextConnId s), cx_loop = l, cx_sockfd = fd,
      cx_state = kConnecting, cx_registered = False, cx_watched = False\<rparr>"
    and pool: "pool_ok (s\<lparr>lp_next := n\<rparr>)"
  shows "sv_inv (Some (l, ConnectEstablished c)) (s\<lparr>lp_next := n, sv_nextConnId := sv_nextConnId s + 1,
    sv_conns := (sv_conns s)(c \<mapsto> x), sv_connections := map_insert (cx_name x) c (sv_connections s)\<rparr>)"
    (is "sv_inv ?h ?s")
proof -
  have names: "names_ok s" and host: "length (sv_hostport s) \<le> 21" and pos: "1 \<le> sv_nextConnId s"
    using inv by (auto simp: sv_inv_def)
  have new: "cx_name y \<noteq> cx_name x" if "sv_conns s d = Some y" for d y
    using new_name_fresh [OF names host pos assms(3) that] x by simp
  have unlisted: "map_of (sv_connections s) (cx_name x) = None"
    using names new unfolding names_ok_def by (meson not_None_eq)
  have names': "names_ok ?s" by (rule names_ok_new [OF names c pos new]) (simp_all add: x)
  have none: "pend None s l' f = 0" if "functor_conn f = Some c" for l' f
    using inv c that by (simp add: sv_inv_def)
  have due: "pend ?h ?s l' f = pend None s l' f + of_bool (l' = l \<and> f = ConnectEstablished c)" for l' f
    by (simp add: pend_in_hand)
  have "conn_inv (pend ?h ?s) (lp_baseLoop ?s) (listed ?s d y) d y" if y: "sv_conns ?s d = Some y" for d y
  proof (cases "d = c")
    case True
    with y x have "y = x" "listed ?s d y" by (simp_all add: listed_def)
    with True x none show ?thesis by (simp add: conn_inv_def pend_in_hand)
  next
    case False
    then have d: "sv_conns s d = Some y" using y by simp
    have "listed ?s d y = listed s d y" using new [OF d] by (simp add: listed_def)
    moreover have "conn_inv (pend ?h ?s) b k d y = conn_inv (pend None s) b k d y" for b k
      using False unfolding due by (intro conn_inv_cong) auto
    ultimately show ?thesis using sv_inv_conn [OF inv d] by simp
  qed
  moreover have "pend ?h ?s l' f = 0" if "sv_conns ?s d = None" "functor_conn f = Some d" for d l' f
  proof -
    from that have "d \<noteq> c" "sv_conns s d = None" by (auto split: if_splits)
    with that(2) inv show ?thesis unfolding due by (auto simp: sv_inv_def)
  qed
  moreover have "pend ?h ?s l' AcceptorListen = 0" for l' using inv unfolding due by (simp add: sv_inv_def)
  ultimately show ?thesis using inv names' pool by (simp add: sv_inv_def pool_ok_def)
qed

lemma run_sv_frame: "run_sv tid r f s = Inr s' \<Longrightarrow> sv_nextConnId s' = sv_nextConnId s"
  by (cases f) (auto simp: run_sv_def on_conn_def removeConnectionInLoop_def Acceptor_listen_def
      sv_queueInLoop_def Let_def rbind_eq_Inr_conv split: if_splits)

lemma sv_runInLoop_frame: "sv_runInLoop (run_sv tid r) tid l f s = Inr s' \<Longrightarrow> sv_nextConnId s' = sv_nextConnId s"
  by (auto simp: sv_runInLoop_def sv_queueInLoop_def dest: run_sv_frame split: if_splits)

lemma newConnection_inv:
  assumes inv: "sv_inv None s" and c: "sv_conns s c = None" and id: "sv_nextConnId s < 10 ^ 8"
  shows "\<exists>s'. newConnection (lp_baseLoop s) c fd peer s = Inr s' \<and> sv_inv None s' \<and>
    sv_nextConnId s' = sv_nextConnId s + 1"
proof -
  have "pool_ok s" using inv by (simp add: sv_inv_def)
  from getNextLoop_ok [OF this refl] obtain l n where
    g: "getNextLoop (lp_baseLoop s) s = Inr (l, s\<lparr>lp_next := n\<rparr>)" "pool_ok (s\<lparr>lp_next := n\<rparr>)" by auto
  let ?x = "\<lparr>cx_name = conn_name (sv_name s) (sv_hostport s) (sv_nextConnId s), cx_loop = l, cx_sockfd = fd,
      cx_state = kConnecting, cx_registered = False, cx_watched = False\<rparr>"
  let ?s = "s\<lparr>lp_next := n, sv_nextConnId := sv_nextConnId s + 1,
    sv_conns := (sv_conns s)(c \<mapsto> ?x), sv_connections := map_insert (cx_name ?x) c (sv_connections s)\<rparr>"
  from sv_runInLoop_inv [OF sv_inv_new [OF inv c id refl g(2)], of "lp_baseLoop s" 0] obtain s' where
    s': "sv_runInLoop (run_sv (lp_baseLoop s) 0) (lp_baseLoop s) l (ConnectEstablished c) ?s = Inr s'"
      "sv_inv None s'" by blast
  have "sv_nextConnId s' = sv_nextConnId s + 1" using sv_runInLoop_frame [OF s'(1)] by simp
  with s' g(1) id show ?thesis by (simp add: newConnection_def base_assertInLoop_def Let_def)
qed

lemma sv_inv_acceptor: "sv_inv h (s\<lparr>sv_acceptor := a\<rparr>) = sv_inv h s"
  by (simp add: sv_inv_def names_ok_def listed_def pool_ok_def)

lemma start_inv:
  assumes inv: "sv_inv None s"
  shows "\<exists>s'. sv_start (lp_baseLoop s) cb new_loop 0 s = Inr s' \<and> sv_inv None s' \<and> sv_nextConnId s' = sv_nextConnId s"
proof -
  have listen: "\<exists>s'. (if \<not> ac_listenning (sv_acceptor t)
      then sv_runInLoop (run_sv (lp_baseLoop t) 0) (lp_baseLoop t) (lp_baseLoop t) AcceptorListen t else Inr t) = Inr s' \<and>
      sv_inv None s' \<and> sv_nextConnId s' = sv_nextConnId t" if "sv_inv None t" for t
  proof -
    have "sv_alive t" using that by (simp add: sv_inv_def)
    with that show ?thesis
      by (simp add: sv_runInLoop_def run_sv_def Acceptor_listen_def base_assertInLoop_def Socket_listen_def
          listenOrDie_def sv_inv_acceptor)
  qed
  show ?thesis
  proof (cases "sv_started s")
    case True
    with listen [OF inv] show ?thesis by (simp add: sv_start_def)
  next
    case False
    let ?s = "s\<lparr>sv_started := True\<rparr>"
    have ok: "pool_ok ?s" "\<not> lp_started ?s" using inv False by (auto simp: sv_inv_def pool_ok_def)
    from pool_start_eq [OF ok, of "lp_baseLoop s" cb new_loop] obtain ls ins where
      t: "pool_start (lp_baseLoop s) cb new_loop ?s = Inr (?s\<lparr>lp_started := True, lp_loops := ls, lp_inits := ins\<rparr>)"
      by simp
    let ?t = "?s\<lparr>lp_started := True, lp_loops := ls, lp_inits := ins\<rparr>"
    have "pend None ?t = pend None s" "listed ?t = listed s" "names_ok ?t = names_ok s"
      by (simp_all add: pend_def listed_def names_ok_def fun_eq_iff)
    moreover have "pool_ok ?t" using ok by (simp add: pool_ok_def)
    ultimately have "sv_inv None ?t" using inv by (simp add: sv_inv_def)
    from listen [OF this] obtain s' where "sv_inv None s'" "sv_nextConnId s' = sv_nextConnId s"
      "(if \<not> ac_listenning (sv_acceptor ?t)
        then sv_runInLoop (run_sv (lp_baseLoop ?t) 0) (lp_baseLoop ?t) (lp_baseLoop ?t) AcceptorListen ?t
        else Inr ?t) = Inr s'" by auto
    moreover have "lp_baseLoop ?t = lp_baseLoop s" by simp
    ultimately show ?thesis using t False by (simp only: sv_start_def rbind_Inr if_True not_False_eq_True simp_thms) blast
  qed
qed

definition event_ok :: "sv_event \<Rightarrow> bool" where
  \<comment> \<open>\<open>accept\<close> fails with the errors it documents for a healthy socket only.\<close>
  "event_ok ev = (case ev of
     Accept c ans \<Rightarrow> ans_connfd ans \<ge> 0 \<or> ans_errno ans \<in> set accept_errnos | _ \<Rightarrow> True)"

lemma sv_step_inv:
  assumes inv: "sv_inv None s" and id: "sv_nextConnId s < 10 ^ 8" and ok: "event_ok ev"
  shows "\<exists>s'. sv_step le ev s = Inr s' \<and> sv_inv None s' \<and> sv_nextConnId s' \<le> sv_nextConnId s + 1"
proof (cases ev)
  case (Start cb new_loop)
  with start_inv [OF inv, of cb new_loop] inv show ?thesis by (fastforce simp: sv_step_def)
next
  case (Accept c ans)
  show ?thesis
  proof (cases "ac_reading (sv_acceptor s) \<and> sv_conns s c = None")
    case True
    have acc: "Socket_accept (ans_connfd ans) (ans_errno ans) a p =
        Inr (ans_connfd ans, ans_errno ans, if ans_connfd ans > 0 then a else p)" for a p
      using ok Accept by (auto simp: Socket_accept_def sockets_accept_def event_ok_def)
    show ?thesis
      using True Accept newConnection_inv [OF inv _ id, of c] inv
      by (auto simp: sv_step_def Acceptor_handleRead_def base_assertInLoop_def acc Let_def EMFILE_def
          sv_inv_acceptor split: if_splits) (metis order_refl)+
  next
    case False
    with Accept inv show ?thesis by (auto simp: sv_step_def)
  qed
next
  case (RunFunctor l)
  show ?thesis
  proof (cases "sv_functors s l")
    case Nil
    with RunFunctor inv show ?thesis by (simp add: sv_step_def)
  next
    case (Cons f fs)
    from run_sv_inv [of l f "s\<lparr>sv_functors := (sv_functors s)(l := fs)\<rparr>" 0] sv_inv_take [OF Cons] inv
    obtain s' where s': "run_sv l 0 f (s\<lparr>sv_functors := (sv_functors s)(l := fs)\<rparr>) = Inr s'" "sv_inv None s'"
      by blast
    from run_sv_frame [OF s'(1)] s' Cons RunFunctor show ?thesis by (simp add: sv_step_def)
  qed
next
  case (UserShutdown c)
  with inv shutdown_inv [OF inv, of c] show ?thesis by (auto simp: sv_step_def split: option.split)
next
  case (PeerClose c)
  show ?thesis
  proof (cases "\<exists>x. sv_conns s c = Some x \<and> cx_registered x \<and> cx_watched x")
    case True
    then obtain x where x: "sv_conns s c = Some x" "cx_registered x" "cx_watched x" by blast
    from handleClose_inv [OF inv x(1,3)] obtain s' where
      s': "cx_handleClose (cx_loop x) c s = Inr s'" "sv_inv None s'" by blast
    then have "sv_nextConnId s' = sv_nextConnId s"
      by (auto simp: cx_handleClose_def on_conn_def removeConnection_def rbind_eq_Inr_conv
          dest!: sv_runInLoop_frame split: if_splits)
    with s' x PeerClose show ?thesis by (simp add: sv_step_def)
  next
    case False
    with PeerClose inv show ?thesis by (auto simp: sv_step_def split: option.split)
  qed
qed


section \<open>Any run of a server\<close>

lemma sv_run_inv:
  "sv_inv None s \<Longrightarrow> \<forall>ev\<in>set evs. event_ok ev \<Longrightarrow> sv_nextConnId s + int (length evs) < 10 ^ 8 \<Longrightarrow>
     \<exists>s'. rfold (sv_step le) evs s = Inr s' \<and> sv_inv None s'"
proof (induction evs arbitrary: s)
  case (Cons ev evs)
  then obtain u where u: "sv_step le ev s = Inr u" "sv_inv None u" "sv_nextConnId u \<le> sv_nextConnId s + 1"
    using sv_step_inv [of s ev le] by auto
  with Cons.IH [OF u(2)] Cons.prems show ?case by simp
qed simp

lemma sv_inv_start:
  assumes "new_TcpServer le b addr nm sockfd idleFd bind_ret = Inr s" and "sv_setThreadNum n s = Inr s'"
  shows "sv_inv None s' \<and> sv_nextConnId s' = 1"
proof -
  from assms(1) obtain acc where s: "s = EventLoopThreadPool.extend (new_EventLoopThreadPool b)
      (TcpServer.TcpServer.fields True (inet_ntop le (sin_addr addr) @ '':'' @ show_nat (unat (networkToHost16 le (sin_port addr))))
        nm acc False 1 [] (\<lambda>_. None) (\<lambda>_. []))"
    by (auto simp: new_TcpServer_def toIpPort_eq(1) rbind_eq_Inr_conv)
  from assms(2) have "s' = s\<lparr>lp_numThreads := n\<rparr>"
    by (auto simp: sv_setThreadNum_def pool_setThreadNum_def rbind_eq_Inr_conv)
  with s toIpPort_eq(2) [of le addr] show ?thesis
    by (simp add: sv_inv_def names_ok_def pool_ok_def pend_def EventLoopThreadPool.defs TcpServer.TcpServer.defs
        new_EventLoopThreadPool_def)
qed

lemma sv_inv_quiescent:
  assumes inv: "sv_inv None s" and idle: "\<forall>l. sv_functors s l = []" and x: "sv_conns s c = Some x"
  shows "cx_watched x = listed s c x" "cx_registered x = listed s c x"
proof -
  have zero: "pend None s l f = 0" for l f using idle by (simp add: pend_def)
  note own = sv_inv_conn [OF inv x]
  have "cx_state x \<noteq> kConnecting" "cx_state x = kDisconnected \<longrightarrow> \<not> listed s c x \<and> \<not> cx_registered x"
    using conn_inv_due [OF own, of "cx_loop x"] conn_inv_due(2) [OF own, of "lp_baseLoop s"]
    by (auto simp: zero)
  with own show "cx_watched x = listed s c x" "cx_registered x = listed s c x"
    by (cases "cx_state x"; simp add: conn_inv_def)+
qed

text \<open>
  C8. For any number of threads and any interleaving of accepts, functors, shutdowns and hang-ups (as long as
  fewer than a hundred million connections are made), no assertion of the server or of a connection fails, no name
  is given twice, a listed connection exists under its own name, and every connection is listed until it is closed;
  as long as the poller knows its channel, it is listed or its destruction is due. When no functor is
  pending, the open connections are exactly the listed ones and the poller knows no other.
\<close>

theorem server_correct:
  assumes "new_TcpServer le b addr nm sockfd idleFd bind_ret = Inr s0" and "sv_setThreadNum n s0 = Inr s1"
    and "\<forall>ev\<in>set evs. event_ok ev" and "length evs < 10 ^ 8 - 1"
  shows "\<exists>s. rfold (sv_step le) evs s1 = Inr s \<and> std_map (sv_connections s) \<and>
    (\<forall>nm c. map_of (sv_connections s) nm = Some c \<longrightarrow> (\<exists>x. sv_conns s c = Some x \<and> cx_name x = nm)) \<and>
    (\<forall>c d x y. sv_conns s c = Some x \<longrightarrow> sv_conns s d = Some y \<longrightarrow> cx_name x = cx_name y \<longrightarrow> c = d) \<and>
    (\<forall>c x. sv_conns s c = Some x \<longrightarrow>
       (cx_state x \<noteq> kDisconnected \<longrightarrow> listed s c x) \<and>
       (cx_registered x \<longrightarrow> listed s c x \<or> DestroyConnection c \<in> set (sv_functors s (cx_loop x))) \<and>
       ((\<forall>l. sv_functors s l = []) \<longrightarrow> cx_watched x = listed s c x \<and> cx_registered x = listed s c x))"
proof -
  from sv_inv_start [OF assms(1,2)] have "sv_inv None s1" "sv_nextConnId s1 + int (length evs) < 10 ^ 8"
    using assms(4) by auto
  from sv_run_inv [OF this(1) assms(3) this(2)] obtain s where
    s: "rfold (sv_step le) evs s1 = Inr s" "sv_inv None s" by blast
  have "names_ok s" using s(2) by (simp add: sv_inv_def)
  moreover have "cx_state x \<noteq> kDisconnected \<longrightarrow> listed s c x"
    "cx_registered x \<longrightarrow> listed s c x \<or> DestroyConnection c \<in> set (sv_functors s (cx_loop x))"
    if x: "sv_conns s c = Some x" for c x
  proof -
    note own = sv_inv_conn [OF s(2) x]
    show st: "cx_state x \<noteq> kDisconnected \<longrightarrow> listed s c x" using own by (simp add: conn_inv_def)
    show "cx_registered x \<longrightarrow> listed s c x \<or> DestroyConnection c \<in> set (sv_functors s (cx_loop x))"
      using conn_inv_due(3) [OF own, of "cx_loop x"] st count_notin [of "DestroyConnection c"]
      by (fastforce simp: pend_def)
  qed
  ultimately show ?thesis
    using s sv_inv_quiescent [OF s(2)] unfolding names_ok_def by (intro exI [of _ s]) blast
qed

theorem server_correct_witness:
  "\<exists>s0 s1 s. new_TcpServer True 0 (InetAddress_port True 80) ''s'' 3 4 0 = Inr s0 \<and>
    sv_setThreadNum 1 s0 = Inr s1 \<and>
    rfold (sv_step True) [Start False Suc, Accept 5 \<lparr>ans_connfd = 6, ans_errno = 0,
      ans_addr = InetAddress_port True 99, ans_extra = 0, ans_idleFd = 0\<rparr>,
      RunFunctor 1, PeerClose 5, RunFunctor 0, RunFunctor 1] s1 = Inr s \<and> std_map (sv_connections s)"
proof -
  obtain s0 where s0: "new_TcpServer True 0 (InetAddress_port True 80) ''s'' 3 4 0 = Inr s0"
    by (simp add: new_TcpServer_def new_Acceptor_def createNonblockingOrDie_def Socket_bindAddress_def
        bindOrDie_def toIpPort_eq(1))
  obtain s1 where s1: "sv_setThreadNum 1 s0 = Inr s1" by (simp add: sv_setThreadNum_def)
  show ?thesis
    using server_correct [OF s0 s1, of "[Start False Suc, Accept 5 \<lparr>ans_connfd = 6, ans_errno = 0,
      ans_addr = InetAddress_port True 99, ans_extra = 0, ans_idleFd = 0\<rparr>,
      RunFunctor 1, PeerClose 5, RunFunctor 0, RunFunctor 1]"] s0 s1
    by (simp only: list.set ball_simps event_ok_def sv_event.case) auto
qed

text \<open>After the destruction of the server, the end of a connection on another loop calls into it.\<close>

lemma dtor_then_close:
  assumes "TcpServer_dtor b s = Inr s'" and x: "sv_conns s' c = Some x" "cx_registered x" "cx_watched x"
    and "cx_state x = kConnected"
  shows "sv_step le (PeerClose c) s' = Inl (Undefined ''TcpServer has been destroyed'')"
proof -
  have "\<not> sv_alive s'" using assms(1) by (auto simp: TcpServer_dtor_def rbind_eq_Inr_conv)
  with x assms(5) show ?thesis
    by (simp add: sv_step_def cx_handleClose_def on_conn_def cx_deref_def cx_assertInLoop_def cx_closed_def
        removeConnection_def)
qed


section \<open>The life of a connection, and the connection\<close>

text \<open>
  What the server sees of a connection in detail: its state, and what the loop knows of its channel.
\<close>

definition same_life :: "conn \<Rightarrow> TcpConnection \<Rightarrow> bool" where
  "same_life x s \<longleftrightarrow> cx_state x = tc_state s \<and> cx_registered x = registered (tc_channel s) s \<and>
     cx_watched x = (registered (tc_channel s) s \<and> interest (tc_channel s) s \<noteq> 0)"

text \<open>The invariant of a connection determines the channel by the state.\<close>

lemma conn_channel:
  assumes ok: "conn_ok tid fs s"
  shows "tc_state s = kConnecting \<Longrightarrow> \<not> registered (tc_channel s) s"
    "tc_state s = kConnected \<or> tc_state s = kDisconnecting \<Longrightarrow>
      registered (tc_channel s) s \<and> interest (tc_channel s) s \<noteq> 0"
    "tc_state s = kDisconnected \<Longrightarrow>
      interest (tc_channel s) s = 0 \<and> registered (tc_channel s) s = (ConnectDestroyed \<in> set (todo fs s))"
proof -
  have link: "link_ok (tc_state s) (pending_out s = []) (loop_view tid (tc_channel s) s)"
    and en: "enlisted tid s = registered (tc_channel s) s"
    and cnt: "count_list (todo fs s) ConnectDestroyed = (if tc_state s = kDisconnected \<and> enlisted tid s then 1 else 0)"
    using ok by (auto simp: conn_ok_def fin_ok_def enlisted_def loop_view_def)
  show "\<not> registered (tc_channel s) s" if "tc_state s = kConnecting"
    using link that by (auto simp: loop_view_def)
  show "registered (tc_channel s) s \<and> interest (tc_channel s) s \<noteq> 0"
    if "tc_state s = kConnected \<or> tc_state s = kDisconnecting"
    using link that by (cases "pending_out s = []") (auto simp: loop_view_def)
  show "interest (tc_channel s) s = 0 \<and> registered (tc_channel s) s = (ConnectDestroyed \<in> set (todo fs s))"
    if "tc_state s = kDisconnected"
  proof
    show "interest (tc_channel s) s = 0" using link that by (auto simp: loop_view_def)
    show "registered (tc_channel s) s = (ConnectDestroyed \<in> set (todo fs s))"
      using cnt en that count_list_0_iff [of "todo fs s" ConnectDestroyed]
      by (cases "registered (tc_channel s) s") auto
  qed
qed

lemma handleClose_due:
  assumes "handleClose tid app s = Inr s'"
  shows "ConnectDestroyed \<in> set (todo fs s')"
proof -
  from assms obtain u where "s' = queueInLoop tid ConnectDestroyed u"
    unfolding handleClose_def closeCallback_def Let_def by (auto elim!: rbind_InrE)
  with queueInLoop_eq [of tid ConnectDestroyed u] show ?thesis by (auto simp: todo_def)
qed

lemma life_established:
  assumes ok: "conn_ok tid [] s" and life: "same_life x s" and est: "cx_established x = Inr x'"
  shows "\<exists>s'. connectEstablished tid app s = Inr s' \<and> conn_ok tid [] s' \<and>
    (same_life x' s' \<or> same_life (x'\<lparr>cx_state := kDisconnecting\<rparr>) s')"
proof -
  have st: "tc_state s = kConnecting" and x': "x' = x\<lparr>cx_state := kConnected, cx_registered := True, cx_watched := True\<rparr>"
    using life est by (auto simp: cx_established_def rbind_eq_Inr_conv same_life_def)
  from connectEstablished_conn [of tid s app] ok st obtain s' where
    s': "connectEstablished tid app s = Inr s'" "conn_ok tid [] s'" "tc_state s' = kConnected \<or> tc_state s' = kDisconnecting"
    by blast
  have "same_life x' s' \<or> same_life (x'\<lparr>cx_state := kDisconnecting\<rparr>) s'"
    using conn_channel(2) [OF s'(2,3)] s'(3) x' by (auto simp: same_life_def)
  with s' show ?thesis by blast
qed

lemma life_closed:
  assumes ok: "conn_ok tid fs s" and life: "same_life x s" and closed: "cx_closed x = Inr x'"
  shows "\<exists>s'. handleClose tid app s = Inr s' \<and> conn_ok tid fs s' \<and> same_life x' s'"
proof -
  have st: "tc_state s = kConnected \<or> tc_state s = kDisconnecting"
    and x': "x' = x\<lparr>cx_state := kDisconnected, cx_watched := False\<rparr>"
    using life closed by (auto simp: cx_closed_def rbind_eq_Inr_conv same_life_def)
  from handleClose_conn [OF ok st] obtain s' where
    s': "handleClose tid app s = Inr s'" "conn_ok tid fs s'" by blast
  note due = handleClose_due [OF s'(1), of fs]
  have "tc_state s' = kDisconnected"
    using s'(2) due count_list_0_iff [of "todo fs s'" ConnectDestroyed]
    by (auto simp: conn_ok_def fin_ok_def split: if_splits)
  with conn_channel(3) [OF s'(2)] conn_channel(2) [OF ok st] due x' life have "same_life x' s'"
    by (auto simp: same_life_def)
  with s' show ?thesis by blast
qed

lemma life_destroyed:
  assumes ok: "conn_ok tid (ConnectDestroyed # fs') s" and life: "same_life x s" and dest: "cx_destroyed x = Inr x'"
  shows "\<exists>s'. connectDestroyed tid app s = Inr s' \<and> conn_ok tid fs' s' \<and> same_life x' s'"
proof -
  have st: "tc_state s = kDisconnected"
    using ok by (auto simp: conn_ok_def fin_ok_def todo_def split: if_splits)
  with dest life have x': "x' = x\<lparr>cx_registered := False\<rparr>" "\<not> cx_watched x"
    by (auto simp: cx_destroyed_def rbind_eq_Inr_conv same_life_def)
  from remove_conn [of tid fs' s] ok obtain s' where s': "channel_remove tid (tc_channel s) s = Inr s'"
    "conn_ok tid fs' s'" "\<not> enlisted tid s'" "tc_state s' = kDisconnected" by blast
  then have "\<not> registered (tc_channel s') s'" by (simp add: enlisted_def loop_view_def)
  with s' x' life st have "same_life x' s'" by (simp add: same_life_def)
  moreover have "connectDestroyed tid app s = Inr s'"
    using s'(1) st conn_thread(3) [OF ok] by (simp add: connectDestroyed_def)
  ultimately show ?thesis
    using s'(2) by blast
qed

text \<open>
  C9. The life the server gives its connections is the life they lead: establishing, closing and destroying
  a connection succeeds whenever the abstract operation does, whatever the user callbacks send or
  shut down, and leaves it where that operation says (already shutting down, at most, after its establishment).
\<close>

theorem connection_life:
  assumes ok: "conn_ok tid fs s" and life: "same_life x s"
  shows "(fs = [] \<and> cx_established x = Inr x' \<longrightarrow> (\<exists>s'. connectEstablished tid app s = Inr s' \<and> conn_ok tid [] s' \<and>
      (same_life x' s' \<or> same_life (x'\<lparr>cx_state := kDisconnecting\<rparr>) s'))) \<and>
    (cx_closed x = Inr x' \<longrightarrow> (\<exists>s'. handleClose tid app s = Inr s' \<and> conn_ok tid fs s' \<and> same_life x' s')) \<and>
    (fs = ConnectDestroyed # fs' \<and> cx_destroyed x = Inr x' \<longrightarrow>
      (\<exists>s'. connectDestroyed tid app s = Inr s' \<and> conn_ok tid fs' s' \<and> same_life x' s'))"
  using ok life life_established life_closed life_destroyed by (intro conjI impI; (elim conjE)?) blast+

theorem connection_life_witness:
  "\<exists>s'. connectEstablished 77 echo_app idle_conn = Inr s' \<and> conn_ok 77 [] s' \<and> tc_state s' \<noteq> kConnecting"
proof -
  let ?x = "\<lparr>cx_name = [], cx_loop = 0, cx_sockfd = 5, cx_state = kConnecting, cx_registered = False, cx_watched = False\<rparr>"
  have "tc_state idle_conn = kConnecting" by (simp add: idle_conn_def)
  then have "same_life ?x idle_conn"
    using conn_channel(1) [OF idle_conn_ok] by (simp add: same_life_def)
  moreover obtain x' where "cx_established ?x = Inr x'" "cx_state x' = kConnected" by (simp add: cx_established_def)
  ultimately show ?thesis
    using connection_life [OF idle_conn_ok, of ?x x' echo_app] by (auto simp: same_life_def)
qed

end
