(* ===== verification/HttpConnection.thy ===== *)
theory HttpConnection
  imports HttpServer
begin

text \<open>
  An HTTP connection end to end: the read event of \<open>TcpConnection\<close> with \<open>HttpServer::onMessage\<close> as its
  message callback and the \<open>HttpContext\<close> as its context. The bytes of a request come in chunks, each what
  one \<open>readv\<close> returns; the theorem follows them through the input buffer, the parser, the user's
  callback and the response to the bytes the kernel is given.
\<close>

section \<open>\<open>onMessage\<close> as the message callback\<close>

definition http_app ::
  "(HttpStatusCode \<Rightarrow> string) \<Rightarrow> http_callback \<Rightarrow> Timestamp \<Rightarrow> HttpContext \<Rightarrow> tcp_app" where
  "http_app bad cb t ctx = \<lparr>app_connection = (\<lambda>s. []),
     app_message = (\<lambda>s. case http_onMessage bad cb t (tc_inputBuffer s) ctx of
         Some (Inr (buf, ctx', cs)) \<Rightarrow> (readableBytes (tc_inputBuffer s) - readableBytes buf, cs)
       | _ \<Rightarrow> (0, [])),
     app_writeComplete = None, app_highWaterMark = None\<rparr>"

text \<open>
  A read event; \<open>None\<close>: \<open>onMessage\<close> does not return. The connection and its context come out.
\<close>

definition http_handleRead ::
  "int \<Rightarrow> (HttpStatusCode \<Rightarrow> string) \<Rightarrow> http_callback \<Rightarrow> Timestamp \<Rightarrow> io_read \<Rightarrow> TcpConnection \<times> HttpContext \<Rightarrow>
     (TcpConnection \<times> HttpContext) result option" where
  "http_handleRead tid bad cb t io = (\<lambda>(s, ctx).
     case readFd io (tc_inputBuffer s) of
       Inl e \<Rightarrow> Some (Inl e)
     | Inr (n, errno, buf) \<Rightarrow>
         (case (if n > 0 then http_onMessage bad cb t buf ctx else Some (Inr (buf, ctx, []))) of
            None \<Rightarrow> None
          | Some (Inl e) \<Rightarrow> Some (Inl e)
          | Some (Inr (buf', ctx', cs)) \<Rightarrow>
              Some (rbind (tcp_handleRead tid (http_app bad cb t ctx) io s) (\<lambda>s. Inr (s, ctx')))))"

fun http_reads ::
  "int \<Rightarrow> (HttpStatusCode \<Rightarrow> string) \<Rightarrow> http_callback \<Rightarrow> Timestamp \<Rightarrow> string list \<Rightarrow> TcpConnection \<times> HttpContext \<Rightarrow>
     (TcpConnection \<times> HttpContext) result option" where
  "http_reads tid bad cb t [] x = Some (Inr x)"
| "http_reads tid bad cb t (data # chunks) x =
     (case http_handleRead tid bad cb t (Got data) x of
        None \<Rightarrow> None
      | Some (Inl e) \<Rightarrow> Some (Inl e)
      | Some (Inr x) \<Rightarrow> http_reads tid bad cb t chunks x)"

section \<open>One read\<close>

lemma length_readable: "buffer_ok b \<Longrightarrow> readableBytes b = length (contents b)"
  by (simp add: length_contents)

text \<open>The input the next message sees is what the parser left.\<close>

lemma http_read_runs:
  fixes cb :: http_callback
  assumes ok: "conn_ok tid [] s" and ctx: "awaiting ctx" and data: "data \<noteq> []"
    and spec: "parse_spec t (contents (tc_inputBuffer s) @ data) ctx = Inr (True, rest, c)"
    and suffix: "\<exists>pre. contents (tc_inputBuffer s) @ data = pre @ rest"
  defines "cs \<equiv> if gotAll c then http_reply cb (hc_request c) else []"
  shows "\<exists>b. buffer_ok b \<and> contents b = rest \<and> http_handleRead tid bad cb t (Got data) (s, ctx) =
    Some (rbind (run_tcp_commands tid (http_app bad cb t ctx) cs (s\<lparr>tc_inputBuffer := b\<rparr>))
      (\<lambda>s. Inr (s, if gotAll c then hc_reset c else c)))"
proof -
  have buf: "buffer_ok (tc_inputBuffer s)" using ok by (simp add: conn_ok_def data_ok_def)
  from readFd_correct [OF buf, of data] obtain b0 where
    b0: "readFd (Got data) (tc_inputBuffer s) = Inr (int (length data), None, b0)" "buffer_ok b0"
      "contents b0 = contents (tc_inputBuffer s) @ data" by blast
  from http_onMessage_cases [OF b0(2) ctx, where t = t and bad = bad and cb = cb] spec b0(3) obtain b1 where
    b1: "buffer_ok b1" "contents b1 = rest"
      "http_onMessage bad cb t b0 ctx = Some (Inr (b1, if gotAll c then hc_reset c else c, cs))"
    by (auto simp: cs_def)
  from suffix obtain pre where pre: "contents b0 = pre @ rest" by (auto simp: b0(3))
  have n: "readableBytes b0 - readableBytes b1 = length pre" "length pre \<le> readableBytes b0"
    using pre b1 b0(2) by (simp_all add: length_readable)
  from retrieve_correct [OF b0(2) n(2)] obtain b where
    b: "retrieve (length pre) b0 = Inr b" "buffer_ok b" "contents b = rest"
    by (auto simp: pre)
  have "messageCallback tid (http_app bad cb t ctx) (s\<lparr>tc_inputBuffer := b0\<rparr>) =
      run_tcp_commands tid (http_app bad cb t ctx) cs (s\<lparr>tc_inputBuffer := b\<rparr>)"
    using b1(3) b(1) n by (simp add: messageCallback_def http_app_def)
  then have "tcp_handleRead tid (http_app bad cb t ctx) (Got data) s =
      run_tcp_commands tid (http_app bad cb t ctx) cs (s\<lparr>tc_inputBuffer := b\<rparr>)"
    using b0(1) data conn_thread(3) [OF ok] by (simp add: tcp_handleRead_def)
  with b0(1) b1(3) b data show ?thesis by (auto simp: http_handleRead_def)
qed

lemma parse_spec_suffix:
  "parse_spec t xs c = Inr (ok, rest, c') \<Longrightarrow> \<exists>pre. xs = pre @ rest"
proof (induction t xs c rule: parse_spec.induct)
  case (1 t xs c)
  show ?case
  proof (cases "awaiting c \<and> has_line xs")
    case False
    with "1.prems" show ?thesis by (auto simp: parse_spec.simps [of t xs])
  next
    case True
    with "1.prems" obtain k c1 where k: "line_spec t (first_line xs) c = Inr (k, c1)"
      by (auto simp: parse_spec.simps [of t xs] elim: rbind_InrE)
    show ?thesis
    proof (cases k)
      case False
      with "1.prems" True k show ?thesis by (auto simp: parse_spec.simps [of t xs])
    next
      case k': True
      with "1.prems" True k have "parse_spec t (after_line xs) c1 = Inr (ok, rest, c')"
        by (simp add: parse_spec.simps [of t xs])
      from "1.IH" [OF True k' this] obtain pre where "after_line xs = pre @ rest" by blast
      then show ?thesis using has_line_split(1) True by (metis append_assoc)
    qed
  qed
qed

text \<open>What the response does to the connection.\<close>

lemma reply_conn:
  fixes cb :: http_callback and req :: HttpRequest
  assumes ok: "conn_ok tid [] s" and st: "tc_state s = kConnected"
  defines "r \<equiv> http_response cb req"
  shows "\<exists>s' acc. run_tcp_commands tid app (http_reply cb req) s = Inr s' \<and> conn_ok tid [] s' \<and>
    tc_sent s' = tc_sent s @ [(response_text r, acc)] \<and>
    (\<not> acc \<longrightarrow> tc_kernel s (tc_writes s) (tc_fin s) (length (response_text r)) = WriteErr EPIPE) \<and>
    tc_state s' = (if rs_closeConnection r then kDisconnecting else kConnected) \<and>
    tc_inputBuffer s' = tc_inputBuffer s"
proof -
  have view: "open_view tid s (pending_out s = [])" and data: "data_ok s"
    using ok link_open [of "tc_state s"] st by (auto simp: conn_ok_def)
  from sendInLoop_conn [OF ok, of app "response_text r"] st obtain u acc where
    u: "sendInLoop tid app (response_text r) s = Inr u" "conn_ok tid [] u"
      "tc_sent u = tc_sent s @ [(response_text r, acc)]"
      "\<not> acc \<longrightarrow> tc_kernel s (tc_writes s) (tc_fin s) (length (response_text r)) = WriteErr EPIPE" by auto
  from sendInLoop_open [OF _ view data, of app "response_text r"] st u(1) have
    same: "tc_state u = kConnected" "tc_inputBuffer u = tc_inputBuffer s"
    by (auto simp: sent_one_def same_conn_def)
  have send: "send tid app (response_text r) s = Inr u"
    using st u(1) conn_thread(2) [OF ok, of tid] by (simp add: send_def)
  let ?u = "u\<lparr>tc_state := kDisconnecting\<rparr>"
  note dis = conn_disconnecting [OF u(2) same(1)]
  obtain c where c: "shutdownInLoop tid ?u = Inr (if \<not> isWriting c then ?u\<lparr>tc_fin := True\<rparr> else ?u)"
    using conn_thread(3,4) [OF dis] by (auto simp: shutdownInLoop_def)
  from shutdownInLoop_conn [OF dis] c have "conn_ok tid [] (if \<not> isWriting c then ?u\<lparr>tc_fin := True\<rparr> else ?u)"
    by auto
  moreover have "shutdown tid u = shutdownInLoop tid ?u"
    using same(1) conn_thread(2) [OF dis, of tid] by (simp add: shutdown_def runInLoop_def)
  ultimately show ?thesis using send u same c
    by (auto simp: http_reply_def r_def [symmetric] run_tcp_command_def)
qed

section \<open>A request in chunks\<close>

lemma http_reads_run:
  assumes "conn_ok tid [] s" "tc_state s = kConnected" "awaiting ctx"
    and "parse_spec t (contents (tc_inputBuffer s) @ concat chunks) ctx = Inr (True, [], c)" "gotAll c"
    and "[] \<notin> set chunks" "chunks \<noteq> []"
  shows "\<exists>s' acc. http_reads tid bad cb t chunks (s, ctx) = Some (Inr (s', hc_reset c)) \<and> conn_ok tid [] s' \<and>
    contents (tc_inputBuffer s') = [] \<and>
    tc_sent s' = tc_sent s @ [(response_text (http_response cb (hc_request c)), acc)] \<and>
    (\<not> acc \<longrightarrow> tc_kernel s (tc_writes s) (tc_fin s) (length (response_text (http_response cb (hc_request c)))) =
       WriteErr EPIPE) \<and>
    tc_state s' = (if rs_closeConnection (http_response cb (hc_request c)) then kDisconnecting else kConnected)"
  using assms
proof (induction chunks arbitrary: s ctx)
  case (Cons data chunks)
  let ?xs = "contents (tc_inputBuffer s) @ data"
  have d: "data \<noteq> []" using Cons.prems(6) by auto
  note whole = parse_spec_append [of t ?xs "concat chunks" ctx]
  from whole Cons.prems(4) obtain ok rest c1 where p: "parse_spec t ?xs ctx = Inr (ok, rest, c1)"
    by (cases "parse_spec t ?xs ctx") auto
  show ?case
  proof (cases "ok \<and> awaiting c1")
    case True
    with p whole Cons.prems(4) have more: "parse_spec t (rest @ concat chunks) c1 = Inr (True, [], c)" by simp
    have p': "parse_spec t ?xs ctx = Inr (True, rest, c1)" using p True by simp
    have not_all: "\<not> gotAll c1" using True by (auto simp: awaiting_def gotAll_def)
    obtain b where b: "buffer_ok b" "contents b = rest"
      "http_handleRead tid bad cb t (Got data) (s, ctx) = Some (Inr (s\<lparr>tc_inputBuffer := b\<rparr>, c1))"
      using http_read_runs [OF Cons.prems(1,3) d p', where cb = cb and bad = bad] True not_all
        parse_spec_suffix [OF p] by auto
    have ne: "chunks \<noteq> []"
    proof
      assume "chunks = []"
      with more True have "parse_spec t rest c1 = Inr (True, [], c)" by simp
      moreover have "\<not> has_line rest" using parse_spec_rest [of t ?xs ctx rest c1] p True by simp
      ultimately have "c = c1" by (simp add: parse_spec.simps [of t rest])
      with not_all Cons.prems(5) show False by simp
    qed
    have "conn_ok tid [] (s\<lparr>tc_inputBuffer := b\<rparr>)" by (rule conn_input [OF Cons.prems(1) b(1)])
    from Cons.IH [OF this, of c1] Cons.prems(2,5,6) True more b(2) ne
    show ?thesis by (simp add: b(3))
  next
    case False
    with p whole Cons.prems(4) have eq: "ok" "rest @ concat chunks = []" "c = c1" by auto
    have p': "parse_spec t ?xs ctx = Inr (True, rest, c1)" using p eq(1) by simp
    from eq have last: "chunks = []" using Cons.prems(6) by (cases chunks) auto
    obtain b where b: "buffer_ok b" "contents b = []"
      "http_handleRead tid bad cb t (Got data) (s, ctx) =
        Some (rbind (run_tcp_commands tid (http_app bad cb t ctx) (http_reply cb (hc_request c)) (s\<lparr>tc_inputBuffer := b\<rparr>))
          (\<lambda>s. Inr (s, hc_reset c)))"
      using http_read_runs [OF Cons.prems(1,3) d p', where cb = cb and bad = bad] eq Cons.prems(5)
        parse_spec_suffix [OF p] by auto
    have "conn_ok tid [] (s\<lparr>tc_inputBuffer := b\<rparr>)" by (rule conn_input [OF Cons.prems(1) b(1)])
    from reply_conn [OF this, where app = "http_app bad cb t ctx" and cb = cb and req = "hc_request c"] Cons.prems(2) obtain s' acc where
      s': "run_tcp_commands tid (http_app bad cb t ctx) (http_reply cb (hc_request c)) (s\<lparr>tc_inputBuffer := b\<rparr>) = Inr s'"
        "conn_ok tid [] s'" "tc_sent s' = tc_sent s @ [(response_text (http_response cb (hc_request c)), acc)]"
        "\<not> acc \<longrightarrow> tc_kernel s (tc_writes s) (tc_fin s) (length (response_text (http_response cb (hc_request c)))) =
           WriteErr EPIPE"
        "tc_state s' = (if rs_closeConnection (http_response cb (hc_request c)) then kDisconnecting else kConnected)"
        "tc_inputBuffer s' = b" by auto
    then show ?thesis using b last by auto
  qed
qed simp

lemma http_request_served:
  fixes cb :: http_callback and t :: Timestamp
  assumes ok: "conn_ok tid [] s" "tc_state s = kConnected" "contents (tc_inputBuffer s) = []"
    and req: "hc_ready ctx" "well_formed m path minor hs"
    and chunks: "concat chunks = request_text m path minor hs" "[] \<notin> set chunks"
  defines "response \<equiv> http_response cb (parsed_request t m path minor hs)"
  shows "\<exists>s' ctx' acc. http_reads tid bad cb t chunks (s, ctx) = Some (Inr (s', ctx')) \<and>
    conn_ok tid [] s' \<and> hc_ready ctx' \<and> contents (tc_inputBuffer s') = [] \<and>
    tc_sent s' = tc_sent s @ [(response_text response, acc)] \<and>
    (\<not> acc \<longrightarrow> tc_kernel s (tc_writes s) (tc_fin s) (length (response_text response)) = WriteErr EPIPE) \<and>
    tc_state s' = (if rs_closeConnection response then kDisconnecting else kConnected)"
proof -
  let ?c = "\<lparr>hc_state = kGotAll, hc_request = parsed_request t m path minor hs\<rparr>"
  have aw: "awaiting ctx" using req(1) by (simp add: hc_ready_def awaiting_def)
  have spec: "parse_spec t (contents (tc_inputBuffer s) @ concat chunks) ctx = Inr (True, [], ?c)"
    using parse_request_text [OF req, of t "[]"] ok(3) chunks(1) by simp
  have "chunks \<noteq> []" using chunks(1) req(2) by (auto simp: request_text_def kCRLF_def)
  from http_reads_run [OF ok(1,2) aw spec _ chunks(2) this, where bad = bad and cb = cb] show ?thesis
    by (fastforce simp: gotAll_def response_def)
qed

text \<open>
  C5. On an open HTTP connection, the bytes of a well-formed request, however they are cut into reads, cause exactly
  one message to be sent, the response of the callback to the request the client wrote; it goes to the
  kernel, or waits in the output buffer, after everything sent before (or is dropped as a whole because the
  client no longer reads); the connection is shut down exactly if that response closes, and the next request is
  parsed afresh.
\<close>

theorem http_conversation:
  fixes cb :: http_callback and t :: Timestamp
  assumes ok: "conn_ok tid [] s" "tc_state s = kConnected" "contents (tc_inputBuffer s) = []"
    and req: "hc_ready ctx" "well_formed m path minor hs"
    and chunks: "concat chunks = request_text m path minor hs" "[] \<notin> set chunks"
  defines "response \<equiv> http_response cb (parsed_request t m path minor hs)"
  shows "\<exists>s' ctx' acc. http_reads tid bad cb t chunks (s, ctx) = Some (Inr (s', ctx')) \<and>
    conn_ok tid [] s' \<and> hc_ready ctx' \<and> contents (tc_inputBuffer s') = [] \<and>
    tc_sent s' = tc_sent s @ [(response_text response, acc)] \<and>
    tc_out s' @ pending_out s' = tc_out s @ pending_out s @ (if acc then response_text response else []) \<and>
    (\<not> acc \<longrightarrow> tc_kernel s (tc_writes s) (tc_fin s) (length (response_text response)) = WriteErr EPIPE) \<and>
    tc_state s' = (if rs_closeConnection response then kDisconnecting else kConnected)"
proof -
  obtain s' ctx' acc where
    s': "http_reads tid bad cb t chunks (s, ctx) = Some (Inr (s', ctx'))" "conn_ok tid [] s'" "hc_ready ctx'"
      "contents (tc_inputBuffer s') = []" "tc_sent s' = tc_sent s @ [(response_text response, acc)]"
      "\<not> acc \<longrightarrow> tc_kernel s (tc_writes s) (tc_fin s) (length (response_text response)) = WriteErr EPIPE"
      "tc_state s' = (if rs_closeConnection response then kDisconnecting else kConnected)"
    unfolding response_def
    using http_request_served [OF ok req chunks, where cb = cb and t = t and bad = bad] by blast
  have "tc_out s @ pending_out s = accepted s" "tc_out s' @ pending_out s' = accepted s'"
    using ok(1) s'(2) by (simp_all add: conn_ok_def data_ok_def)
  then have "tc_out s' @ pending_out s' = tc_out s @ pending_out s @ (if acc then response_text response else [])"
    using s'(5) by (simp add: accepted_def)
  with s' show ?thesis by (intro exI [of _ s'] exI [of _ ctx'] exI [of _ acc]) simp
qed

text \<open>An open connection that has sent nothing yet.\<close>

definition open_conn :: TcpConnection where
  "open_conn = idle_conn\<lparr>chans := [20 \<mapsto> (new_channel 1 9)\<lparr>ch_events := kReadEvent, ch_index := 0\<rparr>],
     pollfds := [\<lparr>pfd_fd = 9, pfd_events = 3, pfd_revents = 0\<rparr>], channels := [9 \<mapsto> 20], tc_state := kConnected\<rparr>"

lemma open_conn_ok: "conn_ok 77 [] open_conn"
proof -
  have three: "ucast kReadEvent = (3 :: 16 word)"
    by (simp add: kReadEvent_def poll_consts)
  have "poller_ok open_conn"
    by (auto simp: poller_defs open_conn_def new_channel_def owner_def)
  then have "loop_ok 77 open_conn"
    by (auto simp: loop_ok_def) (auto simp: open_conn_def idle_conn_def registered_def new_channel_def watch_def Let_def three split: if_splits)
  then have "loop_view 77 20 open_conn = (True, True, fresh 20 open_conn, True, False, kReadEvent)"
    by (simp add: loop_view_def) (simp add: open_conn_def idle_conn_def removable_def chan_base_def forget_events_def
        new_channel_def registered_def silenced_def interest_def muted_def watch_def Let_def)
  moreover have "tc_state open_conn = kConnected" "tc_channel open_conn = 20" "pending_out open_conn = []"
    by (simp_all add: open_conn_def idle_conn_def pending_out_def)
  moreover from this have "data_ok open_conn" "fin_ok 77 [] open_conn"
    by (simp_all add: data_ok_def fin_ok_def accepted_def todo_def)
      (simp_all add: open_conn_def idle_conn_def example_kernel_ok)
  ultimately show ?thesis by (simp add: conn_ok_def)
qed

theorem http_conversation_witness:
  "\<exists>s' ctx' acc. http_reads 77 (\<lambda>_. []) defaultHttpCallback (Timestamp 1)
      [''GET /'', '' HTTP/1.1'' @ kCRLF @ kCRLF] (open_conn, new_HttpContext) = Some (Inr (s', ctx')) \<and>
    tc_sent s' = [(''HTTNot Found'' @ kCRLF @ ''Connection:close'' @ kCRLF @ kCRLF, acc)] \<and>
    tc_state s' = kDisconnecting"
proof -
  have w: "hc_ready new_HttpContext" "well_formed ''GET'' ''/'' (CHR ''1'') []"
    by (simp_all add: hc_ready_def new_HttpContext_def new_HttpRequest_def well_formed_def method_of_def)
  have c: "tc_state open_conn = kConnected" "contents (tc_inputBuffer open_conn) = []" "tc_sent open_conn = []"
    by (simp_all add: open_conn_def idle_conn_def)
  have r: "concat [''GET /'', '' HTTP/1.1'' @ kCRLF @ kCRLF] = request_text ''GET'' ''/'' (CHR ''1'') []"
    "[] \<notin> set [''GET /'', '' HTTP/1.1'' @ kCRLF @ kCRLF]"
    by (simp_all add: request_text_def)
  show ?thesis
    using http_conversation [OF open_conn_ok c(1,2) w r, of "\<lambda>_. []" defaultHttpCallback "Timestamp 1"]
    unfolding http_response_def default_response c(3) by auto
qed

end
