(* ===== verification/FileUtil.thy ===== *)
theory FileUtil
  imports Prelude
begin

text \<open>
  \<open>muduo/base/FileUtil.h\<close> and \<open>FileUtil.cc\<close>: reading small files. The operating system is a parameter:
  what \<open>open\<close>, \<open>fstat\<close>, \<open>read\<close> and \<open>pread\<close> answer (\<open>read\<close> is given the number of the call, the offset
  and the count).
\<close>

section \<open>Small files\<close>

definition kBufferSize :: nat where "kBufferSize = 65536"

definition EISDIR :: nat where "EISDIR = 21"

datatype read_answer = ReadBytes string | ReadError nat

datatype file_kind = Regular | Directory | OtherKind

record file_stat =
  st_kind :: file_kind
  st_size :: int
  st_mtime :: int
  st_ctime :: int

record file_env =
  fe_open :: int
  fe_open_errno :: nat
  fe_fstat :: "file_stat + nat"
  fe_read :: "nat \<Rightarrow> nat \<Rightarrow> nat \<Rightarrow> read_answer"
  fe_pread :: "nat \<Rightarrow> read_answer"

record SmallFile =
  sf_fd :: int
  sf_err :: nat
  sf_buf :: string \<comment> \<open>the bytes of \<open>buf_\<close> that have been written\<close>
  sf_offset :: nat \<comment> \<open>the file offset, kept by the kernel\<close>

definition new_SmallFile :: "file_env \<Rightarrow> SmallFile" where
  "new_SmallFile env = \<lparr>sf_fd = fe_open env, sf_err = (if fe_open env < 0 then fe_open_errno env else 0),
     sf_buf = [CHR 0x00], sf_offset = 0\<rparr>"

text \<open>
  The \<open>while\<close> loop of \<open>readToString\<close>: \<open>err\<close>, the content and \<open>buf_\<close>, which \<open>read\<close> overwrites from its
  start. \<open>content->reserve\<close> does not change the content; a negative \<open>maxSize\<close> is a huge \<open>size_t\<close> here.
\<close>

function read_loop ::
  "(nat \<Rightarrow> nat \<Rightarrow> nat \<Rightarrow> read_answer) \<Rightarrow> nat \<Rightarrow> nat \<Rightarrow> nat \<Rightarrow> nat \<Rightarrow> string \<Rightarrow> string \<Rightarrow>
     nat \<times> string \<times> string" where
  "read_loop rd k offs maxSize err content buf =
     (if length content < maxSize then
        let toRead = min (maxSize - length content) kBufferSize in
        case rd k (offs + length content) toRead of
          ReadBytes d \<Rightarrow>
            if d \<noteq> [] then read_loop rd (k + 1) offs maxSize err (content @ d) (d @ drop (length d) buf)
            else (err, content, buf)
        | ReadError e \<Rightarrow> (e, content, buf)
      else (err, content, buf))"
  by pat_completeness auto
termination
  by (relation "measure (\<lambda>(rd, k, offs, maxSize, err, content, buf). maxSize - length content)") (auto intro!: diff_less_mono2)

declare read_loop.simps [simp del]

text \<open>The part that asks \<open>fstat\<close>: \<open>err\<close>, the size, and the two times.\<close>

definition stat_part ::
  "file_env \<Rightarrow> bool \<Rightarrow> bool \<Rightarrow> bool \<Rightarrow> nat \<Rightarrow> nat \<times> int option \<times> int option \<times> int option" where
  "stat_part env fileSize modifyTime createTime err =
     (if fileSize then
        case fe_fstat env of
          Inl st \<Rightarrow> (if st_kind st = Directory then EISDIR else err,
              if st_kind st = Regular then Some (st_size st) else None,
              if modifyTime then Some (st_mtime st) else None,
              if createTime then Some (st_ctime st) else None)
        | Inr errno \<Rightarrow> (errno, None, None, None)
      else (err, None, None, None))"

definition readToString ::
  "file_env \<Rightarrow> int \<Rightarrow> bool \<Rightarrow> bool \<Rightarrow> bool \<Rightarrow> string \<Rightarrow> SmallFile \<Rightarrow>
     (nat \<times> string \<times> int option \<times> int option \<times> int option) \<times> SmallFile" where
  "readToString env maxSize fileSize modifyTime createTime content f =
     (if sf_fd f > 0 then
        case stat_part env fileSize modifyTime createTime (sf_err f) of
          (err, sz, mt, ct) \<Rightarrow>
            case read_loop (fe_read env) 0 (sf_offset f) (nat (maxSize mod 2 ^ 64)) err [] (sf_buf f) of
              (err, content, buf) \<Rightarrow>
                ((err, content, sz, mt, ct), f\<lparr>sf_buf := buf, sf_offset := sf_offset f + length content\<rparr>)
      else ((sf_err f, content, None, None, None), f))"

definition readToBuffer :: "file_env \<Rightarrow> SmallFile \<Rightarrow> (nat \<times> int option) \<times> SmallFile" where
  "readToBuffer env f =
     (if sf_fd f \<ge> 0 then
        case fe_pread env (kBufferSize - 1) of
          ReadBytes d \<Rightarrow> ((sf_err f, Some (int (length d))), f\<lparr>sf_buf := d @ [CHR 0x00] @ drop (length d + 1) (sf_buf f)\<rparr>)
        | ReadError e \<Rightarrow> ((e, None), f)
      else ((sf_err f, None), f))"

definition readFile ::
  "file_env \<Rightarrow> int \<Rightarrow> bool \<Rightarrow> bool \<Rightarrow> bool \<Rightarrow> string \<Rightarrow> nat \<times> string \<times> int option \<times> int option \<times> int option" where
  "readFile env maxSize fileSize modifyTime createTime content =
     fst (readToString env maxSize fileSize modifyTime createTime content (new_SmallFile env))"

section \<open>What is read\<close>

text \<open>
  \<open>read\<close> as it is documented, on a file that does not change: it gives bytes from the offset on, at most as
  many as asked for, none only at the end, and an error comes with a number.
\<close>

definition file_reads :: "(nat \<Rightarrow> nat \<Rightarrow> nat \<Rightarrow> read_answer) \<Rightarrow> string \<Rightarrow> bool" where
  "file_reads rd f \<longleftrightarrow> (\<forall>k offs n. case rd k offs n of
     ReadBytes d \<Rightarrow> d = take (length d) (drop offs f) \<and> length d \<le> n \<and> (d = [] \<longrightarrow> n = 0 \<or> length f \<le> offs)
   | ReadError e \<Rightarrow> e \<noteq> 0)"

lemma file_reads_bytes:
  assumes "file_reads rd f" "rd k offs n = ReadBytes d"
  shows "d = take (length d) (drop offs f)" "length d \<le> n" "d = [] \<Longrightarrow> n = 0 \<or> length f \<le> offs"
proof -
  from assms(1) have "case rd k offs n of
     ReadBytes d \<Rightarrow> d = take (length d) (drop offs f) \<and> length d \<le> n \<and> (d = [] \<longrightarrow> n = 0 \<or> length f \<le> offs)
   | ReadError e \<Rightarrow> e \<noteq> 0" by (simp only: file_reads_def)
  then have *: "d = take (length d) (drop offs f) \<and> length d \<le> n \<and> (d = [] \<longrightarrow> n = 0 \<or> length f \<le> offs)"
    unfolding assms(2) read_answer.case .
  show "d = take (length d) (drop offs f)" using * by (rule conjunct1)
  show "length d \<le> n" "d = [] \<Longrightarrow> n = 0 \<or> length f \<le> offs" using * by blast+
qed

lemma file_reads_error:
  assumes "file_reads rd f" "rd k offs n = ReadError e"
  shows "e \<noteq> 0"
proof -
  from assms(1) have "case rd k offs n of
     ReadBytes d \<Rightarrow> d = take (length d) (drop offs f) \<and> length d \<le> n \<and> (d = [] \<longrightarrow> n = 0 \<or> length f \<le> offs)
   | ReadError e \<Rightarrow> e \<noteq> 0" by (simp only: file_reads_def)
  then show ?thesis unfolding assms(2) read_answer.case .
qed

lemma take_length_take: "take (length (take m xs)) xs = take m xs"
  by (cases "m \<le> length xs") (simp_all add: min_def)

lemma take_continue:
  assumes "d = take (length d) (drop (offs + n) f)" and "c = take n (drop offs f)" "length c = n"
  shows "c @ d = take (n + length d) (drop offs f)"
proof -
  have "take (n + length d) (drop offs f) = take n (drop offs f) @ take (length d) (drop n (drop offs f))"
    by (rule take_add)
  also have "\<dots> = c @ d" using assms by (simp add: add.commute)
  finally show ?thesis by simp
qed

lemma read_loop_correct:
  "file_reads rd f \<Longrightarrow> content = take (length content) (drop offs f) \<Longrightarrow> length content \<le> maxSize \<Longrightarrow>
     read_loop rd k offs maxSize err content buf = (err', content', buf') \<Longrightarrow>
     content' = take (length content') (drop offs f) \<and> length content' \<le> maxSize \<and>
     (err' = 0 \<longrightarrow> err = 0 \<and> content' = take maxSize (drop offs f))"
proof (induction rd k offs maxSize err content buf rule: read_loop.induct)
  case (1 rd k offs maxSize err content buf)
  note unfold = read_loop.simps [of rd k offs maxSize err content buf]
  show ?case
  proof (cases "length content < maxSize")
    case False
    with "1.prems"(2-4) unfold show ?thesis by auto
  next
    case True
    let ?n = "min (maxSize - length content) kBufferSize"
    have pos: "?n \<noteq> 0" using True by (simp add: kBufferSize_def)
    show ?thesis
    proof (cases "rd k (offs + length content) ?n")
      case (ReadError e)
      with "1.prems" True unfold file_reads_error [OF "1.prems"(1) ReadError] show ?thesis by (auto simp: Let_def)
    next
      case (ReadBytes d)
      note d = file_reads_bytes [OF "1.prems"(1) ReadBytes]
      show ?thesis
      proof (cases "d = []")
        case True
        with d(3) pos have "length f \<le> offs + length content" by simp
        then have "drop offs f = take (length content) (drop offs f)" by simp
        then have "content = drop offs f" using "1.prems"(2) by simp
        moreover from this have "content = take maxSize (drop offs f)" using "1.prems"(3) by simp
        ultimately show ?thesis
          using "1.prems"(2-4) \<open>length content < maxSize\<close> unfold ReadBytes True by (auto simp: Let_def)
      next
        case False
        have grown: "content @ d = take (length (content @ d)) (drop offs f)"
          unfolding length_append by (rule take_continue [OF d(1) "1.prems"(2) refl])
        moreover have "length (content @ d) \<le> maxSize" using d(2) \<open>length content < maxSize\<close> by (simp, linarith)
        moreover have "read_loop rd (k + 1) offs maxSize err (content @ d) (d @ drop (length d) buf) =
            (err', content', buf')"
          using "1.prems"(4) True unfold ReadBytes False by (simp add: Let_def)
        ultimately show ?thesis using "1.IH" [OF True refl ReadBytes False "1.prems"(1)] by blast
      qed
    qed
  qed
qed

lemma readFile_content:
  assumes "file_reads (fe_read env) f" "0 \<le> maxSize" "maxSize < 2 ^ 31"
    and "readFile env maxSize sz mt ct content = (err, content', rest)" "0 < fe_open env"
  shows "content' = take (length content') f" "length content' \<le> nat maxSize"
    and "err = 0 \<Longrightarrow> content' = take (nat maxSize) f"
proof -
  obtain e0 z where st: "stat_part env sz mt ct 0 = (e0, z)" by (metis surj_pair)
  have size: "maxSize mod 2 ^ 64 = maxSize" using assms(2,3) by simp
  have "read_loop (fe_read env) 0 0 (nat maxSize) e0 [] [CHR 0x00] =
      (err, content', sf_buf (snd (readToString env maxSize sz mt ct content (new_SmallFile env))))"
    using assms(4,5) st size by (cases z)
      (auto simp: readFile_def readToString_def new_SmallFile_def split: prod.splits)
  from read_loop_correct [OF assms(1) _ _ this]
  show "content' = take (length content') f" "length content' \<le> nat maxSize"
    "err = 0 \<Longrightarrow> content' = take (nat maxSize) f" by simp_all
qed

text \<open>
  Reading a file that does not change always ends and gives a prefix of it, of at most \<open>maxSize\<close> bytes,
  however the system cuts it into reads; without an error it is the whole file or its first \<open>maxSize\<close> bytes.
  A file that cannot be opened leaves the content alone and gives the error of \<open>open\<close>.
\<close>

theorem readFile_prefix:
  assumes "file_reads (fe_read env) f" and "0 \<le> maxSize" "maxSize < 2 ^ 31"
    and "readFile env maxSize sz mt ct content = (err, content', rest)"
  shows "(0 < fe_open env \<longrightarrow> (\<exists>n. content' = take n f \<and> n \<le> nat maxSize) \<and>
      (err = 0 \<longrightarrow> content' = take (nat maxSize) f)) \<and>
    (fe_open env < 0 \<longrightarrow> err = fe_open_errno env \<and> content' = content)"
proof (intro conjI impI)
  assume "fe_open env < 0"
  with assms(4) show "err = fe_open_errno env" "content' = content"
    by (simp_all add: readFile_def readToString_def new_SmallFile_def)
next
  assume "0 < fe_open env"
  note c = readFile_content [OF assms this]
  from c(1,2) show "\<exists>n. content' = take n f \<and> n \<le> nat maxSize" by metis
  show "content' = take (nat maxSize) f" if "err = 0" using c(3) that .
qed

theorem readFile_prefix_witness:
  "\<exists>content rest. readFile \<lparr>fe_open = 3, fe_open_errno = 0, fe_fstat = Inr 1,
      fe_read = (\<lambda>k offs n. ReadBytes (take (min n 2) (drop offs ''hello''))), fe_pread = (\<lambda>n. ReadBytes [])\<rparr>
      4 False False False [] = (0, content, rest) \<and> content = ''hell''"
proof -
  let ?env = "\<lparr>fe_open = 3, fe_open_errno = 0, fe_fstat = Inr 1,
      fe_read = (\<lambda>k offs n. ReadBytes (take (min n 2) (drop offs ''hello''))), fe_pread = (\<lambda>n. ReadBytes [])\<rparr>"
  have reads: "file_reads (fe_read ?env) ''hello''"
    unfolding file_reads_def file_env.simps read_answer.case take_length_take by auto
  obtain err content rest where r: "readFile ?env 4 False False False [] = (err, content, rest)"
    by (cases "readFile ?env 4 False False False []") auto
  have "err = 0"
    using r by (auto simp: readFile_def readToString_def new_SmallFile_def stat_part_def split: prod.splits)
      (simp add: read_loop.simps kBufferSize_def Let_def)
  with readFile_prefix [OF reads _ _ r] have "content = ''hell''" by simp
  with r \<open>err = 0\<close> show ?thesis by (intro exI [of _ content] exI [of _ rest]) simp
qed

end
