(* ===== verification/ProcessInfo.thy ===== *)
theory ProcessInfo
  imports FileUtil "HOL-Library.Multiset"
begin

text \<open>
  \<open>muduo/base/ProcessInfo.cc\<close>: what a process finds out about itself. What the system calls answer is the
  record \<open>proc_env\<close>: \<open>pe_fds\<close> and \<open>pe_tasks\<close> are the names \<open>scandir\<close> visits in \<open>/proc/self/fd\<close> and
  \<open>/proc/self/task\<close>, \<open>pe_status\<close> the file \<open>/proc/self/status\<close>, \<open>pe_passwd\<close> the entry of the password
  database for a user, \<open>pe_hostname\<close> the host's name and \<open>pe_nofile\<close> the limit \<open>getrlimit\<close> reports
  (\<open>None\<close>: the call fails). The thread-local counters the filters use are the state of the scan.
\<close>

record proc_env =
  pe_pid :: int
  pe_uid :: int
  pe_euid :: int
  pe_passwd :: "int \<Rightarrow> string option"
  pe_hostname :: "string option"
  pe_status :: file_env
  pe_fds :: "string list"
  pe_tasks :: "string list"
  pe_nofile :: "nat option"

section \<open>The calls\<close>

text \<open>The first character of a C string, its NUL if it is empty.\<close>

definition first_char :: "string \<Rightarrow> char" where
  "first_char s = (case s of [] \<Rightarrow> CHR 0x00 | c # _ \<Rightarrow> c)"

definition fdDirFilter :: "string \<Rightarrow> int \<Rightarrow> int" where
  "fdDirFilter name t_numOpenedFiles =
     (if isdigit (first_char name) then t_numOpenedFiles + 1 else t_numOpenedFiles)"

definition taskDirFilter :: "string \<Rightarrow> int list \<Rightarrow> int list" where
  "taskDirFilter name t_pids = (if isdigit (first_char name) then t_pids @ [atoi name] else t_pids)"

text \<open>Both filters return 0, so that \<open>scandir\<close> collects nothing; the result is what the filter made of its state.\<close>

definition scanDir :: "string list \<Rightarrow> (string \<Rightarrow> 's \<Rightarrow> 's) \<Rightarrow> 's \<Rightarrow> 's" where
  "scanDir entries flt st = fold flt entries st"

definition pid :: "proc_env \<Rightarrow> int" where
  "pid env = pe_pid env"

definition pidString :: "proc_env \<Rightarrow> string" where
  "pidString env = snprintf 32 (show_int (pe_pid env))"

definition uid :: "proc_env \<Rightarrow> int" where
  "uid env = pe_uid env"

definition euid :: "proc_env \<Rightarrow> int" where
  "euid env = pe_euid env"

definition username :: "proc_env \<Rightarrow> string" where
  "username env = (case pe_passwd env (uid env) of Some name \<Rightarrow> name | None \<Rightarrow> ''unknowuser'')"

text \<open>
  \<open>gethostname\<close> overwrites the NUL put into the last byte beforehand: a name of 64 bytes, which Linux allows,
  leaves the array without one.
\<close>

definition hostname :: "proc_env \<Rightarrow> string result" where
  "hostname env = (case pe_hostname env of
     None \<Rightarrow> Inr ''unknowhost''
   | Some name \<Rightarrow> if length name < 64 then Inr name else Inl (Undefined ''buf is not terminated''))"

definition procStatus :: "proc_env \<Rightarrow> string" where
  "procStatus env = fst (snd (readFile (pe_status env) 65536 False False False []))"

definition openedFiles :: "proc_env \<Rightarrow> int" where
  "openedFiles env = scanDir (pe_fds env) fdDirFilter 0"

definition maxOpenFiles :: "proc_env \<Rightarrow> int" where
  "maxOpenFiles env = (case pe_nofile env of
     None \<Rightarrow> openedFiles env
   | Some rlim_cur \<Rightarrow> sint (of_nat rlim_cur :: 32 word))"

text \<open>The last statement is \<open>result;\<close>, not \<open>return result;\<close>: the function ends without a value.\<close>

definition numThreads :: "proc_env \<Rightarrow> int result" where
  "numThreads env =
     (let status = procStatus env;
          pos = std_search ''Threads:'' status;
          result = (if pos \<noteq> length status then atoi (drop (pos + 8) status) else 0)
      in Inl (Undefined ''numThreads does not return a value''))"

definition threads :: "proc_env \<Rightarrow> int list" where
  "threads env = sort (scanDir (pe_tasks env) taskDirFilter [])"

section \<open>What the scans find\<close>

lemma scan_fds: "fold fdDirFilter names n = n + int (length (filter (\<lambda>x. isdigit (first_char x)) names))"
  by (induction names arbitrary: n) (simp_all add: fdDirFilter_def)

lemma scan_tasks:
  "fold taskDirFilter names ps = ps @ map atoi (filter (\<lambda>x. isdigit (first_char x)) names)"
  by (induction names arbitrary: ps) (simp_all add: taskDirFilter_def)

lemma openedFiles_eq: "openedFiles env = int (length (filter (\<lambda>x. isdigit (first_char x)) (pe_fds env)))"
  by (simp add: openedFiles_def scanDir_def scan_fds)

text \<open>The threads are the entries that are numbers, in increasing order.\<close>

lemma threads_eq:
  assumes "filter (\<lambda>x. isdigit (first_char x)) (pe_tasks env) = map show_nat tids" "\<forall>n\<in>set tids. n < 2 ^ 31"
  shows "threads env = map int (sort tids)"
proof -
  have "map atoi (map show_nat tids) = map int tids"
    using assms(2) by (simp add: atoi_show_nat)
  then have "threads env = sort (map int tids)"
    using assms(1) by (simp add: threads_def scanDir_def scan_tasks del: map_map)
  also have "\<dots> = map int (sort tids)"
    by (rule properties_for_sort) (simp_all add: sorted_map)
  finally show ?thesis .
qed

text \<open>The status is what the file holds, up to 64 KiB.\<close>

lemma procStatus_prefix:
  assumes "file_reads (fe_read (pe_status env)) f" "0 < fe_open (pe_status env)"
  shows "\<exists>n \<le> 65536. procStatus env = take n f"
proof -
  obtain err content rest where r: "readFile (pe_status env) 65536 False False False [] = (err, content, rest)"
    by (cases "readFile (pe_status env) 65536 False False False []") blast
  from readFile_content [OF assms(1) _ _ r assms(2)] have
    "content = take (length content) f" "length content \<le> 65536" by simp_all
  then show ?thesis using r by (auto simp: procStatus_def)
qed

end
