(* ===== verification/Inspector.thy ===== *)
theory Inspector
  imports HttpConnection ProcessInfo
begin

text \<open>
  \<open>muduo/net/inspect/Inspector.cc\<close> and \<open>ProcessInspector.cc\<close>: the table of commands behind the inspection
  web server, and its answer to a request. A callback is \<open>None\<close> when its \<open>boost::function\<close> is empty.
\<close>

section \<open>The inspector\<close>

type_synonym inspector_callback = "Method \<Rightarrow> string list \<Rightarrow> string"

record Inspector =
  in_serverName :: string
  in_httpCallback :: bool \<comment> \<open>\<open>server_\<close> calls \<open>onRequest\<close>\<close>
  in_commands :: "(string \<times> (string \<times> inspector_callback option) list) list"
  in_helps :: "(string \<times> (string \<times> string) list) list"
  in_startQueued :: bool \<comment> \<open>\<open>runAfter(0, start)\<close>\<close>
  in_serverStarted :: bool

text \<open>The loop of \<open>split\<close>, from \<open>start\<close> on.\<close>

definition find_from :: "char \<Rightarrow> nat \<Rightarrow> string \<Rightarrow> nat option" where
  "find_from c start str =
     (let p = std_find c (drop start str) in if p < length (drop start str) then Some (start + p) else None)"

lemma find_from_bounds: "find_from c start str = Some pos \<Longrightarrow> start \<le> pos \<and> pos < length str"
  by (auto simp: find_from_def Let_def split: if_splits)

function split_loop :: "string \<Rightarrow> nat \<Rightarrow> string list \<Rightarrow> string list" where
  "split_loop str start result =
     (case find_from (CHR ''/'') start str of
        Some pos \<Rightarrow>
          split_loop str (pos + 1) (if pos > start then result @ [take (pos - start) (drop start str)] else result)
      | None \<Rightarrow> if start < length str then result @ [drop start str] else result)"
  by pat_completeness auto
termination
  by (relation "measure (\<lambda>(str, start, result). length str - start)") (auto dest: find_from_bounds)

declare split_loop.simps [simp del]

definition split :: "string \<Rightarrow> string list" where
  "split str = split_loop str 0 []"

text \<open>
  \<open>m[k]\<close> of a \<open>std::map\<close> inserts an empty value if there is none; \<open>put_at\<close> is \<open>t[m][c] = v\<close>.
\<close>

type_synonym 'v table = "(string \<times> (string \<times> 'v) list) list"

definition map_at :: "string \<Rightarrow> 'v table \<Rightarrow> (string \<times> 'v) list" where
  "map_at k t = (case map_of t k of Some l \<Rightarrow> l | None \<Rightarrow> [])"

definition put_at :: "string \<times> string \<Rightarrow> 'v \<Rightarrow> 'v table \<Rightarrow> 'v table" where
  "put_at = (\<lambda>(m, c) v t. map_insert m (map_insert c v (map_at m t)) t)"

definition add :: "string \<Rightarrow> string \<Rightarrow> inspector_callback option \<Rightarrow> string \<Rightarrow> Inspector \<Rightarrow> Inspector" where
  "add m c cb help ins =
     ins\<lparr>in_commands := put_at (m, c) cb (in_commands ins), in_helps := put_at (m, c) help (in_helps ins)\<rparr>"

definition in_start :: "Inspector \<Rightarrow> Inspector" where
  "in_start ins = ins\<lparr>in_serverStarted := True\<rparr>"

text \<open>The text of the page that lists all commands: two nested loops over \<open>helps_\<close>.\<close>

definition helps_page :: "(string \<times> (string \<times> string) list) list \<Rightarrow> string" where
  "helps_page hs = fold (\<lambda>(m, l) result.
     fold (\<lambda>(c, h) result. result @ ''/'' @ m @ ''/'' @ c @ [CHR 0x09] @ h @ [CHR 0x0A]) l result) hs []"

definition ok_text :: "string \<Rightarrow> HttpResponse \<Rightarrow> HttpResponse" where
  "ok_text body resp =
     setBody body (setContentType ''text/plain'' (setStatusMessage ''OK'' (setStatusCode k200Ok resp)))"

definition in_onRequest :: "Inspector \<Rightarrow> http_callback" where
  "in_onRequest ins req resp =
     (if rq_path req = ''/'' then ok_text (helps_page (in_helps ins)) resp
      else
        let found =
          (case split (rq_path req) of
             m # c # args \<Rightarrow>
               (case map_of (in_commands ins) m of
                  Some commList \<Rightarrow>
                    (case map_of commList c of
                       Some (Some cb) \<Rightarrow> Some (cb (rq_method req) args)
                     | _ \<Rightarrow> None)
                | None \<Rightarrow> None)
           | _ \<Rightarrow> None)
        in case found of
             Some body \<Rightarrow> ok_text body resp
           | None \<Rightarrow> setStatusMessage ''Not Found'' (setStatusCode k404NotFound resp))"

section \<open>The commands about the process\<close>

definition ps_pid :: "proc_env \<Rightarrow> inspector_callback" where
  "ps_pid env method args = snprintf 32 (show_int (pid env))"

definition ps_procStatus :: "proc_env \<Rightarrow> inspector_callback" where
  "ps_procStatus env method args = procStatus env"

definition ps_openedFiles :: "proc_env \<Rightarrow> inspector_callback" where
  "ps_openedFiles env method args = snprintf 32 (show_int (openedFiles env))"

definition ps_threads :: "proc_env \<Rightarrow> inspector_callback" where
  "ps_threads env method args =
     fold (\<lambda>t result. result @ snprintf 32 (show_int t @ [CHR 0x0A])) (threads env) []"

definition registerCommands :: "proc_env \<Rightarrow> Inspector \<Rightarrow> Inspector" where
  "registerCommands env ins =
     add ''proc'' ''threads'' (Some (ps_threads env)) ''list /proc/self/task''
       (add ''proc'' ''opened_files'' (Some (ps_openedFiles env)) ''count /proc/self/fd''
         (add ''proc'' ''status'' (Some (ps_procStatus env)) ''print /proc/self/status''
           (add ''proc'' ''pid'' (Some (ps_pid env)) ''print pid'' ins)))"

text \<open>
  The constructor and the destructor; the flag is \<open>g_globalInspector\<close>, whether there is an inspector.
\<close>

definition new_Inspector :: "proc_env \<Rightarrow> bool \<Rightarrow> string \<Rightarrow> bool \<Rightarrow> (Inspector \<times> bool) result" where
  "new_Inspector env isMainThread name g =
     rbind (guard isMainThread ''CurrentThread::isMainThread()'') (\<lambda>_.
     rbind (guard (\<not> g) ''g_globalInspector == 0'') (\<lambda>_.
     Inr ((registerCommands env \<lparr>in_serverName = ''Inspector:'' @ name, in_httpCallback = True, in_commands = [],
       in_helps = [], in_startQueued = False, in_serverStarted = False\<rparr>)\<lparr>in_startQueued := True\<rparr>, True)))"

definition del_Inspector :: "bool \<Rightarrow> bool \<Rightarrow> bool result" where
  "del_Inspector isMainThread g = rbind (guard isMainThread ''CurrentThread::isMainThread()'') (\<lambda>_. Inr False)"

section \<open>A table of commands\<close>

text \<open>
  What the inspector relies on: a later entry replaces an earlier one, and entries keep the order of the table.
\<close>

locale registry =
  fixes lookup :: "'t \<Rightarrow> 'k \<Rightarrow> 'v option" and put :: "'k \<Rightarrow> 'v \<Rightarrow> 't \<Rightarrow> 't" and ok :: "'t \<Rightarrow> bool"
  assumes lookup_put: "lookup (put k v t) = (lookup t)(k \<mapsto> v)"
    and ok_put: "ok t \<Longrightarrow> ok (put k v t)"
begin

lemma lookup_all: "lookup (fold (\<lambda>(k, v). put k v) kvs t) = lookup t ++ map_of (rev kvs)"
  by (induction kvs arbitrary: t) (auto simp: lookup_put)

lemma ok_all: "ok t \<Longrightarrow> ok (fold (\<lambda>(k, v). put k v) kvs t)"
  by (induction kvs arbitrary: t) (auto intro: ok_put)

end

definition lookup_at :: "'v table \<Rightarrow> string \<times> string \<Rightarrow> 'v option" where
  "lookup_at t = (\<lambda>(m, c). case map_of t m of Some l \<Rightarrow> map_of l c | None \<Rightarrow> None)"

definition table_ok :: "'v table \<Rightarrow> bool" where
  "table_ok t \<longleftrightarrow> std_map t \<and> (\<forall>l\<in>snd ` set t. std_map l)"

lemma std_map_at: "table_ok t \<Longrightarrow> std_map (map_at m t)"
  by (auto simp: map_at_def table_ok_def split: option.splits dest!: map_of_SomeD)

interpretation reg: registry lookup_at put_at table_ok
proof
  fix k :: "string \<times> string" and v :: 'v and t :: "'v table"
  obtain m c where k: "k = (m, c)" by (cases k)
  show "lookup_at (put_at k v t) = (lookup_at t)(k \<mapsto> v)"
    by (rule ext) (auto simp: k lookup_at_def put_at_def map_at_def split: option.splits if_splits)
  assume "table_ok t"
  then have t: "std_map t" "\<And>e. e \<in> set t \<Longrightarrow> std_map (snd e)" "std_map (map_insert c v (map_at m t))"
    using std_map_at [of t m] by (auto simp: table_ok_def)
  have "std_map (snd e)" if "e \<in> set (map_insert m (map_insert c v (map_at m t)) t)" for e
    using map_insert_member [OF that] t(2,3) by (elim disjE) simp_all
  with t(1) show "table_ok (put_at k v t)" unfolding k put_at_def table_ok_def prod.case by blast
qed

text \<open>The entries of a table in the order of two nested loops.\<close>

definition entries :: "'v table \<Rightarrow> ((string \<times> string) \<times> 'v) list" where
  "entries t = concat (map (\<lambda>(m, l). map (\<lambda>(c, v). ((m, c), v)) l) t)"

lemma map_of_row: "map_of (map (\<lambda>(c, v). ((m, c), v)) l) (m', c') = (if m' = m then map_of l c' else None)"
  by (induction l) auto

lemma map_of_entries: "table_ok t \<Longrightarrow> map_of (entries t) = lookup_at t"
proof (induction t)
  case Nil
  then show ?case by (simp add: entries_def lookup_at_def fun_eq_iff)
next
  case (Cons r t)
  obtain m l where r: "r = (m, l)" by (cases r)
  have t: "table_ok t" "map_of t m = None" using Cons.prems by (auto simp: r table_ok_def map_of_eq_None_iff)
  show ?case
    using Cons.IH [OF t(1)] t(2)
    by (auto simp: fun_eq_iff r entries_def lookup_at_def map_add_def map_of_row split: option.splits)
qed

lemma entries_sorted: "table_ok t \<Longrightarrow> std_map (entries t)"
proof (induction t)
  case (Cons r t)
  obtain m l where r: "r = (m, l)" by (cases r)
  have t: "table_ok t" "\<forall>x\<in>set t. m < fst x" and l: "std_map l"
    using Cons.prems by (auto simp: r table_ok_def less_le)
  let ?row = "map (\<lambda>(c, v). ((m, c), v)) l"
  have row: "map fst ?row = map (Pair m) (map fst l)" by (simp add: case_prod_beta)
  have "sorted_wrt (<) (map (Pair m) (map fst l))"
    unfolding sorted_wrt_map [of _ "Pair m"] using l by (simp add: less_prod_def)
  moreover have "\<forall>k\<in>set (map fst (entries t)). m < fst k" using t(2) by (auto simp: entries_def)
  ultimately have "std_map (?row @ entries t)"
    using Cons.IH [OF t(1)] unfolding map_append sorted_wrt_append row
    by (fastforce simp: less_prod_def)
  then show ?case by (simp add: r entries_def)
qed (simp add: entries_def)

section \<open>Paths\<close>

text \<open>The segments of a path: what is between two slashes, possibly nothing.\<close>

fun segments :: "string \<Rightarrow> string list" where
  "segments [] = [[]]"
| "segments (c # cs) = (if c = CHR ''/'' then [] # segments cs
     else case segments cs of x # xs \<Rightarrow> (c # x) # xs | [] \<Rightarrow> [[c]])"

lemma segments_slash: "CHR ''/'' \<notin> set a \<Longrightarrow> segments (a @ CHR ''/'' # b) = a # segments b"
  by (induction a) auto

lemma segments_single: "CHR ''/'' \<notin> set a \<Longrightarrow> segments a = [a]"
  by (induction a) auto

lemma find_from_Some:
  assumes "find_from c start str = Some pos"
  shows "drop start str = take (pos - start) (drop start str) @ c # drop (pos + 1) str"
    "c \<notin> set (take (pos - start) (drop start str))"
proof -
  let ?p = "std_find c (drop start str)"
  have p: "?p < length (drop start str)" "pos = start + ?p"
    using assms by (auto simp: find_from_def Let_def split: if_splits)
  then have "drop start str ! ?p = c" using std_find_nth [of c "drop start str"] std_find_less_iff by metis
  moreover have "drop start str = take ?p (drop start str) @ drop start str ! ?p # drop (Suc ?p) (drop start str)"
    by (rule id_take_nth_drop [OF p(1)])
  ultimately show "drop start str = take (pos - start) (drop start str) @ c # drop (pos + 1) str"
    using p(2) by (simp add: add.commute)
  show "c \<notin> set (take (pos - start) (drop start str))"
    using std_find_take [of c "drop start str"] p(2) by simp
qed

lemma find_from_None: "find_from c start str = None \<Longrightarrow> c \<notin> set (drop start str)"
  by (metis find_from_def option.distinct(1) std_find_less_iff)

lemma split_loop_segments:
  "split_loop str start result = result @ filter (\<lambda>x. x \<noteq> []) (segments (drop start str))"
proof (induction str start result rule: split_loop.induct)
  case (1 str start result)
  note unfold = split_loop.simps [of str start result]
  show ?case
  proof (cases "find_from (CHR ''/'') start str")
    case None
    then show ?thesis using unfold segments_single [OF find_from_None [OF None]] by auto
  next
    case (Some pos)
    note f = find_from_Some [OF Some]
    have seg: "segments (drop start str) = take (pos - start) (drop start str) # segments (drop (pos + 1) str)"
      by (subst f(1)) (rule segments_slash [OF f(2)])
    show ?thesis using "1.IH" [OF Some] Some unfold find_from_bounds [OF Some] by (auto simp: seg)
  qed
qed

lemma split_segments: "split str = filter (\<lambda>x. x \<noteq> []) (segments str)"
  by (simp add: split_def split_loop_segments)

lemma split_path:
  "\<forall>x\<in>set xs. x \<noteq> [] \<and> CHR ''/'' \<notin> set x \<Longrightarrow> split (concat (map ((#) (CHR ''/'')) xs)) = xs"
proof -
  assume xs: "\<forall>x\<in>set xs. x \<noteq> [] \<and> CHR ''/'' \<notin> set x"
  have "CHR ''/'' \<notin> set y \<Longrightarrow> segments (y @ concat (map ((#) (CHR ''/'')) xs)) = y # xs" for y
    using xs by (induction xs arbitrary: y) (simp_all add: segments_single segments_slash)
  from this [of "[]"] xs show ?thesis by (simp add: split_segments)
qed

section \<open>Answers\<close>

type_synonym registration = "(string \<times> string) \<times> inspector_callback option \<times> string"

definition process_commands :: "proc_env \<Rightarrow> registration list" where
  "process_commands env =
     [((''proc'', ''pid''), Some (ps_pid env), ''print pid''),
      ((''proc'', ''status''), Some (ps_procStatus env), ''print /proc/self/status''),
      ((''proc'', ''opened_files''), Some (ps_openedFiles env), ''count /proc/self/fd''),
      ((''proc'', ''threads''), Some (ps_threads env), ''list /proc/self/task'')]"

definition add_all :: "registration list \<Rightarrow> Inspector \<Rightarrow> Inspector" where
  "add_all = fold (\<lambda>((m, c), cb, h). add m c cb h)"

definition help_line :: "(string \<times> string) \<times> string \<Rightarrow> string" where
  "help_line = (\<lambda>((m, c), h). ''/'' @ m @ ''/'' @ c @ [CHR 0x09] @ h @ [CHR 0x0A])"

definition not_found :: "HttpResponse \<Rightarrow> HttpResponse" where
  "not_found resp = setStatusMessage ''Not Found'' (setStatusCode k404NotFound resp)"

lemma add_all_tables:
  "in_commands (add_all regs ins) = fold (\<lambda>(k, v). put_at k v) (map (\<lambda>(k, cb, h). (k, cb)) regs) (in_commands ins)"
  "in_helps (add_all regs ins) = fold (\<lambda>(k, v). put_at k v) (map (\<lambda>(k, cb, h). (k, h)) regs) (in_helps ins)"
  by (induction regs arbitrary: ins) (auto simp: add_all_def add_def)

lemma map_of_fst: "map_of (map (\<lambda>(k, a, b). (k, a)) rs) k = map_option fst (map_of rs k)"
  by (induction rs) auto

lemma map_of_snd: "map_of (map (\<lambda>(k, a, b). (k, b)) rs) k = map_option snd (map_of rs k)"
  by (induction rs) auto

lemma fold_append_map: "fold (\<lambda>x acc. acc @ f x) xs acc = acc @ concat (map f xs)"
  by (induction xs arbitrary: acc) auto

lemma helps_page_entries: "helps_page t = concat (map help_line (entries t))"
proof -
  have row: "fold (\<lambda>(c, h) result. result @ ''/'' @ m @ ''/'' @ c @ [CHR 0x09] @ h @ [CHR 0x0A]) l acc =
      acc @ concat (map help_line (map (\<lambda>(c, v). ((m, c), v)) l))" for m l acc
    by (induction l arbitrary: acc) (auto simp: help_line_def)
  have "fold (\<lambda>(m, l) result. fold (\<lambda>(c, h) result. result @ ''/'' @ m @ ''/'' @ c @ [CHR 0x09] @ h @ [CHR 0x0A]) l
      result) t acc = acc @ concat (map help_line (entries t))" for acc
    by (induction t arbitrary: acc) (auto simp: entries_def row simp del: map_map append_Cons)
  then show ?thesis by (simp add: helps_page_def)
qed

lemma new_Inspector_add_all:
  "new_Inspector env isMainThread name g = Inr (ins, g') \<Longrightarrow>
    \<exists>ins0. in_commands ins0 = [] \<and> in_helps ins0 = [] \<and>
      in_commands ins = in_commands (add_all (process_commands env) ins0) \<and>
      in_helps ins = in_helps (add_all (process_commands env) ins0)"
  by (intro exI [of _ "\<lparr>in_serverName = ''Inspector:'' @ name, in_httpCallback = True, in_commands = [],
       in_helps = [], in_startQueued = False, in_serverStarted = False\<rparr>"])
    (auto simp: new_Inspector_def registerCommands_def process_commands_def add_all_def elim!: rbind_InrE)

lemma inspector_tables:
  fixes added :: "registration list"
  assumes "new_Inspector env isMainThread name g = Inr (ins0, g')"
  defines "regs \<equiv> process_commands env @ added"
  shows "lookup_at (in_commands (add_all added ins0)) = (\<lambda>k. map_option fst (map_of (rev regs) k))"
    and "lookup_at (in_helps (add_all added ins0)) = (\<lambda>k. map_option snd (map_of (rev regs) k))"
    and "table_ok (in_helps (add_all added ins0))"
proof -
  from new_Inspector_add_all [OF assms(1)] obtain ins1 where
    ins1: "in_commands ins1 = []" "in_helps ins1 = []"
      "in_commands ins0 = in_commands (add_all (process_commands env) ins1)"
      "in_helps ins0 = in_helps (add_all (process_commands env) ins1)" by blast
  have empty: "lookup_at ([] :: 'b table) = Map.empty" "table_ok ([] :: 'b table)" for x :: 'b
    by (simp_all add: lookup_at_def table_ok_def fun_eq_iff)
  have tables: "in_commands (add_all added ins0) = fold (\<lambda>(k, v). put_at k v) (map (\<lambda>(k, cb, h). (k, cb)) regs) []"
    "in_helps (add_all added ins0) = fold (\<lambda>(k, v). put_at k v) (map (\<lambda>(k, cb, h). (k, h)) regs) []"
    using ins1 by (simp_all add: add_all_tables regs_def)
  show "lookup_at (in_commands (add_all added ins0)) = (\<lambda>k. map_option fst (map_of (rev regs) k))"
    "lookup_at (in_helps (add_all added ins0)) = (\<lambda>k. map_option snd (map_of (rev regs) k))"
    unfolding tables reg.lookup_all rev_map empty fun_eq_iff
    by (simp_all add: map_of_fst map_of_snd)
  show "table_ok (in_helps (add_all added ins0))"
    unfolding tables by (rule reg.ok_all) (simp add: empty)
qed

text \<open>The answer to the segments of a path.\<close>

definition answer_spec :: "(string \<times> string \<Rightarrow> (inspector_callback option \<times> string) option) \<Rightarrow> Method \<Rightarrow>
    string list \<Rightarrow> HttpResponse \<Rightarrow> HttpResponse" where
  "answer_spec latest method segs resp =
     (case segs of
        m # c # args \<Rightarrow>
          (case latest (m, c) of
             Some (Some cb, _) \<Rightarrow> ok_text (cb method args) resp
           | _ \<Rightarrow> not_found resp)
      | _ \<Rightarrow> not_found resp)"

lemma onRequest_spec:
  assumes "rq_path req \<noteq> ''/''" "lookup_at (in_commands ins) = (\<lambda>k. map_option fst (latest k))"
  shows "in_onRequest ins req resp = answer_spec latest (rq_method req) (split (rq_path req)) resp"
proof -
  have found: "(case map_of (in_commands ins) m of
        Some l \<Rightarrow> (case map_of l c of Some (Some cb) \<Rightarrow> Some (cb (rq_method req) args) | _ \<Rightarrow> None) | None \<Rightarrow> None) =
      (case latest (m, c) of Some (Some cb, _) \<Rightarrow> Some (cb (rq_method req) args) | _ \<Rightarrow> None)" for m c args
    using fun_cong [OF assms(2), of "(m, c)"]
    by (cases "latest (m, c)") (auto simp: lookup_at_def split: option.splits)
  show ?thesis
    using assms(1)
    by (auto simp: in_onRequest_def answer_spec_def found not_found_def split: list.splits option.splits)
qed

text \<open>
  C36. Whatever is registered after the inspector's own commands, a request is answered by the callback that was
  registered last under the first two non-empty segments of its path, with the other segments as its arguments,
  and by 404 if there is none or it is empty; \<open>/\<close> lists every command once, with its latest help, in the
  order of module and command.
\<close>

theorem inspector_answers:
  fixes added :: "registration list"
  assumes "new_Inspector env isMainThread name g = Inr (ins0, g')"
  defines "ins \<equiv> add_all added ins0" and "latest \<equiv> map_of (rev (process_commands env @ added))"
  shows "if rq_path req = ''/''
    then \<exists>page. in_onRequest ins req resp = ok_text (concat (map help_line page)) resp \<and>
      sorted_wrt (<) (map fst page) \<and> map_of page = (\<lambda>k. map_option snd (latest k))
    else in_onRequest ins req resp =
      answer_spec latest (rq_method req) (filter (\<lambda>x. x \<noteq> []) (segments (rq_path req))) resp"
proof -
  note tables = inspector_tables [OF assms(1), of added, folded ins_def latest_def]
  have "map_of (entries (in_helps ins)) = (\<lambda>k. map_option snd (latest k))"
    using map_of_entries [OF tables(3)] tables(2) by simp
  then show ?thesis
    using onRequest_spec [OF _ tables(1)] entries_sorted [OF tables(3)]
    by (auto simp: in_onRequest_def helps_page_entries split_segments)
qed

text \<open>A process with two threads.\<close>

definition example_proc :: proc_env where
  "example_proc = \<lparr>pe_pid = 7, pe_uid = 0, pe_euid = 0, pe_passwd = (\<lambda>_. None), pe_hostname = None,
     pe_status = \<lparr>fe_open = 3, fe_open_errno = 0, fe_fstat = Inr 1, fe_read = (\<lambda>k offs n. ReadBytes []),
       fe_pread = (\<lambda>n. ReadBytes [])\<rparr>,
     pe_fds = [''.'', ''0''], pe_tasks = [''.'', ''..'', ''12'', ''7''], pe_nofile = None\<rparr>"

theorem inspector_answers_witness:
  "\<exists>ins g. new_Inspector example_proc True ''x'' False = Inr (ins, g) \<and>
    in_onRequest (add_all [((''proc'', ''pid''), Some (\<lambda>m args. concat args), [])] ins)
      (new_HttpRequest\<lparr>rq_path := ''//proc/pid/a//b''\<rparr>) (new_HttpResponse False) =
    ok_text ''ab'' (new_HttpResponse False)"
proof -
  obtain ins g where n: "new_Inspector example_proc True ''x'' False = Inr (ins, g)"
    by (auto simp: new_Inspector_def)
  have "segments ''//proc/pid/a//b'' = [[], [], ''proc'', ''pid'', ''a'', [], ''b'']" by simp
  then show ?thesis
    using inspector_answers [OF n, of "new_HttpRequest\<lparr>rq_path := ''//proc/pid/a//b''\<rparr>"
        "[((''proc'', ''pid''), Some (\<lambda>m args. concat args), [])]" "new_HttpResponse False"] n
    by (auto simp: answer_spec_def)
qed

section \<open>The inspector behind its server\<close>

lemma ps_threads_lines:
  assumes "filter (\<lambda>x. isdigit (first_char x)) (pe_tasks env) = map show_nat tids" "\<forall>n\<in>set tids. n < 2 ^ 31"
  shows "ps_threads env method args = concat (map (\<lambda>n. show_nat n @ [CHR 0x0A]) (sort tids))"
proof -
  have line: "snprintf 32 (show_int (int n) @ [CHR 0x0A]) = show_nat n @ [CHR 0x0A]" if "n \<in> set tids" for n
    using length_show_nat_le [of n 10] assms(2) that by (auto simp: snprintf_def show_int_def)
  have "ps_threads env method args = concat (map (\<lambda>n. snprintf 32 (show_int (int n) @ [CHR 0x0A])) (sort tids))"
    by (simp add: ps_threads_def threads_eq [OF assms] fold_append_map comp_def)
  also have "\<dots> = concat (map (\<lambda>n. show_nat n @ [CHR 0x0A]) (sort tids))"
    by (rule arg_cong [where f = concat], rule map_cong [OF refl]) (simp add: line)
  finally show ?thesis .
qed

text \<open>
  A client that asks for \<open>/proc/threads\<close>, in however many reads, is sent one response: the ids of the
  process's threads, a line each, in increasing order; unless another command was registered under that name.
\<close>

theorem inspector_served:
  assumes conn: "conn_ok tid [] s" "tc_state s = kConnected" "contents (tc_inputBuffer s) = []" "hc_ready ctx"
    and chunks: "concat chunks = request_text ''GET'' ''/proc/threads'' (CHR ''1'') []" "[] \<notin> set chunks"
    and ins: "new_Inspector env isMainThread name g = Inr (ins0, g')" "(''proc'', ''threads'') \<notin> fst ` set added"
    and tasks: "filter (\<lambda>x. isdigit (first_char x)) (pe_tasks env) = map show_nat tids" "\<forall>n\<in>set tids. n < 2 ^ 31"
  defines "page \<equiv> concat (map (\<lambda>n. show_nat n @ [CHR 0x0A]) (sort tids))"
  shows "\<exists>s' ctx' acc. http_reads tid bad (in_onRequest (add_all added ins0)) t chunks (s, ctx) = Some (Inr (s', ctx')) \<and>
    tc_sent s' = tc_sent s @ [(response_text (ok_text page (new_HttpResponse False)), acc)] \<and>
    tc_state s' = kConnected \<and> hc_ready ctx'"
proof -
  let ?cb = "in_onRequest (add_all added ins0)"
  let ?r = "parsed_request t ''GET'' ''/proc/threads'' (CHR ''1'') []"
  have wf: "well_formed ''GET'' ''/proc/threads'' (CHR ''1'') []"
    by (simp add: well_formed_def method_of_def)
  have "map_of (rev added) (''proc'', ''threads'') = None"
    using ins(2) by (simp add: map_of_eq_None_iff)
  then have "map_of (rev (process_commands env @ added)) (''proc'', ''threads'') =
      Some (Some (ps_threads env), ''list /proc/self/task'')"
    by (simp add: process_commands_def map_add_def)
  moreover have "split (rq_path ?r) = [''proc'', ''threads'']" "rq_path ?r \<noteq> ''/''"
    by (simp_all add: parsed_request_def split_segments)
  ultimately have "?cb ?r (new_HttpResponse False) = ok_text (ps_threads env (rq_method ?r) []) (new_HttpResponse False)"
    using onRequest_spec [OF _ inspector_tables(1) [OF ins(1), of added], of ?r] by (simp add: answer_spec_def)
  then have r: "http_response ?cb ?r = ok_text page (new_HttpResponse False)"
    by (simp add: http_response_def page_def ps_threads_lines [OF tasks] parsed_request_def getHeader_def getVersion_def)
  have "\<not> rs_closeConnection (ok_text page (new_HttpResponse False))" 
    by (simp add: ok_text_def setBody_def setContentType_def setStatusMessage_def setStatusCode_def rs_addHeader_def
        new_HttpResponse_def)
  with http_request_served [OF conn(1-3,4) wf chunks, where cb = ?cb and t = t and bad = bad] show ?thesis
    unfolding r by auto
qed

theorem inspector_served_witness:
  "\<exists>ins g s' ctx' acc. new_Inspector example_proc True ''x'' False = Inr (ins, g) \<and>
    http_reads 77 (\<lambda>_. []) (in_onRequest ins) (Timestamp 1)
      [''GET /proc/thr'', ''eads HTTP/1.1'' @ kCRLF @ kCRLF] (open_conn, new_HttpContext) = Some (Inr (s', ctx')) \<and>
    tc_sent s' = [(response_text (ok_text (''7'' @ [CHR 0x0A] @ ''12'' @ [CHR 0x0A]) (new_HttpResponse False)), acc)]"
proof -
  obtain ins g where n: "new_Inspector example_proc True ''x'' False = Inr (ins, g)"
    by (auto simp: new_Inspector_def)
  have ready: "hc_ready new_HttpContext" by (simp add: hc_ready_def new_HttpContext_def new_HttpRequest_def)
  have c: "tc_state open_conn = kConnected" "contents (tc_inputBuffer open_conn) = []" "tc_sent open_conn = []"
    by (simp_all add: open_conn_def idle_conn_def)
  have r: "concat [''GET /proc/thr'', ''eads HTTP/1.1'' @ kCRLF @ kCRLF] = request_text ''GET'' ''/proc/threads'' (CHR ''1'') []"
    "[] \<notin> set [''GET /proc/thr'', ''eads HTTP/1.1'' @ kCRLF @ kCRLF]"
    by (simp_all add: request_text_def)
  have shown: "show_nat 12 = ''12''" "show_nat 7 = ''7''" by (simp_all add: show_nat.simps digit_char_def char_of_eq_iff)
  have t: "filter (\<lambda>x. isdigit (first_char x)) (pe_tasks example_proc) = map show_nat [12, 7]"
    "\<forall>n\<in>set [12, 7 :: nat]. n < 2 ^ 31"
    by (simp_all add: example_proc_def first_char_def isdigit_def shown)
  have p: "concat (map (\<lambda>n. show_nat n @ [CHR 0x0A]) (sort [12, 7])) = ''7'' @ [CHR 0x0A] @ ''12'' @ [CHR 0x0A]"
    by (simp add: shown)
  show ?thesis
    using inspector_served [OF open_conn_ok c(1,2) ready r n _ t, of "[]" "\<lambda>_. []" "Timestamp 1", unfolded p] n c(3)
    by (auto simp: add_all_def)
qed

end
