(* ===== verification/TcpClient.thy ===== *)
theory TcpClient
  imports Connector TcpServer
begin

text \<open>
  \<open>muduo/net/TcpClient.cc\<close>: one connection, made by a \<open>Connector\<close> and remade after its end if \<open>retry_\<close> says so.
  The client, its connector and its connections live on one loop; calls may come from any thread. As in
  \<open>TcpServer\<close> the client sees the life of a connection only (\<open>conn\<close>). \<open>tl_functors\<close> are the connections whose
  \<open>connectDestroyed\<close> is queued; they touch no state of the connector, so that their order relative to its
  functors does not matter. \<open>tl_newborn\<close> says that the loop has not finished the round in which \<open>connection_\<close>
  was made: the poller has not been asked about it yet.
\<close>

section \<open>Operations\<close>

record TcpClient =
  tl_alive :: bool
  tl_connector :: Connector
  tl_name :: string
  tl_retry :: bool
  tl_connect :: bool
  tl_nextConnId :: int
  tl_connection :: "nat option"
  tl_conns :: "nat \<Rightarrow> conn option"
  tl_functors :: "nat list"
  tl_newborn :: bool

definition new_TcpClient :: "string \<Rightarrow> Connector \<Rightarrow> TcpClient" where
  "new_TcpClient nameArg l = \<lparr>tl_alive = True, tl_connector = new_Connector l, tl_name = nameArg, tl_retry = False,
     tl_connect = True, tl_nextConnId = 1, tl_connection = None, tl_conns = (\<lambda>_. None), tl_functors = [],
     tl_newborn = False\<rparr>"

definition tl_on_conn :: "nat \<Rightarrow> (conn \<Rightarrow> conn result) \<Rightarrow> TcpClient \<Rightarrow> TcpClient result" where
  "tl_on_conn c f s = (case tl_conns s c of
     None \<Rightarrow> Inl (Undefined ''no such connection'')
   | Some x \<Rightarrow> rbind (f x) (\<lambda>x. Inr (s\<lparr>tl_conns := (tl_conns s)(c \<mapsto> x)\<rparr>)))"

definition on_connector :: "(Connector \<Rightarrow> Connector result) \<Rightarrow> TcpClient \<Rightarrow> TcpClient result" where
  "on_connector f s = rbind (f (tl_connector s)) (\<lambda>cn. Inr (s\<lparr>tl_connector := cn\<rparr>))"

definition tl_connect_call :: "int \<Rightarrow> cn_env \<Rightarrow> TcpClient \<Rightarrow> TcpClient result" where
  "tl_connect_call t env s = on_connector (start t env) (s\<lparr>tl_connect := True\<rparr>)"

text \<open>\<open>shutdown()\<close> of a connection changes its state if it is connected.\<close>

definition cx_shutdown :: "conn \<Rightarrow> conn result" where
  "cx_shutdown x = Inr (if cx_state x = stateE.kConnected then x\<lparr>cx_state := kDisconnecting\<rparr> else x)"

definition tl_disconnect :: "TcpClient \<Rightarrow> TcpClient result" where
  "tl_disconnect s =
     (let s = s\<lparr>tl_connect := False\<rparr> in
      case tl_connection s of None \<Rightarrow> Inr s | Some c \<Rightarrow> tl_on_conn c cx_shutdown s)"

definition tl_stop :: "int \<Rightarrow> cn_env \<Rightarrow> TcpClient \<Rightarrow> TcpClient result" where
  "tl_stop t env s = on_connector (stop t env) (s\<lparr>tl_connect := False\<rparr>)"

definition enableRetry :: "TcpClient \<Rightarrow> TcpClient" where
  "enableRetry s = s\<lparr>tl_retry := True\<rparr>"

text \<open>\<open>c\<close> is the new \<open>TcpConnection\<close> object; the connector calls through a plain pointer to the client.\<close>

definition tl_newConnection :: "int \<Rightarrow> bool \<Rightarrow> nat \<Rightarrow> sockaddr_in \<Rightarrow> int \<Rightarrow> TcpClient \<Rightarrow> TcpClient result" where
  "tl_newConnection tid le c peerAddr sockfd s =
     (if \<not> tl_alive s then Inl (Undefined ''TcpClient has been destroyed'') else
      rbind (assertInLoopThread tid (tl_connector s)) (\<lambda>_.
      rbind (InetAddress_toIpPort le peerAddr) (\<lambda>hostport.
      let connName = conn_name (tl_name s) hostport (tl_nextConnId s) in
      rbind (if tl_nextConnId s < 2 ^ 31 - 1 then Inr () else Inl (Undefined ''signed overflow'')) (\<lambda>_.
      let x = \<lparr>cx_name = connName, cx_loop = 0, cx_sockfd = sockfd, cx_state = stateE.kConnecting,
                cx_registered = False, cx_watched = False\<rparr>;
          s = s\<lparr>tl_nextConnId := tl_nextConnId s + 1, tl_conns := (tl_conns s)(c \<mapsto> x),
                tl_connection := Some c, tl_newborn := True\<rparr>
      in tl_on_conn c cx_established s))))"

definition tl_removeConnection :: "int \<Rightarrow> cn_env \<Rightarrow> nat \<Rightarrow> TcpClient \<Rightarrow> TcpClient result" where
  "tl_removeConnection tid env c s =
     rbind (assertInLoopThread tid (tl_connector s)) (\<lambda>_.
     rbind (guard (tl_connection s = Some c) ''connection_ == conn'') (\<lambda>_.
     let s = s\<lparr>tl_connection := None, tl_functors := tl_functors s @ [c]\<rparr>
     in if tl_retry s \<and> tl_connect s then on_connector (restart tid env) s else Inr s))"

text \<open>The close callback of a connection that outlives the client.\<close>

definition detail_removeConnection :: "nat \<Rightarrow> TcpClient \<Rightarrow> TcpClient result" where
  "detail_removeConnection c s = Inr (s\<lparr>tl_functors := tl_functors s @ [c]\<rparr>)"

definition tl_handleClose :: "int \<Rightarrow> cn_env \<Rightarrow> nat \<Rightarrow> TcpClient \<Rightarrow> TcpClient result" where
  "tl_handleClose tid env c s =
     rbind (tl_on_conn c cx_closed s) (\<lambda>s.
     if tl_alive s then tl_removeConnection tid env c s else detail_removeConnection c s)"

text \<open>
  The destructor, in a thread \<open>t\<close>. With a connection, the connector dies with the client, although functors hold
  plain pointers to it; and the connection dies, although the poller knows its channel, unless the user
  holds it (\<open>held\<close>). Without one, the connector is stopped and kept for a second.
\<close>

definition TcpClient_dtor :: "int \<Rightarrow> cn_env \<Rightarrow> bool \<Rightarrow> TcpClient \<Rightarrow> TcpClient result" where
  "TcpClient_dtor t env held s = (case tl_connection s of
     Some c \<Rightarrow>
       if el_pendingFunctors (tl_connector s) \<noteq> [] then Inl (Undefined ''a functor refers to the connector'')
       else rbind (Connector_dtor (tl_connector s)) (\<lambda>_.
         if held then Inr (s\<lparr>tl_alive := False, tl_connection := None\<rparr>)
         else Inl (Undefined ''the poller refers to the channel''))
   | None \<Rightarrow> on_connector (stop t env) (s\<lparr>tl_alive := False\<rparr>))"

section \<open>Events\<close>

datatype tl_event =
    Connect int
  | Disconnect
  | Stop int
  | EnableRetry
  | ConnectorEvent "32 word" nat bool nat sockaddr_in \<comment> \<open>the poller reports the connector's channel\<close>
  | ConnectorRetry
  | RunFunctors \<comment> \<open>the end of a round of the loop\<close>
  | ConnectionClosed nat \<comment> \<open>the poller reports the end of a connection\<close>
  | Destroy int bool

text \<open>The socket the connector hands over in a step, if any.\<close>

definition handed_over :: "Connector \<Rightarrow> Connector \<Rightarrow> int list" where
  "handed_over cn cn' = drop (length (cn_handed cn)) (cn_handed cn')"

definition tl_step :: "int \<Rightarrow> bool \<Rightarrow> cn_env \<Rightarrow> tl_event \<Rightarrow> TcpClient \<Rightarrow> TcpClient result" where
  "tl_step tid le env ev s = (case ev of
     Connect t \<Rightarrow> tl_connect_call t env s
   | Disconnect \<Rightarrow> tl_disconnect s
   | Stop t \<Rightarrow> tl_stop t env s
   | EnableRetry \<Rightarrow> Inr (enableRetry s)
   | ConnectorEvent r err isSelf c peer \<Rightarrow>
       rbind (cn_step tid env (ChannelEvent r err isSelf) (tl_connector s)) (\<lambda>cn.
       rfold (tl_newConnection tid le c peer) (handed_over (tl_connector s) cn) (s\<lparr>tl_connector := cn\<rparr>))
   | ConnectorRetry \<Rightarrow> on_connector (cn_step tid env RetryTimer) s
   | RunFunctors \<Rightarrow>
       rbind (on_connector (cn_step tid env cn_event.Functors) s) (\<lambda>s.
       rfold (\<lambda>c. tl_on_conn c cx_destroyed) (tl_functors s) (s\<lparr>tl_functors := [], tl_newborn := False\<rparr>))
   | ConnectionClosed c \<Rightarrow> tl_handleClose tid env c s
   | Destroy t held \<Rightarrow> TcpClient_dtor t env held s)"

text \<open>
  The proper use: \<open>connect\<close> is called when the connector is idle; the client is destroyed when it has no
  connection, or when the user holds the connection and no functor of the connector is pending.
\<close>

definition tl_allowed :: "cn_env \<Rightarrow> tl_event \<Rightarrow> TcpClient \<Rightarrow> bool" where
  "tl_allowed env ev s \<longleftrightarrow> cn_fresh env (tl_connector s) \<and> (case ev of
     Connect t \<Rightarrow> tl_alive s \<and> cn_allowed env (CallStart t) (tl_connector s)
   | Disconnect \<Rightarrow> tl_alive s
   | Stop t \<Rightarrow> tl_alive s
   | EnableRetry \<Rightarrow> tl_alive s
   | ConnectorEvent r err isSelf c peer \<Rightarrow> cn_state (tl_connector s) = States.kConnecting \<and> tl_conns s c = None \<and>
       tl_nextConnId s < 2 ^ 31 - 1
   | ConnectorRetry \<Rightarrow> cn_allowed env RetryTimer (tl_connector s)
   | RunFunctors \<Rightarrow> True
   | ConnectionClosed c \<Rightarrow> \<not> tl_newborn s \<and> (\<exists>x. tl_conns s c = Some x \<and> cx_registered x \<and> cx_watched x)
   | Destroy t held \<Rightarrow> tl_alive s \<and> (tl_connection s \<noteq> None \<longrightarrow> held \<and> el_pendingFunctors (tl_connector s) = [] \<and>
       cn_channel (tl_connector s) = None))"

section \<open>What a step of the connector keeps\<close>

lemma removeAndReset_form:
  assumes inv: "cn_inv tid fs s" and st: "cn_state s = States.kConnecting"
  shows "\<exists>fd x y z w. removeAndResetChannel tid s = Inr (fd, s\<lparr>chans := x, pollfds := y, channels := z,
    el_pendingFunctors := el_pendingFunctors s @ [ResetChannel], el_wakeups := w\<rparr>)"
proof -
  from inv st obtain a c where a: "cn_channel s = Some a" "chans s a = Some c" "\<not> ch_eventHandling c" "registered a s"
    by (auto simp: cn_inv_def cn_link_def split: option.splits)
  have "loop_ok tid s" "removable a s" using inv by (auto simp: cn_inv_def cn_link_def)
  from remove_channel [OF this a(1,2,4,3)] show ?thesis by blast
qed

text \<open>The flag and the sockets handed over, which only a channel event adds to.\<close>

definition cn_kept :: "Connector \<Rightarrow> bool \<times> int list" where
  "cn_kept s = (cn_connect s, cn_handed s)"

lemma cn_kept_simps [simp]:
  "cn_kept (retry fd s) = cn_kept s" "cn_kept (cn_close fd s) = cn_kept s"
  "cn_kept (s\<lparr>chans := x, pollfds := y, channels := z, el_pendingFunctors := q, el_wakeups := w\<rparr>) = cn_kept s"
  by (simp_all add: cn_kept_def retry_def cn_close_def Let_def)

lemma connect_kept:
  assumes ok: "loop_ok tid s" and idle: "cn_channel s = None" and fresh: "cn_fresh env s"
    and r: "connect tid env s = Inr s'"
  shows "cn_kept s' = cn_kept s" "cn_tries s' = cn_tries s + 1"
proof -
  let ?n = "cn_tries s" let ?fd = "env_socket env ?n" let ?a = "env_alloc env ?n"
  let ?s = "s\<lparr>cn_tries := ?n + 1, cn_opened := cn_opened s @ [?fd]\<rparr>"
  have "loop_ok tid ?s" using ok by simp
  from connecting_ok [OF this, of ?a ?fd] fresh idle obtain x y z where
    c: "connecting tid ?a ?fd ?s = Inr (?s\<lparr>cn_state := States.kConnecting, cn_channel := Some ?a, chans := x,
      pollfds := y, channels := z\<rparr>)" by (auto simp: cn_fresh_def)
  have "connecting tid ?a ?fd ?s = Inr s' \<or> s' = retry ?fd ?s \<or> s' = cn_close ?fd ?s"
    using r fresh by (simp add: connect_def Let_def cn_fresh_def split: if_splits)
  then have "cn_kept s' = cn_kept s \<and> cn_tries s' = cn_tries s + 1"
  proof (elim disjE)
    assume "connecting tid ?a ?fd ?s = Inr s'"
    with c show ?thesis by (simp only: sum.inject) (simp add: cn_kept_def)
  qed (simp_all add: cn_kept_def retry_def cn_close_def Let_def)
  then show "cn_kept s' = cn_kept s" "cn_tries s' = cn_tries s + 1" by simp_all
qed

lemma startInLoop_kept:
  assumes "loop_ok tid s" "cn_channel s = None" "cn_fresh env s" "startInLoop tid env s = Inr s'"
  shows "cn_kept s' = cn_kept s"
  using assms(4) connect_kept [OF assms(1-3)] by (auto simp: startInLoop_def rbind_eq_Inr_conv split: if_splits)

lemma stopInLoop_kept:
  assumes "cn_inv tid fs s" "stopInLoop tid s = Inr s'"
  shows "cn_kept s' = cn_kept s"
proof (cases "cn_state s = States.kConnecting")
  case True
  let ?s = "s\<lparr>cn_state := States.kDisconnected\<rparr>"
  from removeAndReset_form [OF assms(1) True] part [OF assms(1) True, of States.kDisconnected] obtain fd s1 where
    "removeAndResetChannel tid ?s = Inr (fd, s1)" by blast
  from assms(1) True obtain a c where a: "cn_channel s = Some a" "chans s a = Some c" "\<not> ch_eventHandling c" "registered a s"
    by (auto simp: cn_inv_def cn_link_def split: option.splits)
  have "loop_ok tid ?s" "removable a ?s" using assms(1) by (auto simp: cn_inv_def cn_link_def removable_def)
  from remove_channel [OF this, where c = c] a obtain x y z w where
    "removeAndResetChannel tid ?s = Inr (ch_fd c, ?s\<lparr>chans := x, pollfds := y, channels := z,
      el_pendingFunctors := el_pendingFunctors ?s @ [ResetChannel], el_wakeups := w\<rparr>)" by auto
  with assms(2) True show ?thesis
    by (auto simp: stopInLoop_def rbind_eq_Inr_conv) (simp add: cn_kept_def)
next
  case False
  with assms(2) show ?thesis by (auto simp: stopInLoop_def rbind_eq_Inr_conv)
qed

lemma resetChannel_kept:
  "resetChannel s = Inr s' \<Longrightarrow> cn_kept s' = cn_kept s \<and> cn_state s' = cn_state s \<and>
    el_pendingFunctors s' = el_pendingFunctors s"
  by (auto simp: resetChannel_def Channel_dtor_def cn_kept_def rbind_eq_Inr_conv split: option.splits if_splits)

lemma run_cn_kept:
  assumes inv: "cn_inv tid ((f # gs) @ el_pendingFunctors s) s" and "f = StartInLoop \<longrightarrow> cn_fresh env s"
    and r: "run_cn tid env f s = Inr s'"
  shows "cn_kept s' = cn_kept s"
proof (cases f)
  case StartInLoop
  with inv have "loop_ok tid s" "cn_channel s = None" by (auto simp: cn_inv_def cn_link_def cn_queue_def)
  with startInLoop_kept assms(2,3) StartInLoop show ?thesis by (simp add: run_cn_def)
next
  case StopInLoop
  with stopInLoop_kept [OF inv] r show ?thesis by (simp add: run_cn_def)
next
  case ResetChannel
  with resetChannel_kept r show ?thesis by (simp add: run_cn_def)
qed

lemma run_all_kept:
  "cn_inv tid (fs @ el_pendingFunctors s) s \<Longrightarrow> (StartInLoop \<in> set fs \<longrightarrow> cn_fresh env s) \<Longrightarrow>
    rfold (run_cn tid env) fs s = Inr s' \<Longrightarrow> cn_kept s' = cn_kept s"
proof (induction fs arbitrary: s)
  case (Cons f fs)
  from run_cn_inv [OF Cons.prems(1), of env] Cons.prems(2) obtain s1 where
    s1: "run_cn tid env f s = Inr s1" "cn_inv tid (fs @ el_pendingFunctors s1) s1" "StartInLoop \<in> set fs \<longrightarrow> s1 = s"
    by auto
  with run_cn_kept [OF Cons.prems(1) _ s1(1)] Cons.IH [OF s1(2)] Cons.prems(2,3) show ?case by auto
qed simp

text \<open>A connector that has handed over its socket stays so while functors run, and its channel goes away.\<close>

lemma run_cn_connected:
  assumes inv: "cn_inv tid ((f # gs) @ el_pendingFunctors s) s" and st: "cn_state s = States.kConnected"
    and r: "run_cn tid env f s = Inr s'"
  shows "cn_state s' = States.kConnected \<and> el_pendingFunctors s' = el_pendingFunctors s"
proof (cases f)
  case StartInLoop
  with inv st show ?thesis by (auto simp: cn_inv_def cn_queue_def)
next
  case StopInLoop
  with st r show ?thesis by (auto simp: run_cn_def stopInLoop_def rbind_eq_Inr_conv)
next
  case ResetChannel
  with resetChannel_kept r st show ?thesis by (simp add: run_cn_def)
qed

lemma run_all_connected:
  "cn_inv tid (fs @ el_pendingFunctors s) s \<Longrightarrow> cn_state s = States.kConnected \<Longrightarrow>
    rfold (run_cn tid env) fs s = Inr s' \<Longrightarrow>
    cn_state s' = States.kConnected \<and> el_pendingFunctors s' = el_pendingFunctors s \<and>
    cn_inv tid (el_pendingFunctors s') s'"
proof (induction fs arbitrary: s)
  case (Cons f fs)
  have "f \<noteq> StartInLoop" using Cons.prems(1,2) by (auto simp: cn_inv_def cn_queue_def)
  with run_cn_inv [OF Cons.prems(1), of env] obtain s1 where
    s1: "run_cn tid env f s = Inr s1" "cn_inv tid (fs @ el_pendingFunctors s1) s1" by auto
  note c = run_cn_connected [OF Cons.prems(1,2) s1(1)]
  have "rfold (run_cn tid env) fs s1 = Inr s'" using Cons.prems(3) s1(1) by simp
  from Cons.IH [OF s1(2) conjunct1 [OF c] this] conjunct2 [OF c] show ?case by metis
qed simp

lemma swap_inv:
  assumes inv: "cn_inv tid (el_pendingFunctors s) s"
  shows "cn_inv tid (el_pendingFunctors s @ []) (s\<lparr>el_callingPendingFunctors := True, el_pendingFunctors := []\<rparr>)"
  by (rule cn_inv_simple [OF inv]) (use inv in \<open>simp_all add: cn_inv_def cn_queue_def cn_delays_def\<close>)

lemma functors_kept:
  assumes inv: "cn_inv tid (el_pendingFunctors s) s" and fresh: "cn_fresh env s"
    and r: "cn_step tid env cn_event.Functors s = Inr s'"
  shows "cn_kept s' = cn_kept s"
    and "cn_state s = States.kConnected \<Longrightarrow> cn_state s' = States.kConnected \<and> cn_channel s' = None"
proof -
  let ?s = "s\<lparr>el_callingPendingFunctors := True, el_pendingFunctors := []\<rparr>"
  have inv': "cn_inv tid (el_pendingFunctors s @ el_pendingFunctors ?s) ?s" using swap_inv [OF inv] by simp
  have fresh': "cn_fresh env ?s" using fresh by (simp add: cn_fresh_def)
  from r obtain t where t: "rfold (run_cn tid env) (el_pendingFunctors s) ?s = Inr t"
    "s' = t\<lparr>el_callingPendingFunctors := False\<rparr>"
    by (auto simp: cn_step_def doPendingFunctors_def swap_functors_def rbind_eq_Inr_conv)
  from run_all_kept [OF inv' _ t(1)] fresh' have "cn_kept t = cn_kept ?s" by simp
  with t(2) show "cn_kept s' = cn_kept s" by (simp add: cn_kept_def)
  assume st: "cn_state s = States.kConnected"
  from run_all_connected [OF inv' _ t(1)] st t(2) show "cn_state s' = States.kConnected \<and> cn_channel s' = None"
    by (auto simp: cn_inv_def cn_queue_def split: if_splits)
qed

text \<open>A channel event hands over at most one socket, and only if the flag is set; then the connector is done.\<close>

lemma callback_kept:
  assumes inv: "cn_inv tid (el_pendingFunctors s) s" and st: "cn_state s = States.kConnecting"
    and r: "cn_callback tid err isSelf k s = Inr s'" and k: "k = WriteCB \<or> k = ErrorCB"
  shows "cn_kept s' = cn_kept s \<or>
    (\<exists>fd. cn_connect s \<and> cn_kept s' = (True, cn_handed s @ [fd]) \<and> cn_state s' = States.kConnected)"
proof -
  from removeAndReset_form [OF inv st] obtain fd x y z w where
    f: "removeAndResetChannel tid s = Inr (fd, s\<lparr>chans := x, pollfds := y, channels := z,
      el_pendingFunctors := el_pendingFunctors s @ [ResetChannel], el_wakeups := w\<rparr>)" by blast
  show ?thesis using k
  proof
    assume "k = ErrorCB"
    with r st f show ?thesis by (auto simp: cn_callback_def cn_handleError_def)
  next
    assume "k = WriteCB"
    with r st f show ?thesis
      by (auto simp: cn_callback_def cn_handleWrite_def Let_def split: if_splits) (simp_all add: cn_kept_def cn_close_def)
  qed
qed

lemma channel_event_kept:
  assumes inv: "cn_inv tid (el_pendingFunctors s) s" and st: "cn_state s = States.kConnecting"
    and r: "cn_step tid env (ChannelEvent rv err isSelf) s = Inr s'"
  shows "cn_kept s' = cn_kept s \<or>
    (\<exists>fd. cn_connect s \<and> cn_kept s' = (True, cn_handed s @ [fd]) \<and> cn_state s' = States.kConnected)"
proof -
  let ?cb = "cn_callback tid err isSelf"
  have skip: "rfold ?cb (if b then [CloseCB] else []) u = Inr u" "rfold ?cb (if b then [ReadCB] else []) u = Inr u" for b u
    by (simp_all add: cn_callback_def)
  from r obtain s1 where s1: "rfold ?cb (if bit rv 5 \<or> bit rv 3 then [ErrorCB] else []) s = Inr s1"
    "rfold ?cb (if bit rv 2 then [WriteCB] else []) s1 = Inr s'"
    by (auto simp: cn_step_def fired_def rfold_append skip rbind_eq_Inr_conv)
  show ?thesis
  proof (cases "bit rv 5 \<or> bit rv 3")
    case True
    with s1(1) have e: "?cb ErrorCB s = Inr s1" by simp
    from callback_inv [OF inv st, of ErrorCB err isSelf] e have d: "cn_state s1 = States.kDisconnected" by simp
    have "s' = s1" using s1(2) d
      by (auto simp: cn_callback_def cn_handleWrite_def rbind_eq_Inr_conv split: if_splits)
    with callback_kept [OF inv st e] d show ?thesis by simp
  next
    case False
    with s1(1) have "s1 = s" by simp
    with callback_kept [OF inv st, of err isSelf WriteCB s'] s1(2) show ?thesis by (auto split: if_splits)
  qed
qed

text \<open>Stopping changes the flag only, once the connector is done.\<close>

lemma stop_kept:
  assumes inv: "cn_inv tid (el_pendingFunctors s) s" and r: "stop t env s = Inr s'"
  shows "cn_kept s' = (False, cn_handed s)"
    and "cn_state s = States.kConnected \<Longrightarrow> cn_state s' = States.kConnected \<and> cn_channel s' = cn_channel s"
proof -
  let ?s = "s\<lparr>cn_connect := False\<rparr>"
  have k: "cn_kept ?s = (False, cn_handed s)" by (simp add: cn_kept_def)
  note inv' = connect_flag_inv [OF inv, of False]
  obtain w where q: "queueInLoop t StopInLoop ?s =
      ?s\<lparr>el_pendingFunctors := el_pendingFunctors ?s @ [StopInLoop], el_wakeups := w\<rparr>"
    using queueInLoop_eq [of t StopInLoop ?s] by (rule exE)
  have "stopInLoop t ?s = Inr s' \<and> t = tid \<or> s' = queueInLoop t StopInLoop ?s"
    using r inv' by (auto simp: stop_def runInLoop_def run_cn_def isInLoopThread_def cn_inv_def cn_link_def loop_ok_def
        split: if_splits)
  with stopInLoop_kept [OF inv'] q k show "cn_kept s' = (False, cn_handed s)" by (auto simp: cn_kept_def)
  assume "cn_state s = States.kConnected"
  with r show "cn_state s' = States.kConnected \<and> cn_channel s' = cn_channel s"
    by (auto simp: q stop_def runInLoop_def run_cn_def stopInLoop_def rbind_eq_Inr_conv split: if_splits)
qed

section \<open>The invariant\<close>

text \<open>
  \<open>current\<close>: the connection is \<open>connection_\<close>; \<open>due\<close>: how often its destruction is queued.
\<close>

definition cx_ok :: "bool \<Rightarrow> bool \<Rightarrow> nat \<Rightarrow> conn \<Rightarrow> bool" where
  "cx_ok alive current due x \<longleftrightarrow> cx_state x \<noteq> stateE.kConnecting \<and>
     cx_watched x = (cx_state x = stateE.kConnected \<or> cx_state x = kDisconnecting) \<and>
     (cx_watched x \<longrightarrow> cx_registered x) \<and> (alive \<longrightarrow> cx_watched x = current) \<and>
     due = of_bool (cx_registered x \<and> \<not> cx_watched x)"

definition link_done :: "bool \<Rightarrow> bool \<Rightarrow> nat option \<Rightarrow> Connector \<Rightarrow> bool" where
  "link_done alive newborn k cn \<longleftrightarrow>
     (k \<noteq> None \<longrightarrow> alive \<and> cn_state cn = States.kConnected \<and> (\<not> newborn \<longrightarrow> cn_channel cn = None)) \<and>
     (\<not> alive \<longrightarrow> \<not> cn_connect cn \<or> cn_state cn = States.kConnected)"

definition tl_inv :: "int \<Rightarrow> TcpClient \<Rightarrow> bool" where
  "tl_inv tid s \<longleftrightarrow> cn_inv tid (el_pendingFunctors (tl_connector s)) (tl_connector s) \<and>
     link_done (tl_alive s) (tl_newborn s) (tl_connection s) (tl_connector s) \<and>
     (\<forall>c x. tl_conns s c = Some x \<longrightarrow>
        cx_ok (tl_alive s) (tl_connection s = Some c) (count_list (tl_functors s) c) x) \<and>
     (\<forall>c. c \<in> set (tl_functors s) \<or> tl_connection s = Some c \<longrightarrow> tl_conns s c \<noteq> None)"

lemma tl_inv_conn:
  "tl_inv tid s \<Longrightarrow> tl_conns s c = Some x \<Longrightarrow>
    cx_ok (tl_alive s) (tl_connection s = Some c) (count_list (tl_functors s) c) x"
  by (simp add: tl_inv_def)

lemma tl_inv_flags [simp]:
  "tl_inv tid (s\<lparr>tl_connect := b\<rparr>) = tl_inv tid s" "tl_inv tid (s\<lparr>tl_retry := b\<rparr>) = tl_inv tid s"
  "tl_inv tid (s\<lparr>tl_nextConnId := n\<rparr>) = tl_inv tid s"
  by (simp_all add: tl_inv_def)

lemma tl_inv_connector:
  assumes "tl_inv tid s" "cn_inv tid (el_pendingFunctors cn) cn" "link_done (tl_alive s) (tl_newborn s) (tl_connection s) cn"
  shows "tl_inv tid (s\<lparr>tl_connector := cn\<rparr>)"
  using assms by (simp add: tl_inv_def)

text \<open>A change of one connection.\<close>

lemma tl_inv_change:
  assumes inv: "tl_inv tid s" and c: "tl_conns s c \<noteq> None \<or> (tl_connection s = None \<and> tl_conns s c = None)"
    and link: "link_done (tl_alive s) n k (tl_connector s)"
    and k: "k = tl_connection s \<or> k = Some c \<or> tl_connection s = Some c \<and> k = None"
    and q: "\<And>d. d \<noteq> c \<Longrightarrow> count_list q d = count_list (tl_functors s) d"
    and own: "cx_ok (tl_alive s) (k = Some c) (count_list q c) x"
    and other: "k = Some c \<Longrightarrow> tl_connection s = Some c \<or> tl_connection s = None"
  shows "tl_inv tid (s\<lparr>tl_conns := (tl_conns s)(c \<mapsto> x), tl_connection := k, tl_functors := q, tl_newborn := n\<rparr>)"
proof -
  have "cx_ok (tl_alive s) (k = Some d) (count_list q d) y" if "((tl_conns s)(c \<mapsto> x)) d = Some y" for d y
  proof (cases "d = c")
    case True
    with own that show ?thesis by simp
  next
    case False
    with that have y: "tl_conns s d = Some y" by simp
    have "(k = Some d) = (tl_connection s = Some d)" using k other False by auto
    with tl_inv_conn [OF inv y] q [OF False] show ?thesis by simp
  qed
  moreover have "((tl_conns s)(c \<mapsto> x)) d \<noteq> None" if "d \<in> set q \<or> k = Some d" for d
  proof (cases "d = c")
    case False
    have "d \<in> set q \<longleftrightarrow> d \<in> set (tl_functors s)" using q [OF False] by (metis count_list_0_iff)
    then have "d \<in> set (tl_functors s) \<or> tl_connection s = Some d" using that False k by auto
    with inv False show ?thesis by (auto simp: tl_inv_def)
  qed simp
  ultimately show ?thesis using inv link by (simp add: tl_inv_def)
qed

lemma tl_inv_change_conn:
  assumes "tl_inv tid s" "tl_conns s c = Some x"
    and "cx_ok (tl_alive s) (tl_connection s = Some c) (count_list (tl_functors s) c) x'"
  shows "tl_inv tid (s\<lparr>tl_conns := (tl_conns s)(c \<mapsto> x')\<rparr>)"
  using assms by (auto simp: tl_inv_def)

lemma on_conn_form: "tl_conns s c = Some x \<Longrightarrow> f x = Inr x' \<Longrightarrow>
    tl_on_conn c f s = Inr (s\<lparr>tl_conns := (tl_conns s)(c \<mapsto> x')\<rparr>)"
  by (simp add: tl_on_conn_def)

section \<open>Every step keeps it\<close>

lemma tl_thread: "tl_inv tid s \<Longrightarrow> assertInLoopThread tid (tl_connector s) = Inr ()"
  by (simp add: tl_inv_def cn_inv_def cn_link_def loop_thread)

lemma disconnect_inv:
  assumes inv: "tl_inv tid s"
  shows "\<exists>s'. tl_disconnect s = Inr s' \<and> tl_inv tid s'"
proof (cases "tl_connection s")
  case None
  with inv show ?thesis by (simp add: tl_disconnect_def)
next
  case (Some c)
  then obtain x where x: "tl_conns s c = Some x" using inv by (auto simp: tl_inv_def)
  let ?s = "s\<lparr>tl_connect := False\<rparr>"
  let ?x = "if cx_state x = stateE.kConnected then x\<lparr>cx_state := kDisconnecting\<rparr> else x"
  have "tl_inv tid (?s\<lparr>tl_conns := (tl_conns ?s)(c \<mapsto> ?x)\<rparr>)"
    by (rule tl_inv_change_conn [where x = x]) (use inv tl_inv_conn [OF inv x] x in \<open>auto simp: cx_ok_def\<close>)
  with Some x show ?thesis by (simp add: tl_disconnect_def tl_on_conn_def cx_shutdown_def)
qed

lemma stop_inv:
  assumes inv: "tl_inv tid s" and fresh: "cn_fresh env (tl_connector s)" and dead: "\<not> a \<longrightarrow> tl_connection s = None"
  shows "\<exists>s'. on_connector (stop t env) (s\<lparr>tl_alive := a, tl_connect := b\<rparr>) = Inr s' \<and> (tl_alive s \<longrightarrow> tl_inv tid s')"
proof -
  have cn: "cn_inv tid (el_pendingFunctors (tl_connector s)) (tl_connector s)" using inv by (simp add: tl_inv_def)
  from cn_step_inv [OF this, of env "CallStop t"] fresh obtain cn' where
    cn': "stop t env (tl_connector s) = Inr cn'" "cn_inv tid (el_pendingFunctors cn') cn'"
    by (auto simp: cn_allowed_def cn_step_def)
  note k = stop_kept [OF cn cn'(1)]
  have "tl_inv tid ((s\<lparr>tl_alive := a, tl_connect := b\<rparr>)\<lparr>tl_connector := cn'\<rparr>)" if "tl_alive s"
    using inv cn'(2) k dead that by (auto simp: tl_inv_def link_done_def cn_kept_def cx_ok_def)
  with cn'(1) show ?thesis by (simp add: on_connector_def)
qed

lemma newConnection_tl_inv:
  assumes inv: "tl_inv tid (s\<lparr>tl_connector := cn0\<rparr>)" and cn: "cn_inv tid (el_pendingFunctors cn) cn"
    "cn_state cn = States.kConnected" and c: "tl_conns s c = None" "tl_connection s = None" "tl_alive s"
    and id: "tl_nextConnId s < 2 ^ 31 - 1"
  shows "\<exists>s'. tl_newConnection tid le c peer fd (s\<lparr>tl_connector := cn\<rparr>) = Inr s' \<and> tl_inv tid s'"
proof -
  obtain hp where hp: "InetAddress_toIpPort le peer = Inr hp" using toIpPort_eq(1) by blast
  let ?s = "s\<lparr>tl_connector := cn, tl_nextConnId := tl_nextConnId s + 1\<rparr>"
  let ?x = "\<lparr>cx_name = conn_name (tl_name s) hp (tl_nextConnId s), cx_loop = 0, cx_sockfd = fd,
    cx_state = stateE.kConnected, cx_registered = True, cx_watched = True\<rparr>"
  have "tl_inv tid ((s\<lparr>tl_connector := cn0\<rparr>)\<lparr>tl_connector := cn\<rparr>)"
    by (rule tl_inv_connector [OF inv]) (use cn c in \<open>simp_all add: link_done_def\<close>)
  then have s: "tl_inv tid ?s" by simp
  have "count_list (tl_functors s) c = 0" using inv c(1) by (auto simp: tl_inv_def count_list_0_iff)
  then have i: "tl_inv tid (?s\<lparr>tl_conns := (tl_conns ?s)(c \<mapsto> ?x), tl_connection := Some c,
      tl_functors := tl_functors ?s, tl_newborn := True\<rparr>)"
    by (intro tl_inv_change [OF s]) (use c cn in \<open>auto simp: link_done_def cx_ok_def\<close>)
  have e: "?s\<lparr>tl_conns := (tl_conns ?s)(c \<mapsto> ?x), tl_connection := Some c, tl_functors := tl_functors ?s,
      tl_newborn := True\<rparr> = ?s\<lparr>tl_connection := Some c, tl_newborn := True, tl_conns := (tl_conns s)(c \<mapsto> ?x)\<rparr>"
    by (cases s) simp
  have "assertInLoopThread tid cn = Inr ()" using cn(1) by (simp add: cn_inv_def cn_link_def loop_thread)
  with i [unfolded e] show ?thesis using c(3) id hp
    by (simp add: tl_newConnection_def tl_on_conn_def cx_established_def Let_def)
qed

lemma close_inv:
  assumes inv: "tl_inv tid s" and x: "tl_conns s c = Some x" "cx_watched x" and new: "\<not> tl_newborn s"
    and fresh: "cn_fresh env (tl_connector s)"
  shows "\<exists>s'. tl_handleClose tid env c s = Inr s' \<and> tl_inv tid s'"
proof -
  let ?x = "x\<lparr>cx_state := stateE.kDisconnected, cx_watched := False\<rparr>"
  let ?s = "s\<lparr>tl_conns := (tl_conns s)(c \<mapsto> ?x)\<rparr>"
  let ?k = "if tl_alive s then None else tl_connection s"
  note own = tl_inv_conn [OF inv x(1)]
  have st: "cx_state x = stateE.kConnected \<or> cx_state x = kDisconnecting" "cx_registered x"
    "tl_alive s \<longrightarrow> tl_connection s = Some c" "count_list (tl_functors s) c = 0"
    using own x(2) by (auto simp: cx_ok_def)
  have closed: "tl_on_conn c cx_closed s = Inr ?s" using x(1) st(1) by (simp add: tl_on_conn_def cx_closed_def)
  have i: "tl_inv tid (s\<lparr>tl_conns := (tl_conns s)(c \<mapsto> ?x), tl_connection := ?k,
      tl_functors := tl_functors s @ [c], tl_newborn := tl_newborn s\<rparr>)"
    by (rule tl_inv_change [OF inv]) (use inv x st in \<open>auto simp: tl_inv_def link_done_def cx_ok_def\<close>)
  show ?thesis
  proof (cases "tl_alive s")
    case False
    have "s\<lparr>tl_conns := (tl_conns s)(c \<mapsto> ?x), tl_connection := ?k, tl_functors := tl_functors s @ [c],
        tl_newborn := tl_newborn s\<rparr> = ?s\<lparr>tl_functors := tl_functors ?s @ [c]\<rparr>"
      using False by (cases s) simp
    with i False closed show ?thesis by (simp add: tl_handleClose_def detail_removeConnection_def)
  next
    case True
    let ?t = "?s\<lparr>tl_connection := None, tl_functors := tl_functors ?s @ [c]\<rparr>"
    have "s\<lparr>tl_conns := (tl_conns s)(c \<mapsto> ?x), tl_connection := ?k, tl_functors := tl_functors s @ [c],
        tl_newborn := tl_newborn s\<rparr> = ?t"
      using True by (cases s) simp
    with i have t: "tl_inv tid ?t" by simp
    have cn: "cn_inv tid (el_pendingFunctors (tl_connector s)) (tl_connector s)"
      "cn_state (tl_connector s) = States.kConnected" "cn_channel (tl_connector s) = None"
      using inv st(3) True new by (auto simp: tl_inv_def link_done_def)
    from cn_step_inv [OF cn(1), of env CallRestart] cn(2,3) fresh obtain cn' where
      cn': "restart tid env (tl_connector s) = Inr cn'" "cn_inv tid (el_pendingFunctors cn') cn'"
      by (auto simp: cn_allowed_def cn_step_def)
    have "tl_inv tid (?t\<lparr>tl_connector := cn'\<rparr>)"
      by (rule tl_inv_connector [OF t cn'(2)]) (simp add: link_done_def True)
    with t cn'(1) closed True st(3) tl_thread [OF inv] show ?thesis
      by (simp add: tl_handleClose_def tl_removeConnection_def on_connector_def Let_def)
  qed
qed

lemma destroy_all_inv:
  "tl_inv tid (s\<lparr>tl_functors := cs @ q\<rparr>) \<Longrightarrow> tl_functors s = q \<Longrightarrow>
    \<exists>s'. rfold (\<lambda>c. tl_on_conn c cx_destroyed) cs s = Inr s' \<and> tl_inv tid s'"
proof (induction cs arbitrary: s)
  case Nil
  then have e: "s\<lparr>tl_functors := [] @ q\<rparr> = s" by (cases s) simp
  have "tl_inv tid s" using Nil.prems(1) unfolding e .
  then show ?case by simp
next
  case (Cons c cs)
  let ?s = "s\<lparr>tl_functors := (c # cs) @ q\<rparr>"
  obtain x where x: "tl_conns s c = Some x" using Cons.prems(1) by (auto simp: tl_inv_def)
  note own = tl_inv_conn [OF Cons.prems(1), of c x]
  have st: "cx_state x = stateE.kDisconnected" "\<not> cx_watched x" "cx_registered x" "count_list (cs @ q) c = 0"
  proof -
    from own x have o: "cx_state x \<noteq> stateE.kConnecting"
      "cx_watched x = (cx_state x = stateE.kConnected \<or> cx_state x = kDisconnecting)"
      "Suc (count_list (cs @ q) c) = of_bool (cx_registered x \<and> \<not> cx_watched x)" by (simp_all add: cx_ok_def)
    from o(3) have rw: "cx_registered x \<and> \<not> cx_watched x"
      by (cases "cx_registered x \<and> \<not> cx_watched x") (assumption, simp only: of_bool_eq nat.distinct)
    then show "cx_registered x" "\<not> cx_watched x" by simp_all
    from o(3) rw show "count_list (cs @ q) c = 0" by simp
    from o(1,2) rw show "cx_state x = stateE.kDisconnected" by (metis stateE.exhaust)
  qed
  let ?x = "x\<lparr>cx_registered := False\<rparr>"
  let ?t = "s\<lparr>tl_conns := (tl_conns s)(c \<mapsto> ?x)\<rparr>"
  have "tl_inv tid (?s\<lparr>tl_conns := (tl_conns ?s)(c \<mapsto> ?x), tl_connection := tl_connection ?s,
      tl_functors := cs @ q, tl_newborn := tl_newborn ?s\<rparr>)"
    by (rule tl_inv_change [OF Cons.prems(1)]) (use Cons.prems(1) own x st in \<open>auto simp: tl_inv_def cx_ok_def\<close>)
  moreover have "?s\<lparr>tl_conns := (tl_conns ?s)(c \<mapsto> ?x), tl_connection := tl_connection ?s,
      tl_functors := cs @ q, tl_newborn := tl_newborn ?s\<rparr> = ?t\<lparr>tl_functors := cs @ q\<rparr>"
    by (cases s) simp
  ultimately obtain s' where "rfold (\<lambda>c. tl_on_conn c cx_destroyed) cs ?t = Inr s'" "tl_inv tid s'"
    using Cons.IH [of ?t] Cons.prems(2) by auto
  moreover have "tl_on_conn c cx_destroyed s = Inr ?t"
    using x st by (simp add: tl_on_conn_def cx_destroyed_def)
  ultimately show ?case by simp
qed

lemma functors_tl_inv:
  assumes inv: "tl_inv tid s" and fresh: "cn_fresh env (tl_connector s)"
  shows "\<exists>s'. tl_step tid le env RunFunctors s = Inr s' \<and> tl_inv tid s'"
proof -
  have cn: "cn_inv tid (el_pendingFunctors (tl_connector s)) (tl_connector s)" using inv by (simp add: tl_inv_def)
  from cn_step_inv [OF this, of env "cn_event.Functors"] fresh obtain cn' where
    cn': "cn_step tid env cn_event.Functors (tl_connector s) = Inr cn'" "cn_inv tid (el_pendingFunctors cn') cn'"
    by (auto simp: cn_allowed_def)
  note k = functors_kept [OF cn fresh cn'(1)]
  let ?s = "s\<lparr>tl_connector := cn', tl_functors := [], tl_newborn := False\<rparr>"
  have "link_done (tl_alive s) False (tl_connection s) cn'"
    using inv k by (auto simp: tl_inv_def link_done_def cn_kept_def)
  then have "tl_inv tid (?s\<lparr>tl_functors := tl_functors s @ []\<rparr>)" using inv cn'(2) by (simp add: tl_inv_def)
  from destroy_all_inv [OF this] cn'(1) show ?thesis by (simp add: tl_step_def on_connector_def)
qed

lemma connector_event_inv:
  assumes inv: "tl_inv tid s" and may: "tl_allowed env (ConnectorEvent r err isSelf c peer) s"
  shows "\<exists>s'. tl_step tid le env (ConnectorEvent r err isSelf c peer) s = Inr s' \<and> tl_inv tid s'"
proof -
  let ?cn = "tl_connector s"
  have cn: "cn_inv tid (el_pendingFunctors ?cn) ?cn" and st: "cn_state ?cn = States.kConnecting"
    and c: "tl_conns s c = None" and id: "tl_nextConnId s < 2 ^ 31 - 1" and fresh: "cn_fresh env ?cn"
    using inv may by (auto simp: tl_inv_def tl_allowed_def)
  have none: "tl_connection s = None" using inv st by (auto simp: tl_inv_def link_done_def)
  from cn_step_inv [OF cn, of env "ChannelEvent r err isSelf"] st fresh obtain cn' where
    cn': "cn_step tid env (ChannelEvent r err isSelf) ?cn = Inr cn'" "cn_inv tid (el_pendingFunctors cn') cn'"
    by (auto simp: cn_allowed_def)
  from channel_event_kept [OF cn st cn'(1)] show ?thesis
  proof
    assume k: "cn_kept cn' = cn_kept ?cn"
    have "tl_inv tid (s\<lparr>tl_connector := cn'\<rparr>)"
      by (rule tl_inv_connector [OF inv cn'(2)]) (use inv none k st in \<open>auto simp: tl_inv_def link_done_def cn_kept_def\<close>)
    moreover have "handed_over ?cn cn' = []" using k by (simp add: handed_over_def cn_kept_def)
    ultimately show ?thesis using cn'(1) by (simp add: tl_step_def)
  next
    assume "\<exists>fd. cn_connect ?cn \<and> cn_kept cn' = (True, cn_handed ?cn @ [fd]) \<and> cn_state cn' = States.kConnected"
    then obtain fd where k: "cn_connect ?cn" "handed_over ?cn cn' = [fd]" "cn_state cn' = States.kConnected"
      by (auto simp: handed_over_def cn_kept_def)
    have alive: "tl_alive s" using inv k(1) st by (auto simp: tl_inv_def link_done_def)
    have "tl_inv tid (s\<lparr>tl_connector := ?cn\<rparr>)" using inv by simp
    from newConnection_tl_inv [OF this cn'(2) k(3) c none alive id] cn'(1) k(2) show ?thesis
      by (simp add: tl_step_def)
  qed
qed

lemma connect_step_inv:
  assumes inv: "tl_inv tid s" and may: "tl_allowed env (Connect t) s"
  shows "\<exists>s'. tl_step tid le env (Connect t) s = Inr s' \<and> tl_inv tid s'"
proof -
  let ?cn = "tl_connector s"
  have cn: "cn_inv tid (el_pendingFunctors ?cn) ?cn" using inv by (simp add: tl_inv_def)
  have fresh: "cn_fresh env ?cn" using may by (simp add: tl_allowed_def)
  from may have idle: "tl_alive s" "cn_allowed env (CallStart t) ?cn" by (simp_all add: tl_allowed_def)
  with inv have none: "tl_connection s = None" by (auto simp: tl_inv_def link_done_def cn_allowed_def)
  from cn_step_inv [OF cn idle(2)] obtain cn' where
    cn': "start t env ?cn = Inr cn'" "cn_inv tid (el_pendingFunctors cn') cn'" by (auto simp: cn_step_def)
  have "tl_inv tid ((s\<lparr>tl_connect := True\<rparr>)\<lparr>tl_connector := cn'\<rparr>)"
    by (rule tl_inv_connector [OF _ cn'(2)]) (use inv none idle in \<open>simp_all add: link_done_def\<close>)
  with cn'(1) show ?thesis by (simp add: tl_step_def tl_connect_call_def on_connector_def)
qed

lemma retry_step_inv:
  assumes inv: "tl_inv tid s" and may: "tl_allowed env ConnectorRetry s"
  shows "\<exists>s'. tl_step tid le env ConnectorRetry s = Inr s' \<and> tl_inv tid s'"
proof -
  let ?cn = "tl_connector s"
  have cn: "cn_inv tid (el_pendingFunctors ?cn) ?cn" using inv by (simp add: tl_inv_def)
  have fresh: "cn_fresh env ?cn" using may by (simp add: tl_allowed_def)
  from may have t: "cn_allowed env RetryTimer ?cn" by (simp add: tl_allowed_def)
  from cn_step_inv [OF cn t] obtain cn' where
    cn': "cn_step tid env RetryTimer ?cn = Inr cn'" "cn_inv tid (el_pendingFunctors cn') cn'" by blast
  have idle: "cn_state ?cn = States.kDisconnected" "cn_channel ?cn = None"
    using t cn by (auto simp: cn_allowed_def cn_inv_def cn_queue_def)
  have "loop_ok tid (?cn\<lparr>cn_timers := drop 1 (cn_timers ?cn)\<rparr>)" using cn by (simp add: cn_inv_def cn_link_def)
  from startInLoop_kept [OF this, of env cn'] cn'(1) idle fresh have "cn_kept cn' = cn_kept ?cn"
    by (simp add: cn_step_def cn_fresh_def cn_kept_def)
  with inv idle have "link_done (tl_alive s) (tl_newborn s) (tl_connection s) cn'"
    by (auto simp: tl_inv_def link_done_def cn_kept_def)
  from tl_inv_connector [OF inv cn'(2) this] cn'(1) show ?thesis
    by (simp add: tl_step_def on_connector_def)
qed

lemma destroy_step_inv:
  assumes inv: "tl_inv tid s" and may: "tl_allowed env (Destroy t held) s"
  shows "\<exists>s'. tl_step tid le env (Destroy t held) s = Inr s' \<and> tl_inv tid s'"
proof -
  let ?cn = "tl_connector s"
  have cn: "cn_inv tid (el_pendingFunctors ?cn) ?cn" using inv by (simp add: tl_inv_def)
  have fresh: "cn_fresh env ?cn" using may by (simp add: tl_allowed_def)
  show ?thesis
  proof (cases "tl_connection s")
    case None
    with stop_inv [OF inv fresh, of False t "tl_connect s"] may show ?thesis
      by (simp add: tl_step_def TcpClient_dtor_def tl_allowed_def)
  next
    case (Some c)
    have "tl_inv tid (s\<lparr>tl_alive := False, tl_connection := None\<rparr>)"
      using inv Some by (auto simp: tl_inv_def link_done_def cx_ok_def)
    with Some may show ?thesis
      by (simp add: tl_step_def TcpClient_dtor_def tl_allowed_def Connector_dtor_def)
  qed
qed

lemma tl_step_inv:
  assumes inv: "tl_inv tid s" and may: "tl_allowed env ev s"
  shows "\<exists>s'. tl_step tid le env ev s = Inr s' \<and> tl_inv tid s'"
proof -
  let ?cn = "tl_connector s"
  have cn: "cn_inv tid (el_pendingFunctors ?cn) ?cn" using inv by (simp add: tl_inv_def)
  have fresh: "cn_fresh env ?cn" using may by (simp add: tl_allowed_def)
  show ?thesis
  proof (cases ev)
    case (Connect t)
    with connect_step_inv [OF inv] may show ?thesis by simp
  next
    case Disconnect
    with disconnect_inv [OF inv] show ?thesis by (simp add: tl_step_def)
  next
    case (Stop t)
    have alive: "tl_alive s" using may Stop by (simp add: tl_allowed_def)
    then have e: "s\<lparr>tl_alive := True, tl_connect := False\<rparr> = s\<lparr>tl_connect := False\<rparr>" by (cases s) simp
    from stop_inv [OF inv fresh, of True t False, unfolded e] Stop alive show ?thesis by (simp add: tl_step_def tl_stop_def)
  next
    case EnableRetry
    with inv show ?thesis by (simp add: tl_step_def enableRetry_def)
  next
    case (ConnectorEvent r err isSelf c peer)
    with connector_event_inv [OF inv] may show ?thesis by simp
  next
    case ConnectorRetry
    with retry_step_inv [OF inv] may show ?thesis by simp
  next
    case RunFunctors
    with functors_tl_inv [OF inv fresh] show ?thesis by simp
  next
    case (ConnectionClosed c)
    with may close_inv [OF inv _ _ _ fresh, of c] show ?thesis by (auto simp: tl_allowed_def tl_step_def)
  next
    case (Destroy t held)
    with destroy_step_inv [OF inv] may show ?thesis by simp
  qed
qed

section \<open>Any life of a client\<close>

inductive tl_reachable :: "int \<Rightarrow> bool \<Rightarrow> cn_env \<Rightarrow> TcpClient \<Rightarrow> TcpClient \<Rightarrow> bool" for tid le env s0 where
  made: "tl_reachable tid le env s0 s0"
| event: "tl_reachable tid le env s0 s \<Longrightarrow> tl_allowed env ev s \<Longrightarrow> tl_step tid le env ev s = Inr s' \<Longrightarrow>
    tl_reachable tid le env s0 s'"

lemma new_TcpClient_inv:
  assumes "loop_ok tid l" "\<forall>b. removable b l" "el_pendingFunctors l = []"
  shows "tl_inv tid (new_TcpClient nm l)"
  using new_Connector_inv [OF assms] assms(3)
  by (simp add: tl_inv_def new_TcpClient_def link_done_def new_Connector_def)

lemma tl_reachable_inv:
  assumes "tl_reachable tid le env s0 s" "tl_inv tid s0"
  shows "tl_inv tid s"
  using assms
proof (induction rule: tl_reachable.induct)
  case (event s ev s')
  with tl_step_inv [of tid s env ev le] show ?case by auto
qed



text \<open>
  C35. When its connection ends, a living client forgets it, queues its destruction and, with \<open>retry_\<close> and not
  disconnected, tries at once to connect again. Otherwise it can never connect again: the connector
  is left in its connected state, and \<open>connect()\<close> fails an assertion.
\<close>

theorem client_reconnects:
  assumes "loop_ok tid l" "\<forall>b. removable b l" "el_pendingFunctors l = []"
    and "tl_reachable tid le env (new_TcpClient nm l) s" "tl_allowed env (ConnectionClosed c) s" "tl_alive s"
  shows "\<exists>s'. tl_step tid le env (ConnectionClosed c) s = Inr s' \<and> tl_connection s' = None \<and>
    tl_functors s' = tl_functors s @ [c] \<and>
    (if tl_retry s \<and> tl_connect s then cn_tries (tl_connector s') = cn_tries (tl_connector s) + 1
     else tl_step tid le env (Connect tid) s' = Inl (Assertion ''state_ == kDisconnected''))"
proof -
  have inv: "tl_inv tid s" by (rule tl_reachable_inv [OF assms(4) new_TcpClient_inv [OF assms(1-3)]])
  from assms(5) obtain x where x: "tl_conns s c = Some x" "cx_watched x" "\<not> tl_newborn s"
    "cn_fresh env (tl_connector s)" by (auto simp: tl_allowed_def)
  from tl_inv_conn [OF inv x(1)] x(2) assms(6) have k: "tl_connection s = Some c"
    "cx_state x = stateE.kConnected \<or> cx_state x = kDisconnecting" by (auto simp: cx_ok_def)
  let ?cn = "tl_connector s"
  have cn: "loop_ok tid ?cn" "cn_state ?cn = States.kConnected" "cn_channel ?cn = None"
    using inv k x(3) by (auto simp: tl_inv_def link_done_def cn_inv_def cn_link_def)
  have here: "isInLoopThread tid ?cn" using cn(1) by (simp add: isInLoopThread_def loop_ok_def)
  from tl_step_inv [OF inv assms(5), of le] obtain s' where s': "tl_step tid le env (ConnectionClosed c) s = Inr s'" by blast
  show ?thesis
  proof (cases "tl_retry s \<and> tl_connect s")
    case True
    let ?r = "?cn\<lparr>cn_state := States.kDisconnected, cn_retryDelayMs := kInitRetryDelayMs, cn_connect := True\<rparr>"
    from s' True obtain cn' where cn': "connect tid env ?r = Inr cn'" "tl_connector s' = cn'"
      "tl_connection s' = None" "tl_functors s' = tl_functors s @ [c]"
      using x k assms(6) by (auto simp: tl_step_def tl_handleClose_def tl_on_conn_def cx_closed_def rbind_eq_Inr_conv
          tl_removeConnection_def on_connector_def restart_def startInLoop_def Let_def)
    have "loop_ok tid ?r" using cn(1) by simp
    from connect_kept(2) [OF this _ _ cn'(1)] cn(3) x(4) have "cn_tries cn' = cn_tries ?cn + 1"
      by (simp add: cn_fresh_def)
    with True s' cn' show ?thesis by simp
  next
    case False
    with s' x k assms(6) have s'_eq: "s' = s\<lparr>tl_conns := (tl_conns s)(c \<mapsto> x\<lparr>cx_state := stateE.kDisconnected, cx_watched := False\<rparr>),
        tl_connection := None, tl_functors := tl_functors s @ [c]\<rparr>"
      by (auto simp: tl_step_def tl_handleClose_def tl_on_conn_def cx_closed_def rbind_eq_Inr_conv
          tl_removeConnection_def Let_def split: if_splits)
    have "start tid env ?cn = Inl (Assertion ''state_ == kDisconnected'')"
      using here cn(2) by (simp add: start_def runInLoop_def isInLoopThread_def run_cn_def startInLoop_def
          assertInLoopThread_def)
    with False s' s'_eq show ?thesis by (auto simp: tl_step_def tl_connect_call_def on_connector_def)
  qed
qed

text \<open>A client with an open connection.\<close>

definition example_env :: cn_env where
  "example_env = \<lparr>env_socket = \<lambda>n. 9 + int n, env_connect = \<lambda>n. 0, env_alloc = \<lambda>n. 20 + n\<rparr>"

lemma example_connector:
  "cn_fresh example_env (new_Connector idle_loop) \<and>
   (case cn_step 77 example_env (CallStart 77) (new_Connector idle_loop) of Inl _ \<Rightarrow> False | Inr s1 \<Rightarrow>
      cn_fresh example_env s1 \<and> cn_state s1 = States.kConnecting \<and> cn_handed s1 = [] \<and>
      (case cn_step 77 example_env (ChannelEvent 4 0 False) s1 of Inl _ \<Rightarrow> False | Inr s2 \<Rightarrow>
         cn_fresh example_env s2 \<and> cn_handed s2 = [9] \<and> assertInLoopThread 77 s2 = Inr () \<and>
         (case cn_step 77 example_env cn_event.Functors s2 of Inl _ \<Rightarrow> False | Inr s3 \<Rightarrow> cn_fresh example_env s3)))"
  by code_simp

lemma example_client:
  "\<exists>s. tl_reachable 77 True example_env (new_TcpClient ''c'' idle_loop) s \<and>
    tl_allowed example_env (ConnectionClosed 5) s \<and> tl_alive s \<and> \<not> tl_retry s"
proof -
  let ?cn = "new_Connector idle_loop" and ?s0 = "new_TcpClient ''c'' idle_loop"
  from example_connector obtain c1 c2 c3 where
    c: "cn_fresh example_env ?cn" "start 77 example_env ?cn = Inr c1" "cn_fresh example_env c1"
      "cn_state c1 = States.kConnecting" "cn_handed c1 = []"
      "cn_step 77 example_env (ChannelEvent 4 0 False) c1 = Inr c2" "cn_fresh example_env c2" "cn_handed c2 = [9]"
      "assertInLoopThread 77 c2 = Inr ()" "cn_step 77 example_env cn_event.Functors c2 = Inr c3" "cn_fresh example_env c3"
    by (auto simp: cn_step_def [of _ _ "CallStart _"] split: sum.splits)
  obtain hp where hp: "InetAddress_toIpPort True (InetAddress_port True 80) = Inr hp" using toIpPort_eq(1) by blast
  let ?x = "\<lparr>cx_name = conn_name ''c'' hp 1, cx_loop = 0, cx_sockfd = 9, cx_state = stateE.kConnected,
    cx_registered = True, cx_watched = True\<rparr>"
  define s1 where "s1 = ?s0\<lparr>tl_connect := True, tl_connector := c1\<rparr>"
  define s2 where "s2 = s1\<lparr>tl_connector := c2, tl_nextConnId := 2, tl_connection := Some 5, tl_newborn := True,
    tl_conns := [5 \<mapsto> ?x]\<rparr>"
  define s3 where "s3 = s2\<lparr>tl_connector := c3, tl_functors := [], tl_newborn := False\<rparr>"
  have "tl_reachable 77 True example_env ?s0 s1"
    by (rule event [OF made, of _ "Connect 77"])
      (use c in \<open>simp_all add: tl_allowed_def cn_allowed_def tl_step_def tl_connect_call_def on_connector_def s1_def
        new_TcpClient_def new_Connector_def idle_loop_def\<close>)
  moreover have "tl_allowed example_env (ConnectorEvent 4 0 False 5 (InetAddress_port True 80)) s1"
    using c by (simp add: tl_allowed_def s1_def new_TcpClient_def)
  moreover have "tl_step 77 True example_env (ConnectorEvent 4 0 False 5 (InetAddress_port True 80)) s1 = Inr s2"
    using c hp by (simp add: tl_step_def s1_def s2_def handed_over_def tl_newConnection_def tl_on_conn_def
        cx_established_def new_TcpClient_def Let_def)
  ultimately have "tl_reachable 77 True example_env ?s0 s2" by (rule event)
  moreover have "tl_allowed example_env RunFunctors s2" using c by (simp add: tl_allowed_def s2_def)
  moreover have "tl_step 77 True example_env RunFunctors s2 = Inr s3"
    using c by (simp add: tl_step_def s1_def s2_def s3_def on_connector_def new_TcpClient_def)
  ultimately have "tl_reachable 77 True example_env ?s0 s3" by (rule event)
  then show ?thesis using c
    by (intro exI [of _ s3]) (simp add: tl_allowed_def s3_def s2_def s1_def new_TcpClient_def)
qed

theorem client_reconnects_witness:
  "\<exists>s s'. tl_reachable 77 True example_env (new_TcpClient ''c'' idle_loop) s \<and>
    tl_step 77 True example_env (ConnectionClosed 5) s = Inr s' \<and> tl_connection s' = None \<and>
    tl_step 77 True example_env (Connect 77) s' = Inl (Assertion ''state_ == kDisconnected'')"
proof -
  obtain s where s: "tl_reachable 77 True example_env (new_TcpClient ''c'' idle_loop) s"
    "tl_allowed example_env (ConnectionClosed 5) s" "tl_alive s" "\<not> tl_retry s" using example_client by blast
  have "loop_ok 77 idle_loop" using loop_ok_empty [of idle_loop] by (simp add: idle_loop_def)
  moreover have "\<forall>b. removable b idle_loop" "el_pendingFunctors idle_loop = []"
    by (simp_all add: idle_loop_def removable_def)
  ultimately show ?thesis using client_reconnects [OF _ _ _ s(1-3)] s(1,4) by auto
qed

end
