(* ===== verification/Mutex.thy ===== *)
theory Mutex
  imports Monitor
begin

text \<open>
  \<open>muduo/base/Mutex.h\<close> and \<open>Condition.h\<close> a level below \<open>Monitor\<close>: the calls of \<open>pthread_mutex_lock\<close>,
  \<open>pthread_cond_wait\<close> and \<open>pthread_mutex_unlock\<close> and the assignments to \<open>holder_\<close> are steps of their own, and
  any number of threads take them in any order. A thread is where it stands in a method
  \<open>MutexLockGuard lock(mutex_); while(c) cond_.wait(); ...\<close>. The refinement shows that such runs are
  runs of the monitor: the critical sections are indeed atomic.
\<close>

section \<open>The mutex\<close>

record MutexLock =
  mx_owner :: "nat option" \<comment> \<open>the thread that owns the \<open>pthread_mutex_t\<close>\<close>
  mx_holder :: int \<comment> \<open>\<open>holder_\<close>\<close>

definition new_MutexLock :: MutexLock where
  "new_MutexLock = \<lparr>mx_owner = None, mx_holder = 0\<rparr>"

text \<open>The two statements of \<open>lock()\<close> and those of \<open>unlock()\<close>, for the thread \<open>i\<close> whose id is \<open>tid\<close>.\<close>

definition pthread_lock :: "nat \<Rightarrow> MutexLock \<Rightarrow> MutexLock option" where
  \<comment> \<open>\<open>None\<close>: the thread has to wait\<close>
  "pthread_lock i m = (if mx_owner m = None then Some (m\<lparr>mx_owner := Some i\<rparr>) else None)"

definition lock_note :: "int \<Rightarrow> MutexLock \<Rightarrow> MutexLock" where
  "lock_note tid m = m\<lparr>mx_holder := tid\<rparr>"

definition unlock_note :: "MutexLock \<Rightarrow> MutexLock" where
  "unlock_note m = m\<lparr>mx_holder := 0\<rparr>"

definition pthread_unlock :: "MutexLock \<Rightarrow> MutexLock" where
  "pthread_unlock m = m\<lparr>mx_owner := None\<rparr>"

definition isLockedByThisThread :: "int \<Rightarrow> MutexLock \<Rightarrow> bool" where
  "isLockedByThisThread tid m \<longleftrightarrow> mx_holder m = tid"

text \<open>\<open>assertLocked\<close> is declared to give a \<open>bool\<close> and returns nothing.\<close>

definition assertLocked :: "int \<Rightarrow> MutexLock \<Rightarrow> bool result" where
  "assertLocked tid m =
     rbind (guard (isLockedByThisThread tid m) ''isLockedByThisThread()'') (\<lambda>_.
     Inl (Undefined ''assertLocked does not return a value''))"

definition MutexLock_dtor :: "MutexLock \<Rightarrow> unit result" where
  "MutexLock_dtor m = guard (mx_holder m = 0) ''holder_ == 0''"

section \<open>Threads\<close>

datatype ('op, 'cv) place =
    Idle
  | AtLock 'op \<comment> \<open>about to call \<open>pthread_mutex_lock\<close>\<close>
  | Locked 'op \<comment> \<open>owns the mutex, \<open>holder_\<close> not yet set\<close>
  | Inside 'op \<comment> \<open>at the loop condition, for the first time\<close>
  | Asleep 'cv 'op \<comment> \<open>in \<open>pthread_cond_wait\<close>\<close>
  | Relock 'op \<comment> \<open>woken, about to get the mutex back\<close>
  | Again 'op \<comment> \<open>at the loop condition, after a wait\<close>
  | Leaving \<comment> \<open>the body is done; in the destructor of \<open>MutexLockGuard\<close>\<close>
  | Unlocking \<comment> \<open>\<open>holder_\<close> reset, the mutex still owned\<close>

record ('op, 'cv, 's, 'r) machine =
  mutex :: MutexLock
  mshared :: 's
  places :: "('op, 'cv) place list"
  mhistory :: "('op \<times> 'r) list"

inductive mwoken :: "'cv signal \<Rightarrow> ('op, 'cv) place list \<Rightarrow> ('op, 'cv) place list \<Rightarrow> bool" where
  wnobody: "mwoken No_signal ps ps"
| wno_waiter: "\<forall>op. Asleep cv op \<notin> set ps \<Longrightarrow> mwoken (Notify cv) ps ps"
| wone: "i < length ps \<Longrightarrow> ps ! i = Asleep cv op \<Longrightarrow> mwoken (Notify cv) ps (ps[i := Relock op])"
| wall: "mwoken (NotifyAll cv) ps
    (map (\<lambda>p. case p of Asleep cv' op \<Rightarrow> if cv' = cv then Relock op else p | _ \<Rightarrow> p) ps)"

definition at :: "nat \<Rightarrow> ('op, 'cv) place \<Rightarrow> ('op, 'cv, 's, 'r) machine \<Rightarrow> bool" where
  "at i p m \<longleftrightarrow> i < length (places m) \<and> places m ! i = p"

definition goto :: "nat \<Rightarrow> ('op, 'cv) place \<Rightarrow> ('op, 'cv, 's, 'r) machine \<Rightarrow> ('op, 'cv, 's, 'r) machine" where
  "goto i p m = m\<lparr>places := (places m)[i := p]\<rparr>"

text \<open>\<open>tids\<close>: the id of each thread.\<close>

inductive machine_step ::
  "('op \<Rightarrow> 's \<Rightarrow> ('cv, 's, 'r) outcome) \<Rightarrow> (nat \<Rightarrow> int) \<Rightarrow>
     ('op, 'cv, 's, 'r) machine \<Rightarrow> ('op, 'cv, 's, 'r) machine \<Rightarrow> bool"
  for critical tids where
  mcall: "at i Idle m \<Longrightarrow> machine_step critical tids m (goto i (AtLock op) m)"
| macquire: "at i (AtLock op) m \<Longrightarrow> pthread_lock i (mutex m) = Some x \<Longrightarrow>
    machine_step critical tids m (goto i (Locked op) (m\<lparr>mutex := x\<rparr>))"
| mnote: "at i (Locked op) m \<Longrightarrow>
    machine_step critical tids m (goto i (Inside op) (m\<lparr>mutex := lock_note (tids i) (mutex m)\<rparr>))"
| mwait: "at i (Inside op) m \<or> at i (Again op) m \<Longrightarrow> critical op (mshared m) = Wait cv \<Longrightarrow>
    machine_step critical tids m (goto i (Asleep cv op) (m\<lparr>mutex := pthread_unlock (mutex m)\<rparr>))"
| mbody: "at i (Inside op) m \<or> at i (Again op) m \<Longrightarrow> critical op (mshared m) = Leave s sig r \<Longrightarrow>
    mwoken sig ((places m)[i := Leaving]) ps \<Longrightarrow>
    machine_step critical tids m (m\<lparr>mshared := s, places := ps, mhistory := mhistory m @ [(op, r)]\<rparr>)"
| mspurious: "at i (Asleep cv op) m \<Longrightarrow> machine_step critical tids m (goto i (Relock op) m)"
| mrelock: "at i (Relock op) m \<Longrightarrow> pthread_lock i (mutex m) = Some x \<Longrightarrow>
    machine_step critical tids m (goto i (Again op) (m\<lparr>mutex := x\<rparr>))"
| mclear: "at i Leaving m \<Longrightarrow>
    machine_step critical tids m (goto i Unlocking (m\<lparr>mutex := unlock_note (mutex m)\<rparr>))"
| mrelease: "at i Unlocking m \<Longrightarrow>
    machine_step critical tids m (goto i Idle (m\<lparr>mutex := pthread_unlock (mutex m)\<rparr>))"

definition new_machine :: "nat \<Rightarrow> 's \<Rightarrow> ('op, 'cv, 's, 'r) machine" where
  "new_machine n s = \<lparr>mutex = new_MutexLock, mshared = s, places = replicate n Idle, mhistory = []\<rparr>"

section \<open>The invariant\<close>

text \<open>Who owns the mutex by its place.\<close>

fun owning :: "('op, 'cv) place \<Rightarrow> bool" where
  "owning (Locked op) = True" | "owning (Inside op) = True" | "owning (Again op) = True"
| "owning Leaving = True" | "owning Unlocking = True" | "owning _ = False"

definition machine_inv :: "(nat \<Rightarrow> int) \<Rightarrow> ('op, 'cv, 's, 'r) machine \<Rightarrow> bool" where
  "machine_inv tids m \<longleftrightarrow>
     (\<forall>i < length (places m). owning (places m ! i) \<longleftrightarrow> mx_owner (mutex m) = Some i) \<and>
     (\<forall>i op. at i (Inside op) m \<longrightarrow> mx_holder (mutex m) = tids i) \<and>
     (\<forall>i. at i Unlocking m \<longrightarrow> mx_holder (mutex m) = 0)"

fun abs_place :: "('op, 'cv) place \<Rightarrow> ('op, 'cv) thread" where
  "abs_place (AtLock op) = Entering op" | "abs_place (Locked op) = Entering op"
| "abs_place (Inside op) = Entering op" | "abs_place (Relock op) = Entering op"
| "abs_place (Again op) = Entering op" | "abs_place (Asleep cv op) = Waiting cv op"
| "abs_place Idle = Outside" | "abs_place Leaving = Outside" | "abs_place Unlocking = Outside"

definition abs_machine :: "('op, 'cv, 's, 'r) machine \<Rightarrow> ('op, 'cv, 's, 'r) monitor" where
  "abs_machine m = \<lparr>shared = mshared m, threads = map abs_place (places m), history = mhistory m\<rparr>"

lemma mwoken_places:
  assumes "mwoken sig ps ps'"
  shows "length ps' = length ps" "i < length ps \<Longrightarrow> owning (ps' ! i) = owning (ps ! i)"
    "i < length ps \<Longrightarrow> ps' ! i = Inside op \<longleftrightarrow> ps ! i = Inside op" "i < length ps \<Longrightarrow> ps' ! i = Unlocking \<longleftrightarrow> ps ! i = Unlocking"
  using assms by (cases; auto simp: nth_list_update split: place.splits)+

lemma mwoken_abs:
  assumes "mwoken sig ps ps'"
  shows "woken sig (map abs_place ps) (map abs_place ps')"
  using assms
proof cases
  case wnobody
  then show ?thesis by (simp add: woken.nobody)
next
  case (wno_waiter cv)
  have "waiters cv (map abs_place ps) = 0"
    using wno_waiter(3) by (auto simp: waiters_def filter_empty_conv) (metis abs_place.simps thread.simps place.exhaust)
  with wno_waiter(1,2) show ?thesis by (simp add: woken.no_waiter)
next
  case (wone i cv op)
  then show ?thesis using woken.one [of i "map abs_place ps" cv op] by (simp add: map_update)
next
  case (wall cv)
  have e: "map abs_place ps' = map (wake_one cv) (map abs_place ps)"
    unfolding wall(2) by (auto simp: wake_one_def split: place.splits)
  show ?thesis unfolding wall(1) e by (rule woken.all)
qed

lemma abs_goto:
  assumes "at i p m"
  shows "abs_machine (goto i q (m\<lparr>mutex := x\<rparr>)) = (abs_machine m)\<lparr>threads := (threads (abs_machine m))[i := abs_place q]\<rparr>"
    "abs_machine (goto i q m) = (abs_machine m)\<lparr>threads := (threads (abs_machine m))[i := abs_place q]\<rparr>"
    "i < length (threads (abs_machine m))" "threads (abs_machine m) ! i = abs_place p"
  using assms by (simp_all add: abs_machine_def goto_def map_update at_def)

lemma abs_same:
  assumes "at i p m" "abs_place q = abs_place p"
  shows "abs_machine (goto i q (m\<lparr>mutex := x\<rparr>)) = abs_machine m" "abs_machine (goto i q m) = abs_machine m"
  using abs_goto [OF assms(1)] assms(2) by (metis list_update_id monitor.surjective monitor.update_convs(2))+

text \<open>One step: the monitor does the same or nothing.\<close>

lemma machine_simulates:
  assumes "machine_step critical tids m m'"
  shows "abs_machine m' = abs_machine m \<or> monitor_step critical (abs_machine m) (abs_machine m')"
  using assms
proof cases
  case (mcall i op)
  note a = abs_goto [OF mcall(2)]
  show ?thesis unfolding mcall(1) a(2) using monitor_step.call [of i "abs_machine m" critical op] a(3,4) by simp
next
  case (macquire i op x)
  with abs_same(1) [OF macquire(2), of "Locked op"] show ?thesis by simp
next
  case (mnote i op)
  with abs_same(1) [OF mnote(2), of "Inside op"] show ?thesis by simp
next
  case (mwait i op cv)
  then obtain p where p: "at i p m" "abs_place p = Entering op" by auto
  note a = abs_goto [OF p(1)]
  show ?thesis unfolding mwait(1) a(1)
    using monitor_step.wait [of i "abs_machine m" op critical cv] a(3,4) p(2) mwait(3) by (simp add: abs_machine_def)
next
  case (mbody i op s sig r ps)
  then obtain p where p: "at i p m" "abs_place p = Entering op" by auto
  note a = abs_goto [OF p(1)]
  have "woken sig ((threads (abs_machine m))[i := Outside]) (map abs_place ps)"
    using mwoken_abs [OF mbody(4)] by (simp add: abs_machine_def map_update)
  from monitor_step.leave [OF a(3) _ _ this, of op critical s r] a(4) p(2) mbody(3) show ?thesis
    unfolding mbody(1) by (simp add: abs_machine_def)
next
  case (mspurious i cv op)
  note a = abs_goto [OF mspurious(2)]
  show ?thesis unfolding mspurious(1) a(2)
    using monitor_step.spurious [of i "abs_machine m" cv op critical] a(3,4) by simp
next
  case (mrelock i op x)
  with abs_same(1) [OF mrelock(2), of "Again op"] show ?thesis by simp
next
  case (mclear i)
  with abs_same(1) [OF mclear(2), of Unlocking] show ?thesis by simp
next
  case (mrelease i)
  with abs_same(1) [OF mrelease(2), of Idle] show ?thesis by simp
qed

text \<open>Every step keeps the invariant.\<close>

lemma machine_inv_goto:
  assumes inv: "machine_inv tids m" and i: "at i p m"
    and own: "mx_owner x = (if owning q then Some i else if owning p then None else mx_owner (mutex m))"
    and free: "owning q \<Longrightarrow> owning p \<or> mx_owner (mutex m) = None"
    and holder: "mx_holder x = mx_holder (mutex m) \<or> owning p"
    and q: "\<And>op. q = Inside op \<Longrightarrow> mx_holder x = tids i" "q = Unlocking \<Longrightarrow> mx_holder x = 0"
  shows "machine_inv tids (goto i q (m\<lparr>mutex := x\<rparr>))"
proof -
  have len: "i < length (places m)" "places m ! i = p" using i by (simp_all add: at_def)
  have o: "owning (places m ! j) \<longleftrightarrow> mx_owner (mutex m) = Some j" if "j < length (places m)" for j
    using inv that by (simp add: machine_inv_def)
  have hold: "mx_holder x = mx_holder (mutex m)" if "j < length (places m)" "j \<noteq> i" "owning (places m ! j)" for j
    using holder o [OF that(1)] o [OF len(1)] len(2) that by auto
  have "owning ((places m)[i := q] ! j) \<longleftrightarrow> mx_owner x = Some j" if j: "j < length (places m)" for j
  proof (cases "j = i")
    case True
    with own len o [OF len(1)] show ?thesis by auto
  next
    case False
    with own free o [OF j] o [OF len(1)] len show ?thesis by auto
  qed
  moreover have "mx_holder x = tids j" if "at j (Inside op) (goto i q (m\<lparr>mutex := x\<rparr>))" for j op
  proof (cases "j = i")
    case True
    with that q(1) len show ?thesis by (simp add: at_def goto_def)
  next
    case False
    with that have j: "at j (Inside op) m" by (simp add: at_def goto_def)
    with inv hold [of j] False show ?thesis by (auto simp: machine_inv_def at_def)
  qed
  moreover have "mx_holder x = 0" if "at j Unlocking (goto i q (m\<lparr>mutex := x\<rparr>))" for j
  proof (cases "j = i")
    case True
    with that q(2) len show ?thesis by (simp add: at_def goto_def)
  next
    case False
    with that have j: "at j Unlocking m" by (simp add: at_def goto_def)
    with inv hold [of j] False show ?thesis by (auto simp: machine_inv_def at_def)
  qed
  ultimately show ?thesis by (simp add: machine_inv_def at_def goto_def)
qed

lemma machine_inv_step:
  assumes inv: "machine_inv tids m" and step: "machine_step critical tids m m'"
  shows "machine_inv tids m'"
  using step
proof cases
  case (mcall i op)
  from machine_inv_goto [OF inv mcall(2), of "mutex m" "AtLock op"] show ?thesis by (simp add: mcall(1))
next
  case (macquire i op x)
  from machine_inv_goto [OF inv macquire(2), of x "Locked op"] macquire(3) show ?thesis
    by (auto simp: macquire(1) pthread_lock_def split: if_splits)
next
  case (mnote i op)
  have "mx_owner (mutex m) = Some i" using inv mnote(2) by (auto simp: machine_inv_def at_def)
  with machine_inv_goto [OF inv mnote(2), of "lock_note (tids i) (mutex m)" "Inside op"] show ?thesis
    by (simp add: mnote(1) lock_note_def)
next
  case (mwait i op cv)
  then obtain p where p: "at i p m" "owning p" by auto
  from machine_inv_goto [OF inv p(1), of "pthread_unlock (mutex m)" "Asleep cv op"] p(2) show ?thesis
    by (simp add: mwait(1) pthread_unlock_def)
next
  case (mbody i op s sig r ps)
  then obtain p where p: "at i p m" "owning p" by auto
  have "mx_owner (mutex m) = Some i" using inv p by (auto simp: machine_inv_def at_def)
  with machine_inv_goto [OF inv p(1), of "mutex m" Leaving] p(2) have l: "machine_inv tids (goto i Leaving m)" by simp
  note w = mwoken_places [OF mbody(4)]
  have "machine_inv tids (m\<lparr>places := ps\<rparr>)"
    using l w by (auto simp: machine_inv_def goto_def at_def)
  then show ?thesis by (simp add: mbody(1) machine_inv_def at_def)
next
  case (mspurious i cv op)
  from machine_inv_goto [OF inv mspurious(2), of "mutex m" "Relock op"] show ?thesis by (simp add: mspurious(1))
next
  case (mrelock i op x)
  from machine_inv_goto [OF inv mrelock(2), of x "Again op"] mrelock(3) show ?thesis
    by (auto simp: mrelock(1) pthread_lock_def split: if_splits)
next
  case (mclear i)
  have "mx_owner (mutex m) = Some i" using inv mclear(2) by (auto simp: machine_inv_def at_def)
  with machine_inv_goto [OF inv mclear(2), of "unlock_note (mutex m)" Unlocking] show ?thesis
    by (simp add: mclear(1) unlock_note_def)
next
  case (mrelease i)
  from machine_inv_goto [OF inv mrelease(2), of "pthread_unlock (mutex m)" Idle] show ?thesis
    by (simp add: mrelease(1) pthread_unlock_def)
qed

section \<open>The refinement\<close>

lemma abs_new: "abs_machine (new_machine n s) = new_monitor n s"
  by (simp add: abs_machine_def new_machine_def new_monitor_def)

lemma machine_refines:
  assumes "(machine_step critical tids)\<^sup>*\<^sup>* (new_machine n s) m"
  shows "reachable critical n s (abs_machine m) \<and> machine_inv tids m"
  using assms
proof (induction rule: rtranclp_induct)
  case base
  have "reachable critical n s (abs_machine (new_machine n s))" by (simp add: reachable_def abs_new)
  moreover have "machine_inv tids (new_machine n s)"
    by (auto simp: machine_inv_def at_def new_machine_def new_MutexLock_def)
  ultimately show ?case ..
next
  case (step m m')
  with machine_simulates [OF step(2)] machine_inv_step [OF _ step(2)] show ?case
    unfolding reachable_def by (metis rtranclp.rtrancl_into_rtrancl)
qed

text \<open>
  C21. However the threads are scheduled, the locks make every method atomic: a run at the level of the mutex, the
  condition variables and \<open>holder_\<close> is a run of the monitor, with the same shared state and the same history of
  calls and results. At most one thread is between \<open>lock()\<close> and \<open>unlock()\<close>, and one that has not waited
  finds its own id in \<open>holder_\<close>.
\<close>

theorem locks_refine_monitor:
  assumes "(machine_step critical tids)\<^sup>*\<^sup>* (new_machine n s) m"
  shows "reachable critical n s (abs_machine m) \<and>
    (\<forall>i < length (places m). \<forall>j < length (places m). owning (places m ! i) \<longrightarrow> owning (places m ! j) \<longrightarrow> i = j) \<and>
    (\<forall>i op. at i (Inside op) m \<longrightarrow> isLockedByThisThread (tids i) (mutex m))"
  using machine_refines [OF assms] by (auto simp: machine_inv_def isLockedByThisThread_def)

lemma at_new [simp]: "at i p (new_machine n s) = (i < n \<and> p = Idle)"
  by (auto simp: at_def new_machine_def)

text \<open>
  After a wait \<open>holder_\<close> is not set again: a thread that owns the mutex and asks \<open>isLockedByThisThread()\<close> is told
  no, as soon as another thread has been in between.
\<close>

lemma holder_lost:
  fixes x :: 'a
  assumes "tids 0 \<noteq> 0"
  shows "\<exists>m. (machine_step bq_section tids)\<^sup>*\<^sup>* (new_machine 2 ([] :: 'a list)) m \<and> at 0 (Again Take) m \<and>
    mx_owner (mutex m) = Some 0 \<and> \<not> isLockedByThisThread (tids 0) (mutex m)"
proof -
  let ?st = "\<lambda>x h q ps hs. \<lparr>mutex = \<lparr>mx_owner = x, mx_holder = h\<rparr>, mshared = q, places = ps, mhistory = hs\<rparr>"
  let ?R = "machine_step (bq_section :: 'a queue_op \<Rightarrow> _) tids" and ?t = "tids 0" and ?h = "[(Put x, None)]"
  note defs = at_def goto_def pthread_lock_def pthread_unlock_def lock_note_def unlock_note_def
  have start: "new_machine 2 [] = ?st None 0 [] [Idle, Idle] []"
    by (simp add: new_machine_def new_MutexLock_def numeral_2_eq_2)
  have r1: "?R (?st None 0 [] [Idle, Idle] []) (?st None 0 [] [AtLock Take, Idle] [])"
    using mcall [of 0 "?st None 0 [] [Idle, Idle] []", where op = Take] by (simp add: defs)
  have r2: "?R (?st None 0 [] [AtLock Take, Idle] []) (?st (Some 0) 0 [] [Locked Take, Idle] [])"
    using macquire [of 0 Take "?st None 0 [] [AtLock Take, Idle] []" "\<lparr>mx_owner = Some 0, mx_holder = 0\<rparr>"] by (simp add: defs)
  have r3: "?R (?st (Some 0) 0 [] [Locked Take, Idle] []) (?st (Some 0) ?t [] [Inside Take, Idle] [])"
    using mnote [of 0 Take "?st (Some 0) 0 [] [Locked Take, Idle] []"] by (simp add: defs)
  have r4: "?R (?st (Some 0) ?t [] [Inside Take, Idle] []) (?st None ?t [] [Asleep notEmpty Take, Idle] [])"
    using mwait [of 0 Take "?st (Some 0) ?t [] [Inside Take, Idle] []" bq_section notEmpty] by (simp add: defs)
  have r5: "?R (?st None ?t [] [Asleep notEmpty Take, Idle] []) (?st None ?t [] [Asleep notEmpty Take, AtLock (Put x)] [])"
    using mcall [of 1 "?st None ?t [] [Asleep notEmpty Take, Idle] []", where op = "Put x"] by (simp add: defs)
  have r6: "?R (?st None ?t [] [Asleep notEmpty Take, AtLock (Put x)] [])
      (?st (Some 1) ?t [] [Asleep notEmpty Take, Locked (Put x)] [])"
    using macquire [of 1 "Put x" "?st None ?t [] [Asleep notEmpty Take, AtLock (Put x)] []"
        "\<lparr>mx_owner = Some 1, mx_holder = ?t\<rparr>"] by (simp add: defs)
  have r7: "?R (?st (Some 1) ?t [] [Asleep notEmpty Take, Locked (Put x)] [])
      (?st (Some 1) (tids 1) [] [Asleep notEmpty Take, Inside (Put x)] [])"
    using mnote [of 1 "Put x" "?st (Some 1) ?t [] [Asleep notEmpty Take, Locked (Put x)] []"] by (simp add: defs)
  have r8: "?R (?st (Some 1) (tids 1) [] [Asleep notEmpty Take, Inside (Put x)] [])
      (?st (Some 1) (tids 1) [x] [Relock Take, Leaving] ?h)"
    using mbody [of 1 "Put x" "?st (Some 1) (tids 1) [] [Asleep notEmpty Take, Inside (Put x)] []" bq_section "[x]"
        "Notify notEmpty" None] wone [of 0 "[Asleep notEmpty Take, Leaving]" notEmpty Take] by (simp add: defs)
  have r9: "?R (?st (Some 1) (tids 1) [x] [Relock Take, Leaving] ?h) (?st (Some 1) 0 [x] [Relock Take, Unlocking] ?h)"
    using mclear [of 1 "?st (Some 1) (tids 1) [x] [Relock Take, Leaving] ?h"] by (simp add: defs)
  have r10: "?R (?st (Some 1) 0 [x] [Relock Take, Unlocking] ?h) (?st None 0 [x] [Relock Take, Idle] ?h)"
    using mrelease [of 1 "?st (Some 1) 0 [x] [Relock Take, Unlocking] ?h"] by (simp add: defs)
  have r11: "?R (?st None 0 [x] [Relock Take, Idle] ?h) (?st (Some 0) 0 [x] [Again Take, Idle] ?h)"
    using mrelock [of 0 Take "?st None 0 [x] [Relock Take, Idle] ?h" "\<lparr>mx_owner = Some 0, mx_holder = 0\<rparr>"] by (simp add: defs)
  note go = converse_rtranclp_into_rtranclp [where r = ?R]
  have "?R\<^sup>*\<^sup>* (new_machine 2 []) (?st (Some 0) 0 [x] [Again Take, Idle] ?h)"
    unfolding start
    by (intro go [OF r1] go [OF r2] go [OF r3] go [OF r4] go [OF r5] go [OF r6] go [OF r7] go [OF r8] go [OF r9]
        go [OF r10] r_into_rtranclp [where r = ?R, OF r11])
  then show ?thesis using assms by (auto simp: at_def isLockedByThisThread_def)
qed

theorem locks_refine_monitor_witness:
  "\<exists>m. reachable bq_section 2 [] (abs_machine m) \<and> threads (abs_machine m) = [Entering (Take :: nat queue_op), Outside]"
proof -
  have "machine_step bq_section int (new_machine 2 []) (goto 0 (AtLock (Take :: nat queue_op)) (new_machine 2 []))"
    by (rule mcall) simp
  from locks_refine_monitor [OF r_into_rtranclp [where r = "machine_step bq_section int", OF this]] show ?thesis
    by (intro exI [of _ "goto 0 (AtLock Take) (new_machine 2 [])"])
      (simp add: abs_machine_def goto_def new_machine_def numeral_2_eq_2)
qed

end
