(* ===== verification/ThreadObjects.thy ===== *)
theory ThreadObjects
  imports Prelude
begin

text \<open>
  \<open>muduo/base/Atomic.h\<close>, \<open>Singleton.h\<close>, \<open>ThreadLocal.h\<close> and \<open>ThreadLocalSingleton.h\<close>: a counter whose
  operations are atomic, and objects made on first use, one for the process or one for each thread. A thread is
  a number; \<open>a\<close> is the address \<open>new T()\<close> gives. What POSIX says of \<open>pthread_once\<close> and of thread-specific data
  (a key's value is \<open>NULL\<close> in every thread at first; when a thread ends, a value that is not \<open>NULL\<close> is reset and
  handed to the destructor) is written out in the operations.
\<close>

section \<open>Atomic integers\<close>

text \<open>Each operation gives its result and the new value; \<open>value_ + x\<close> is computed on signed integers.\<close>

definition atomic_get :: "'w::len word \<Rightarrow> 'w word" where
  "atomic_get v = v"

definition getAndAdd :: "'w::len word \<Rightarrow> 'w word \<Rightarrow> 'w word \<times> 'w word" where
  "getAndAdd x v = (v, v + x)"

definition addAndGet :: "'w::len word \<Rightarrow> 'w word \<Rightarrow> ('w word \<times> 'w word) result" where
  "addAndGet x v =
     (case getAndAdd x v of (r, v) \<Rightarrow>
        if sint (r + x) = sint r + sint x then Inr (r + x, v) else Inl (Undefined ''signed overflow''))"

definition incrementAndGet :: "'w::len word \<Rightarrow> ('w word \<times> 'w word) result" where
  "incrementAndGet v = addAndGet 1 v"

definition decrementAndGet :: "'w::len word \<Rightarrow> ('w word \<times> 'w word) result" where
  "decrementAndGet v = addAndGet (- 1) v"

definition atomic_add :: "'w::len word \<Rightarrow> 'w word \<Rightarrow> 'w word" where
  "atomic_add x v = snd (getAndAdd x v)"

definition increment :: "'w::len word \<Rightarrow> 'w word result" where
  "increment v = rbind (incrementAndGet v) (\<lambda>(r, v). Inr v)"

definition decrement :: "'w::len word \<Rightarrow> 'w word result" where
  "decrement v = rbind (decrementAndGet v) (\<lambda>(r, v). Inr v)"

definition getAndSet :: "'w::len word \<Rightarrow> 'w word \<Rightarrow> 'w word \<times> 'w word" where
  "getAndSet newValue v = (v, newValue)"

text \<open>The results of \<open>n\<close> calls of \<open>incrementAndGet\<close>, in whatever threads: the calls are atomic.\<close>

fun increments :: "nat \<Rightarrow> 'w::len word \<Rightarrow> 'w word list result" where
  "increments 0 v = Inr []"
| "increments (Suc n) v =
     rbind (incrementAndGet v) (\<lambda>(r, v). rbind (increments n v) (\<lambda>rs. Inr (r # rs)))"

lemma sint_of_nat_small:
  "n < 2 ^ 31 \<Longrightarrow> sint (of_nat n :: 32 word) = int n" "n < 2 ^ 63 \<Longrightarrow> sint (of_nat n :: 64 word) = int n"
proof -
  assume "n < 2 ^ 31"
  then show "sint (of_nat n :: 32 word) = int n"
    using signed_take_bit_int_eq_self [of 31 "int n"] sint_sbintrunc' [of "int n", where 'a = 32] by simp
next
  assume "n < 2 ^ 63"
  then show "sint (of_nat n :: 64 word) = int n"
    using signed_take_bit_int_eq_self [of 63 "int n"] sint_sbintrunc' [of "int n", where 'a = 64] by simp
qed

text \<open>\<open>AtomicInt32\<close> numbers threads, \<open>AtomicInt64\<close> timers: the numbers are 1, 2, 3, \<open>\<dots>\<close>, all different.\<close>

lemma increments_number:
  "k + n < 2 ^ 31 \<Longrightarrow> increments n (of_nat k :: 32 word) = Inr (map of_nat [k + 1..<k + n + 1])"
  "k + n < 2 ^ 63 \<Longrightarrow> increments n (of_nat k :: 64 word) = Inr (map of_nat [k + 1..<k + n + 1])"
proof -
  show "k + n < 2 ^ 31 \<Longrightarrow> increments n (of_nat k :: 32 word) = Inr (map of_nat [k + 1..<k + n + 1])"
  proof (induction n arbitrary: k)
    case (Suc n)
    have "incrementAndGet (of_nat k :: 32 word) = Inr (of_nat (k + 1), of_nat (k + 1))"
      using sint_of_nat_small(1) [of "k + 1"] sint_of_nat_small(1) [of k] sint_of_nat_small(1) [of 1] Suc.prems
      by (simp add: incrementAndGet_def addAndGet_def getAndAdd_def add.commute)
    with Suc.IH [of "k + 1"] Suc.prems show ?case by (simp add: upt_conv_Cons del: upt_Suc)
  qed simp
next
  show "k + n < 2 ^ 63 \<Longrightarrow> increments n (of_nat k :: 64 word) = Inr (map of_nat [k + 1..<k + n + 1])"
  proof (induction n arbitrary: k)
    case (Suc n)
    have "incrementAndGet (of_nat k :: 64 word) = Inr (of_nat (k + 1), of_nat (k + 1))"
      using sint_of_nat_small(2) [of "k + 1"] sint_of_nat_small(2) [of k] sint_of_nat_small(2) [of 1] Suc.prems
      by (simp add: incrementAndGet_def addAndGet_def getAndAdd_def add.commute)
    with Suc.IH [of "k + 1"] Suc.prems show ?case by (simp add: upt_conv_Cons del: upt_Suc)
  qed simp
qed

section \<open>\<open>Singleton\<close>\<close>

record singleton =
  sg_once :: bool \<comment> \<open>\<open>pthread_once\<close> has run \<open>init\<close>\<close>
  sg_value :: "nat option"
  sg_live :: "nat set" \<comment> \<open>the objects constructed and not deleted\<close>
  sg_atexit :: nat \<comment> \<open>how often \<open>destroy\<close> is registered\<close>

definition new_singleton :: singleton where
  "new_singleton = \<lparr>sg_once = False, sg_value = None, sg_live = {}, sg_atexit = 0\<rparr>"

definition sg_init :: "nat \<Rightarrow> singleton \<Rightarrow> singleton" where
  "sg_init a s = s\<lparr>sg_value := Some a, sg_live := insert a (sg_live s), sg_atexit := sg_atexit s + 1\<rparr>"

definition sg_instance :: "nat \<Rightarrow> singleton \<Rightarrow> (nat \<times> singleton) result" where
  "sg_instance a s =
     (let s = if sg_once s then s else (sg_init a s)\<lparr>sg_once := True\<rparr>
      in case sg_value s of
           Some v \<Rightarrow> if v \<in> sg_live s then Inr (v, s) else Inl (Undefined ''value_ has been deleted'')
         | None \<Rightarrow> Inl (Undefined ''value_ is null''))"

definition sg_destroy :: "singleton \<Rightarrow> singleton" where
  "sg_destroy s = (case sg_value s of None \<Rightarrow> s | Some v \<Rightarrow> s\<lparr>sg_live := sg_live s - {v}\<rparr>)"

text \<open>Calls before the end of the process, each with the address its \<open>new\<close> would give.\<close>

fun sg_calls :: "nat list \<Rightarrow> singleton \<Rightarrow> (nat list \<times> singleton) result" where
  "sg_calls [] s = Inr ([], s)"
| "sg_calls (a # as) s =
     rbind (sg_instance a s) (\<lambda>(v, s). rbind (sg_calls as s) (\<lambda>(vs, s). Inr (v # vs, s)))"

lemma sg_calls_after:
  "sg_once s \<Longrightarrow> sg_value s = Some v \<Longrightarrow> v \<in> sg_live s \<Longrightarrow> sg_calls as s = Inr (replicate (length as) v, s)"
  by (induction as) (simp_all add: sg_instance_def)

text \<open>All calls give the object the first one made, which is destroyed once.\<close>

lemma singleton_one_object:
  "sg_calls (a # as) new_singleton =
     Inr (replicate (Suc (length as)) a, \<lparr>sg_once = True, sg_value = Some a, sg_live = {a}, sg_atexit = 1\<rparr>)"
  using sg_calls_after [of "\<lparr>sg_once = True, sg_value = Some a, sg_live = {a}, sg_atexit = 1\<rparr>" a as]
  by (simp add: sg_instance_def sg_init_def new_singleton_def)

text \<open>\<open>destroy\<close> does not reset \<open>value_\<close>: a later call gives a deleted object.\<close>

lemma singleton_after_exit:
  "sg_once s \<Longrightarrow> sg_value s = Some v \<Longrightarrow> sg_instance a (sg_destroy s) = Inl (Undefined ''value_ has been deleted'')"
  by (simp add: sg_instance_def sg_destroy_def)

section \<open>\<open>ThreadLocal\<close>\<close>

record thread_local =
  th_spec :: "nat \<Rightarrow> nat option" \<comment> \<open>the value of \<open>pkey_\<close> in each thread\<close>
  th_live :: "nat set"

definition new_thread_local :: thread_local where
  "new_thread_local = \<lparr>th_spec = (\<lambda>t. None), th_live = {}\<rparr>"

definition th_value :: "nat \<Rightarrow> nat \<Rightarrow> thread_local \<Rightarrow> nat \<times> thread_local" where
  "th_value t a s = (case th_spec s t of
     None \<Rightarrow> (a, s\<lparr>th_spec := (th_spec s)(t \<mapsto> a), th_live := insert a (th_live s)\<rparr>)
   | Some v \<Rightarrow> (v, s))"

definition th_destructor :: "nat \<Rightarrow> thread_local \<Rightarrow> thread_local" where
  "th_destructor x s = s\<lparr>th_live := th_live s - {x}\<rparr>"

text \<open>The end of a thread.\<close>

definition th_exit :: "nat \<Rightarrow> thread_local \<Rightarrow> thread_local" where
  "th_exit t s = (case th_spec s t of
     None \<Rightarrow> s
   | Some v \<Rightarrow> th_destructor v (s\<lparr>th_spec := (th_spec s)(t := None)\<rparr>))"

section \<open>\<open>ThreadLocalSingleton\<close>\<close>

record thread_singleton =
  ts_value :: "nat \<Rightarrow> nat option" \<comment> \<open>\<open>t_value_\<close>\<close>
  ts_spec :: "nat \<Rightarrow> nat option" \<comment> \<open>the value of \<open>deleter_.pkey_\<close>\<close>
  ts_live :: "nat set"

definition new_thread_singleton :: thread_singleton where
  "new_thread_singleton = \<lparr>ts_value = (\<lambda>t. None), ts_spec = (\<lambda>t. None), ts_live = {}\<rparr>"

definition ts_set :: "nat \<Rightarrow> nat \<Rightarrow> thread_singleton \<Rightarrow> thread_singleton result" where
  "ts_set t a s =
     rbind (guard (ts_spec s t = None) ''pthread_getspecific(pkey_) == NULL'') (\<lambda>_.
     Inr (s\<lparr>ts_spec := (ts_spec s)(t \<mapsto> a)\<rparr>))"

definition ts_instance :: "nat \<Rightarrow> nat \<Rightarrow> thread_singleton \<Rightarrow> (nat \<times> thread_singleton) result" where
  "ts_instance t a s = (case ts_value s t of
     None \<Rightarrow> rbind (ts_set t a (s\<lparr>ts_value := (ts_value s)(t \<mapsto> a), ts_live := insert a (ts_live s)\<rparr>)) (\<lambda>s. Inr (a, s))
   | Some v \<Rightarrow> Inr (v, s))"

definition ts_pointer :: "nat \<Rightarrow> thread_singleton \<Rightarrow> nat option" where
  "ts_pointer t s = ts_value s t"

definition ts_destructor :: "nat \<Rightarrow> nat \<Rightarrow> thread_singleton \<Rightarrow> thread_singleton result" where
  "ts_destructor t obj s =
     rbind (guard (ts_value s t = Some obj) ''obj == t_value_'') (\<lambda>_.
     Inr (s\<lparr>ts_live := ts_live s - {obj}, ts_value := (ts_value s)(t := None)\<rparr>))"

definition ts_exit :: "nat \<Rightarrow> thread_singleton \<Rightarrow> thread_singleton result" where
  "ts_exit t s = (case ts_spec s t of
     None \<Rightarrow> Inr s
   | Some obj \<Rightarrow> ts_destructor t obj (s\<lparr>ts_spec := (ts_spec s)(t := None)\<rparr>))"

section \<open>One object for each thread\<close>

text \<open>The contract of the two classes: what a thread is given stays its own until it ends.\<close>

locale per_thread =
  fixes give :: "nat \<Rightarrow> nat \<Rightarrow> 's \<Rightarrow> (nat \<times> 's) result" and leave :: "nat \<Rightarrow> 's \<Rightarrow> 's result"
    and own :: "'s \<Rightarrow> nat \<Rightarrow> nat option" and live :: "'s \<Rightarrow> nat set" and ok :: "'s \<Rightarrow> bool"
  assumes ok_live: "ok s \<Longrightarrow> live s = ran (own s)"
    and ok_inj: "ok s \<Longrightarrow> own s t = Some a \<Longrightarrow> own s u = Some a \<Longrightarrow> t = u"
    and give: "ok s \<Longrightarrow> a \<notin> live s \<Longrightarrow> \<exists>v s'. give t a s = Inr (v, s') \<and> ok s' \<and> own s' = (own s)(t \<mapsto> v) \<and>
      (own s t = None \<longrightarrow> v = a) \<and> (\<forall>w. own s t = Some w \<longrightarrow> v = w)"
    and leave: "ok s \<Longrightarrow> \<exists>s'. leave t s = Inr s' \<and> ok s' \<and> own s' = (own s)(t := None)"
begin

text \<open>Two threads never share an object, and a thread is given the same one again.\<close>

lemma give_twice:
  assumes "ok s" "a \<notin> live s" "give t a s = Inr (v, s')" "b \<notin> live s'"
  shows "\<exists>s''. give t b s' = Inr (v, s'') \<and> own s'' = own s'"
proof -
  from give [OF assms(1,2), of t] assms(3) have s': "ok s'" "own s' t = Some v" by auto
  from give [OF s'(1) assms(4), of t] s'(2) show ?thesis by (auto simp: fun_eq_iff)
qed

lemma give_apart:
  assumes "ok s" "a \<notin> live s" "give t a s = Inr (v, s')" "u \<noteq> t"
  shows "own s' u \<noteq> Some v"
proof -
  from give [OF assms(1,2), of t] assms(3) have "ok s'" "own s' t = Some v" by auto
  with ok_inj assms(4) show ?thesis by blast
qed

lemma leave_frees:
  assumes "ok s" "own s t = Some v" "leave t s = Inr s'"
  shows "live s' = live s - {v}"
proof -
  from leave [OF assms(1), of t] assms(3) have s': "ok s'" "own s' = (own s)(t := None)" by auto
  have "ran (own s') = ran (own s) - {v}"
    using assms(2) ok_inj [OF assms(1)] unfolding s'(2) ran_def by (auto split: if_splits) (metis option.inject)
  then show ?thesis using ok_live assms(1) s'(1) by simp
qed

end

definition th_ok :: "thread_local \<Rightarrow> bool" where
  "th_ok s \<longleftrightarrow> th_live s = ran (th_spec s) \<and> (\<forall>t u a. th_spec s t = Some a \<longrightarrow> th_spec s u = Some a \<longrightarrow> t = u)"

definition ts_ok :: "thread_singleton \<Rightarrow> bool" where
  "ts_ok s \<longleftrightarrow> ts_spec s = ts_value s \<and> ts_live s = ran (ts_value s) \<and>
     (\<forall>t u a. ts_value s t = Some a \<longrightarrow> ts_value s u = Some a \<longrightarrow> t = u)"

lemma ran_update: "(\<forall>u. u \<noteq> t \<longrightarrow> m u \<noteq> Some v) \<Longrightarrow> m t = Some v \<Longrightarrow> ran (m(t := None)) = ran m - {v}"
  by (auto simp: ran_def) (metis option.inject)

interpretation th: per_thread "\<lambda>t a s. Inr (th_value t a s)" "\<lambda>t s. Inr (th_exit t s)" th_spec th_live th_ok
proof
  fix s t u a v
  show "th_live s = ran (th_spec s)" if "th_ok s" using that by (simp add: th_ok_def)
  show "t = u" if "th_ok s" "th_spec s t = Some a" "th_spec s u = Some a" using that by (simp add: th_ok_def)
  show "\<exists>v s'. Inr (th_value t a s) = Inr (v, s') \<and> th_ok s' \<and> th_spec s' = (th_spec s)(t \<mapsto> v) \<and>
      (th_spec s t = None \<longrightarrow> v = a) \<and> (\<forall>w. th_spec s t = Some w \<longrightarrow> v = w)" if "th_ok s" "a \<notin> th_live s"
    using that by (cases "th_spec s t") (auto simp: th_value_def th_ok_def map_upd_triv dest: ranI split: if_splits)
  show "\<exists>s'. Inr (th_exit t s) = Inr s' \<and> th_ok s' \<and> th_spec s' = (th_spec s)(t := None)" if ok: "th_ok s"
  proof (cases "th_spec s t")
    case None
    with ok show ?thesis by (auto simp: th_exit_def)
  next
    case (Some v)
    have "ran ((th_spec s)(t := None)) = ran (th_spec s) - {v}"
      by (rule ran_update) (use ok Some in \<open>auto simp: th_ok_def\<close>)
    with ok Some show ?thesis by (auto simp: th_exit_def th_destructor_def th_ok_def split: if_splits)
  qed
qed

interpretation ts: per_thread ts_instance ts_exit ts_value ts_live ts_ok
proof
  fix s t u a v
  show "ts_live s = ran (ts_value s)" if "ts_ok s" using that by (simp add: ts_ok_def)
  show "t = u" if "ts_ok s" "ts_value s t = Some a" "ts_value s u = Some a" using that by (simp add: ts_ok_def)
  show "\<exists>v s'. ts_instance t a s = Inr (v, s') \<and> ts_ok s' \<and> ts_value s' = (ts_value s)(t \<mapsto> v) \<and>
      (ts_value s t = None \<longrightarrow> v = a) \<and> (\<forall>w. ts_value s t = Some w \<longrightarrow> v = w)" if "ts_ok s" "a \<notin> ts_live s"
    using that by (cases "ts_value s t") (auto simp: ts_instance_def ts_set_def ts_ok_def map_upd_triv dest: ranI split: if_splits)
  show "\<exists>s'. ts_exit t s = Inr s' \<and> ts_ok s' \<and> ts_value s' = (ts_value s)(t := None)" if ok: "ts_ok s"
  proof (cases "ts_value s t")
    case None
    with ok show ?thesis by (auto simp: ts_exit_def ts_ok_def)
  next
    case (Some v)
    have "ran ((ts_value s)(t := None)) = ran (ts_value s) - {v}"
      by (rule ran_update) (use ok Some in \<open>auto simp: ts_ok_def\<close>)
    with ok Some show ?thesis by (auto simp: ts_exit_def ts_destructor_def ts_ok_def split: if_splits)
  qed
qed

end
