(* ===== verification/ThreadPool.thy ===== *)
theory ThreadPool
  imports Prelude
begin

text \<open>
  \<open>muduo/base/ThreadPool.h\<close> and \<open>ThreadPool.cc\<close>: the pool, its workers and the threads that call it. A step
  is one critical section of \<open>mutex_\<close> (that the sections are atomic is what the theory \<open>Mutex\<close> shows) or one of
  the reads the code does outside the lock: \<open>run\<close> looks at the queue, a worker at \<open>running_\<close>. What a task does
  is a parameter: \<open>exec task\<close> is the exception it throws, if any.
\<close>

section \<open>The pool\<close>

datatype fault = MuduoException | StdException | OtherException

text \<open>
  A worker is in front of the loop test, in \<open>take\<close>, asleep in \<open>cond_.wait()\<close>, about to call what \<open>take\<close> gave
  it (possibly the empty task), or its function has returned. A caller is in the middle of \<open>run\<close> or \<open>stop\<close>.
\<close>

datatype 't worker = Checking | Taking | Sleeping | Working "'t option" | Finished

datatype 't caller = Idle | Calling 't | Pushing 't | Joining nat

datatype runner = Caller nat | Worker nat

record 't pool =
  pl_name :: string
  pl_queue :: "'t list"
  pl_running :: bool
  pl_names :: "string list"
  pl_workers :: "'t worker list"
  pl_callers :: "'t caller list"
  pl_ran :: "(runner \<times> 't) list"
  pl_aborted :: bool

definition new_ThreadPool :: "string \<Rightarrow> nat \<Rightarrow> 't pool" where
  "new_ThreadPool name callers = \<lparr>pl_name = name, pl_queue = [], pl_running = False, pl_names = [], pl_workers = [],
     pl_callers = replicate callers Idle, pl_ran = [], pl_aborted = False\<rparr>"

text \<open>
  \<open>reserve\<close> takes an unsigned number, so a negative one is refused with \<open>std::length_error\<close>. The threads start
  while the loop of \<open>start\<close> still creates others; they do not look at each other.
\<close>

definition pool_start :: "int \<Rightarrow> 't pool \<Rightarrow> 't pool result" where
  "pool_start numThreads s =
     rbind (guard (pl_workers s = []) ''threads_.empty()'') (\<lambda>_.
     if numThreads < 0 then Inl (Fatal ''std::length_error'') else
     Inr (s\<lparr>pl_running := True,
            pl_names := map (\<lambda>i. pl_name s @ show_nat i) [0..<nat numThreads],
            pl_workers := replicate (nat numThreads) Checking\<rparr>))"

definition set_worker :: "nat \<Rightarrow> 't worker \<Rightarrow> 't pool \<Rightarrow> 't pool" where
  "set_worker i w s = s\<lparr>pl_workers := (pl_workers s)[i := w]\<rparr>"

definition set_caller :: "nat \<Rightarrow> 't caller \<Rightarrow> 't pool \<Rightarrow> 't pool" where
  "set_caller i c s = s\<lparr>pl_callers := (pl_callers s)[i := c]\<rparr>"

text \<open>\<open>run\<close>: the look at the queue, and the critical section of its \<open>else\<close> branch.\<close>

definition run_look :: "'t \<Rightarrow> 't pool \<Rightarrow> 't caller" where
  "run_look task s = (if pl_queue s = [] then Calling task else Pushing task)"

definition run_push :: "'t \<Rightarrow> 't pool \<Rightarrow> 't pool" where
  "run_push task s = s\<lparr>pl_queue := pl_queue s @ [task]\<rparr>"

definition ran :: "runner \<Rightarrow> 't \<Rightarrow> 't pool \<Rightarrow> 't pool" where
  "ran r task s = s\<lparr>pl_ran := pl_ran s @ [(r, task)]\<rparr>"

text \<open>The critical section of \<open>stop\<close>, and the call of it by the destructor.\<close>

definition wake :: "'t worker \<Rightarrow> 't worker" where
  "wake w = (case w of Sleeping \<Rightarrow> Taking | _ \<Rightarrow> w)"

definition stop_section :: "'t pool \<Rightarrow> 't pool" where
  "stop_section s = s\<lparr>pl_running := False, pl_workers := map wake (pl_workers s)\<rparr>"

definition dtor_section :: "nat \<Rightarrow> 't pool \<Rightarrow> 't pool" where
  "dtor_section i s = (if pl_running s then set_caller i (Joining 0) (stop_section s) else s)"

text \<open>\<open>for_each(threads_.begin(), threads_.end(), join)\<close>: \<open>None\<close> while the thread joined still runs.\<close>

definition join_next :: "nat \<Rightarrow> 't pool \<Rightarrow> 't caller option" where
  "join_next j s = (if j < length (pl_workers s)
     then (if pl_workers s ! j = Finished then Some (Joining (j + 1)) else None)
     else Some Idle)"

text \<open>\<open>runInThread\<close>: the loop test, the critical section of \<open>take\<close>, and the task with the handlers around it.\<close>

definition take_section :: "'t pool \<Rightarrow> 't worker \<times> 't pool" where
  "take_section s = (case pl_queue s of
     [] \<Rightarrow> (if pl_running s then Sleeping else Working None, s)
   | task # rest \<Rightarrow> (Working (Some task), s\<lparr>pl_queue := rest\<rparr>))"

fun worker_next :: "('t \<Rightarrow> fault option) \<Rightarrow> nat \<Rightarrow> 't worker \<Rightarrow> 't pool \<Rightarrow> 't pool option" where
  "worker_next exec i Checking s = Some (set_worker i (if pl_running s then Taking else Finished) s)"
| "worker_next exec i Taking s = (case take_section s of (w, s1) \<Rightarrow> Some (set_worker i w s1))"
| "worker_next exec i Sleeping s = None"
| "worker_next exec i (Working None) s = Some (set_worker i Checking s)"
| "worker_next exec i (Working (Some task)) s =
     (let s1 = ran (Worker i) task s in
      case exec task of
        None \<Rightarrow> Some (set_worker i Checking s1)
      | Some MuduoException \<Rightarrow> Some (s1\<lparr>pl_aborted := True\<rparr>)
      | Some _ \<Rightarrow> Some (set_worker i Finished s1))"
| "worker_next exec i Finished s = None"

text \<open>One step of a worker or of a caller. A thread asleep may wake for no reason.\<close>

inductive worker_step :: "('t \<Rightarrow> fault option) \<Rightarrow> 't pool \<Rightarrow> 't pool \<Rightarrow> bool" for exec where
  work: "\<not> pl_aborted s \<Longrightarrow> i < length (pl_workers s) \<Longrightarrow> worker_next exec i (pl_workers s ! i) s = Some s' \<Longrightarrow>
    worker_step exec s s'"
| spurious: "\<not> pl_aborted s \<Longrightarrow> i < length (pl_workers s) \<Longrightarrow> pl_workers s ! i = Sleeping \<Longrightarrow>
    worker_step exec s (set_worker i Taking s)"

inductive caller_step :: "'t pool \<Rightarrow> 't pool \<Rightarrow> bool" where
  start: "\<not> pl_aborted s \<Longrightarrow> pool_start numThreads s = Inr s' \<Longrightarrow> caller_step s s'"
| run: "\<not> pl_aborted s \<Longrightarrow> i < length (pl_callers s) \<Longrightarrow> pl_callers s ! i = Idle \<Longrightarrow>
    caller_step s (set_caller i (run_look task s) s)"
| inline: "\<not> pl_aborted s \<Longrightarrow> i < length (pl_callers s) \<Longrightarrow> pl_callers s ! i = Calling task \<Longrightarrow>
    caller_step s (set_caller i Idle (ran (Caller i) task s))"
| push: "\<not> pl_aborted s \<Longrightarrow> i < length (pl_callers s) \<Longrightarrow> pl_callers s ! i = Pushing task \<Longrightarrow>
    Sleeping \<notin> set (pl_workers s) \<Longrightarrow> caller_step s (set_caller i Idle (run_push task s))"
| push_wake: "\<not> pl_aborted s \<Longrightarrow> i < length (pl_callers s) \<Longrightarrow> pl_callers s ! i = Pushing task \<Longrightarrow>
    j < length (pl_workers s) \<Longrightarrow> pl_workers s ! j = Sleeping \<Longrightarrow>
    caller_step s (set_caller i Idle (set_worker j Taking (run_push task s)))"
| stop: "\<not> pl_aborted s \<Longrightarrow> i < length (pl_callers s) \<Longrightarrow> pl_callers s ! i = Idle \<Longrightarrow>
    caller_step s (set_caller i (Joining 0) (stop_section s))"
| destroy: "\<not> pl_aborted s \<Longrightarrow> i < length (pl_callers s) \<Longrightarrow> pl_callers s ! i = Idle \<Longrightarrow>
    caller_step s (dtor_section i s)"
| join: "\<not> pl_aborted s \<Longrightarrow> i < length (pl_callers s) \<Longrightarrow> pl_callers s ! i = Joining j \<Longrightarrow>
    join_next j s = Some c \<Longrightarrow> caller_step s (set_caller i c s)"

definition pool_step :: "('t \<Rightarrow> fault option) \<Rightarrow> 't pool \<Rightarrow> 't pool \<Rightarrow> bool" where
  "pool_step exec s s' \<longleftrightarrow> worker_step exec s s' \<or> caller_step s s'"

definition pool_reaches :: "('t \<Rightarrow> fault option) \<Rightarrow> string \<Rightarrow> nat \<Rightarrow> 't pool \<Rightarrow> bool" where
  "pool_reaches exec name callers s \<longleftrightarrow> (pool_step exec)\<^sup>*\<^sup>* (new_ThreadPool name callers) s"

section \<open>The invariant\<close>

text \<open>How many more steps a worker can take once \<open>running_\<close> is false.\<close>

fun steps_left :: "'t worker \<Rightarrow> nat" where
  "steps_left Taking = 3"
| "steps_left (Working task) = 2"
| "steps_left Checking = 1"
| "steps_left Sleeping = 0"
| "steps_left Finished = 0"

lemma worker_next_empty:
  assumes "worker_next exec i w s = Some s'" "pl_queue s = []" "\<And>task. w \<noteq> Working (Some task)"
  obtains w' where "s' = set_worker i w' s" "\<And>task. w' \<noteq> Working (Some task)" "w' = Sleeping \<Longrightarrow> pl_running s"
    "\<not> pl_running s \<Longrightarrow> steps_left w' < steps_left w"
proof (cases w)
  case (Working x)
  with assms(1,3) have "s' = set_worker i Checking s" by (cases x) auto
  with Working show ?thesis by (intro that) auto
next
  case Checking
  with assms(1) show ?thesis by (cases "pl_running s") (auto intro: that [of Taking] that [of Finished])
next
  case Taking
  with assms(1,2) show ?thesis
    by (cases "pl_running s") (auto simp: take_section_def intro: that [of Sleeping] that [of "Working None"])
qed (use assms(1) in auto)

definition pool_inv :: "nat \<Rightarrow> 't pool \<Rightarrow> bool" where
  "pool_inv n s \<longleftrightarrow> pl_queue s = [] \<and> \<not> pl_aborted s \<and> length (pl_callers s) = n \<and>
     (\<forall>task. Working (Some task) \<notin> set (pl_workers s)) \<and> (\<forall>task. Pushing task \<notin> set (pl_callers s)) \<and>
     (\<forall>x\<in>set (pl_ran s). \<exists>i<n. fst x = Caller i) \<and> (\<not> pl_running s \<longrightarrow> Sleeping \<notin> set (pl_workers s))"

lemma pool_inv_new: "pool_inv n (new_ThreadPool name n)"
  by (simp add: pool_inv_def new_ThreadPool_def)

lemma set_update_member: "x \<in> set (xs[i := y]) \<Longrightarrow> x = y \<or> x \<in> set xs"
  by (meson insertE set_update_subset_insert subsetD)

lemma set_worker_inv:
  assumes "pool_inv n s" "\<And>task. w \<noteq> Working (Some task)" "w = Sleeping \<Longrightarrow> pl_running s"
  shows "pool_inv n (set_worker i w s)"
  using assms by (auto simp: pool_inv_def set_worker_def dest!: set_update_member)

lemma set_caller_inv:
  assumes "pool_inv n s" "\<And>task. c \<noteq> Pushing task"
  shows "pool_inv n (set_caller i c s)"
  using assms by (auto simp: pool_inv_def set_caller_def dest!: set_update_member)

lemma ran_inv: "pool_inv n s \<Longrightarrow> i < n \<Longrightarrow> pool_inv n (ran (Caller i) task s)"
  by (auto simp: pool_inv_def ran_def)

lemma wake_cases: "wake w = (if w = Sleeping then Taking else w)"
  by (cases w) (simp_all add: wake_def)

lemma stop_section_inv: "pool_inv n s \<Longrightarrow> pool_inv n (stop_section s)"
  by (auto simp: pool_inv_def stop_section_def wake_cases split: if_splits)

lemma worker_step_inv:
  assumes "worker_step exec s s'" "pool_inv n s"
  shows "pool_inv n s'"
  using assms(1)
proof cases
  case (work i)
  have "pl_workers s ! i \<noteq> Working (Some task)" for task
    using assms(2) nth_mem [OF work(2)] by (auto simp: pool_inv_def)
  moreover have "pl_queue s = []" using assms(2) by (simp add: pool_inv_def)
  ultimately obtain w where "s' = set_worker i w s" "\<And>task. w \<noteq> Working (Some task)" "w = Sleeping \<Longrightarrow> pl_running s"
    using worker_next_empty [OF work(3)] by blast
  with assms(2) show ?thesis by (simp add: set_worker_inv)
next
  case (spurious i)
  from assms(2) show ?thesis unfolding spurious(1) by (rule set_worker_inv) simp_all
qed

lemma caller_step_inv:
  assumes "caller_step s s'" "pool_inv n s"
  shows "pool_inv n s'"
  using assms(1)
proof cases
  case (start k)
  then show ?thesis using assms(2) by (auto simp: pool_start_def pool_inv_def rbind_eq_Inr_conv split: if_splits)
next
  case (run i task)
  moreover have "run_look task s = Calling task" using assms(2) by (simp add: run_look_def pool_inv_def)
  ultimately show ?thesis using assms(2) by (simp add: set_caller_inv)
next
  case (push i task)
  then show ?thesis using assms(2) by (metis nth_mem pool_inv_def)
next
  case (push_wake i task j)
  then show ?thesis using assms(2) by (metis nth_mem pool_inv_def)
next
  case (destroy i)
  then show ?thesis using assms(2) by (auto simp: dtor_section_def intro!: set_caller_inv stop_section_inv)
next
  case (join i j c)
  then show ?thesis using assms(2) by (auto simp: join_next_def intro!: set_caller_inv split: if_splits)
next
  case (inline i task)
  have "i < n" using inline(3) assms(2) by (simp add: pool_inv_def)
  with assms(2) show ?thesis by (simp add: inline(1) set_caller_inv ran_inv)
next
  case (stop i)
  with assms(2) show ?thesis by (simp add: set_caller_inv stop_section_inv)
qed

lemma pool_reaches_inv:
  assumes "pool_reaches exec name n s"
  shows "pool_inv n s"
  using assms unfolding pool_reaches_def
proof (induction rule: rtranclp_induct)
  case (step s s')
  then show ?case by (auto simp: pool_step_def intro: worker_step_inv caller_step_inv)
qed (rule pool_inv_new)

section \<open>After stop\<close>

definition pending :: "'t pool \<Rightarrow> nat" where
  "pending s = sum_list (map steps_left (pl_workers s))"

lemma pending_bound: "pending s \<le> 3 * length (pl_workers s)"
proof -
  have "steps_left w \<le> 3" for w :: "'a worker" by (cases w) simp_all
  then have "sum_list (map steps_left ws) \<le> 3 * length ws" for ws :: "'a worker list"
    by (induction ws) (auto intro: add_mono)
  then show ?thesis by (simp add: pending_def)
qed

lemma pending_set_worker:
  assumes "i < length (pl_workers s)"
  shows "pending (set_worker i w s) + steps_left (pl_workers s ! i) = pending s + steps_left w"
proof -
  have "sum_list (map steps_left (ws[i := w])) + steps_left (ws ! i) = sum_list (map steps_left ws) + steps_left w"
    if "i < length ws" for ws
    using that by (induction ws arbitrary: i) (auto split: nat.split)
  with assms show ?thesis by (simp add: pending_def set_worker_def)
qed

definition stopped :: "nat \<Rightarrow> 't pool \<Rightarrow> bool" where
  "stopped n s \<longleftrightarrow> pool_inv n s \<and> \<not> pl_running s \<and> pl_workers s \<noteq> []"

lemma stopped_worker_step:
  assumes "worker_step exec s s'" "stopped n s"
  shows "stopped n s' \<and> pending s' < pending s \<and> length (pl_workers s') = length (pl_workers s)"
  using assms(1)
proof cases
  case (work i)
  have e: "pl_queue s = []" "\<not> pl_running s" "pl_workers s ! i \<noteq> Working (Some task)" for task
    using assms(2) nth_mem [OF work(2)] by (auto simp: stopped_def pool_inv_def)
  then obtain w where w: "s' = set_worker i w s" "steps_left w < steps_left (pl_workers s ! i)"
    using worker_next_empty [OF work(3)] by blast
  then have "pending s' < pending s" using pending_set_worker [OF work(2), of w] by simp
  moreover have "pool_inv n s'" using worker_step_inv [OF assms(1)] assms(2) by (simp add: stopped_def)
  ultimately show ?thesis using assms(2) w(1) by (simp add: stopped_def set_worker_def)
next
  case (spurious i)
  then show ?thesis using assms(2) nth_mem by (fastforce simp: stopped_def pool_inv_def)
qed

lemma pending_wake: "Sleeping \<notin> set ws \<Longrightarrow> map wake ws = ws"
  by (induction ws) (auto simp: wake_cases)

lemma stopped_caller_step:
  assumes "caller_step s s'" "stopped n s"
  shows "stopped n s' \<and> pl_workers s' = pl_workers s"
proof -
  have inv: "pool_inv n s'" using caller_step_inv [OF assms(1)] assms(2) by (simp add: stopped_def)
  have awake: "map wake (pl_workers s) = pl_workers s" using assms(2) by (simp add: stopped_def pool_inv_def pending_wake)
  from assms(1) have "pl_workers s' = pl_workers s \<and> pl_running s' = pl_running s"
  proof cases
    case (push_wake i task j)
    then show ?thesis using assms(2) nth_mem by (fastforce simp: stopped_def pool_inv_def)
  qed (use assms(2) awake in \<open>auto simp: stopped_def pool_start_def rbind_eq_Inr_conv set_caller_def ran_def run_push_def
      stop_section_def dtor_section_def\<close>)
  with inv assms(2) show ?thesis by (simp add: stopped_def)
qed

text \<open>A run of the pool with \<open>k\<close> steps of workers among those of the callers.\<close>

inductive pool_run :: "('t \<Rightarrow> fault option) \<Rightarrow> nat \<Rightarrow> 't pool \<Rightarrow> 't pool \<Rightarrow> bool" for exec where
  here: "pool_run exec 0 s s"
| worker: "pool_run exec k s s1 \<Longrightarrow> worker_step exec s1 s2 \<Longrightarrow> pool_run exec (k + 1) s s2"
| caller: "pool_run exec k s s1 \<Longrightarrow> caller_step s1 s2 \<Longrightarrow> pool_run exec k s s2"

lemma pool_run_stopped:
  assumes "pool_run exec k s s'" "stopped n s"
  shows "stopped n s' \<and> k + pending s' \<le> pending s \<and> length (pl_workers s') = length (pl_workers s)"
  using assms
proof (induction rule: pool_run.induct)
  case (worker k s s1 s2)
  then show ?case using stopped_worker_step [of exec s1 s2 n] by simp
next
  case (caller k s s1 s2)
  then show ?case using stopped_caller_step [of s1 s2 n] by (simp add: pending_def)
qed simp

lemma pool_run_reaches:
  assumes "pool_run exec k s s'" "pool_reaches exec name n s"
  shows "pool_reaches exec name n s'"
  using assms
  by (induction rule: pool_run.induct)
    (auto simp: pool_reaches_def pool_step_def elim: rtranclp.rtrancl_into_rtrancl)

text \<open>A worker of a stopped pool that has not returned can take a step.\<close>

lemma stopped_worker_moves:
  assumes "stopped n s" "w \<in> set (pl_workers s)" "w \<noteq> Finished"
  shows "\<exists>s'. worker_step exec s s'"
proof -
  from assms(2) obtain i where i: "i < length (pl_workers s)" "pl_workers s ! i = w" by (auto simp: in_set_conv_nth)
  have "w \<noteq> Sleeping" "\<not> pl_aborted s" "w \<noteq> Working (Some task)" for task
    using assms(1,2) by (auto simp: stopped_def pool_inv_def)
  with assms(3) have "\<exists>s'. worker_next exec i w s = Some s'"
    by (cases "(exec, i, w, s)" rule: worker_next.cases) (auto split: prod.split)
  with i \<open>\<not> pl_aborted s\<close> show ?thesis by (blast intro: worker_step.work)
qed

lemma callers_reach:
  assumes "caller_step\<^sup>*\<^sup>* (new_ThreadPool name n) s"
  shows "pool_reaches exec name n s"
  unfolding pool_reaches_def
  by (rule rtranclp_mono [THEN predicate2D, OF _ assms]) (auto simp: pool_step_def)

section \<open>Joining\<close>

definition joins_ok :: "'t pool \<Rightarrow> bool" where
  "joins_ok s \<longleftrightarrow> (\<forall>j. Joining j \<in> set (pl_callers s) \<longrightarrow>
     j \<le> length (pl_workers s) \<and> (\<forall>k<j. pl_workers s ! k = Finished))"

lemma worker_step_finished:
  assumes "worker_step exec s s'"
  shows "pl_callers s' = pl_callers s \<and> length (pl_workers s') = length (pl_workers s) \<and>
    (\<forall>k<length (pl_workers s). pl_workers s ! k = Finished \<longrightarrow> pl_workers s' ! k = Finished)"
  using assms
proof cases
  case (work i)
  then show ?thesis
    by (cases "(exec, i, pl_workers s ! i, s)" rule: worker_next.cases)
      (auto simp: take_section_def set_worker_def ran_def Let_def nth_list_update split: list.splits option.splits fault.splits if_splits)
qed (auto simp: set_worker_def nth_list_update)

lemma set_caller_joins:
  assumes "joins_ok s" "\<And>j. c = Joining j \<Longrightarrow> j \<le> length (pl_workers s) \<and> (\<forall>k<j. pl_workers s ! k = Finished)"
  shows "joins_ok (set_caller i c s)"
  using assms by (auto simp: joins_ok_def set_caller_def dest!: set_update_member)

lemma stop_section_joins: "joins_ok s \<Longrightarrow> joins_ok (stop_section s)"
  by (fastforce simp: joins_ok_def stop_section_def wake_cases)

lemma joins_ok_ran: "joins_ok (ran r task s) = joins_ok s" "joins_ok (run_push task s) = joins_ok s"
  by (simp_all add: joins_ok_def ran_def run_push_def)

lemma caller_step_joins:
  assumes "caller_step s s'" "joins_ok s"
  shows "joins_ok s'"
  using assms(1)
proof cases
  case (push_wake i task j)
  have "joins_ok (set_worker j Taking (run_push task s))"
    using assms(2) push_wake(5,6) by (fastforce simp: joins_ok_def set_worker_def run_push_def nth_list_update)
  then show ?thesis unfolding push_wake(1) by (rule set_caller_joins) simp
next
  case (join i j c)
  then have "Joining j \<in> set (pl_callers s)" by (metis nth_mem)
  with assms(2) join(5) have "c = Joining j' \<Longrightarrow> j' \<le> length (pl_workers s) \<and> (\<forall>k<j'. pl_workers s ! k = Finished)" for j'
    by (auto simp: joins_ok_def join_next_def less_Suc_eq split: if_splits)
  with assms(2) join(1) show ?thesis by (simp add: set_caller_joins)
next
  case (start k)
  then show ?thesis using assms(2) by (fastforce simp: pool_start_def joins_ok_def rbind_eq_Inr_conv split: if_splits)
qed (use assms(2) in \<open>auto simp: dtor_section_def run_look_def joins_ok_ran intro!: set_caller_joins stop_section_joins\<close>)

lemma pool_reaches_joins:
  assumes "pool_reaches exec name n s"
  shows "joins_ok s"
  using assms unfolding pool_reaches_def
proof (induction rule: rtranclp_induct)
  case base
  then show ?case by (auto simp: joins_ok_def new_ThreadPool_def)
next
  case (step s s')
  show ?case
  proof (cases "worker_step exec s s'")
    case True
    from worker_step_finished [OF this] step.IH show ?thesis by (auto simp: joins_ok_def)
  next
    case False
    with step show ?thesis by (auto simp: pool_step_def intro: caller_step_joins)
  qed
qed

lemma join_returns:
  assumes "pl_callers s ! i = Joining j" "i < length (pl_callers s)" "\<not> pl_aborted s" "j \<le> length (pl_workers s)"
    "set (pl_workers s) \<subseteq> {Finished}"
  shows "\<exists>s'. caller_step\<^sup>*\<^sup>* s s' \<and> pl_callers s' ! i = Idle"
  using assms
proof (induction "length (pl_workers s) - j" arbitrary: s j)
  case 0
  then have "caller_step s (set_caller i Idle s)" by (intro caller_step.join) (auto simp: join_next_def)
  then show ?case using 0 by (intro exI [of _ "set_caller i Idle s"]) (simp add: set_caller_def)
next
  case (Suc k)
  then have j: "j < length (pl_workers s)" by simp
  with Suc.prems(5) have "pl_workers s ! j = Finished" using nth_mem by blast
  with Suc.prems j have first: "caller_step s (set_caller i (Joining (j + 1)) s)"
    by (intro caller_step.join) (auto simp: join_next_def)
  have "\<exists>s'. caller_step\<^sup>*\<^sup>* (set_caller i (Joining (j + 1)) s) s' \<and> pl_callers s' ! i = Idle"
    using Suc.prems Suc.hyps(2) j by (intro Suc.hyps(1)) (auto simp: set_caller_def)
  with first show ?case by (blast intro: converse_rtranclp_into_rtranclp)
qed

section \<open>Properties\<close>

text \<open>
  C33. \<open>ThreadPool::run\<close> never hands a task to a worker. Whatever the callers and workers of a pool do, in any
  interleaving, with wake-ups for no reason and tasks that throw: the queue is empty, so that the next \<open>run\<close>
  calls its task itself; no caller is about to queue one, no worker has a task, every task that ran did so on
  the thread of its caller, and the pool never aborts the process.
\<close>

theorem pool_runs_inline:
  assumes "pool_reaches exec name n s"
  shows "pl_queue s = [] \<and> (\<forall>task. run_look task s = Calling task) \<and>
    (\<forall>task. Pushing task \<notin> set (pl_callers s)) \<and> (\<forall>task. Working (Some task) \<notin> set (pl_workers s)) \<and>
    (\<forall>(r, task)\<in>set (pl_ran s). \<exists>i<n. r = Caller i) \<and> \<not> pl_aborted s"
  using pool_reaches_inv [OF assms] by (auto simp: pool_inv_def run_look_def)

theorem pool_runs_inline_witness:
  "\<exists>s. pool_reaches (\<lambda>_. Some StdException) ''pool'' 1 s \<and> pl_ran s = [(Caller 0, 7 :: nat)] \<and>
     pl_names s = [''pool0'', ''pool1''] \<and> pl_queue s = []"
proof -
  let ?exec = "\<lambda>_ :: nat. Some StdException"
  let ?s0 = "new_ThreadPool ''pool'' 1 :: nat pool"
  let ?s1 = "?s0\<lparr>pl_running := True, pl_names := [''pool0'', ''pool1''], pl_workers := [Checking, Checking]\<rparr>"
  let ?s2 = "?s1\<lparr>pl_callers := [Calling 7]\<rparr>"
  let ?s3 = "?s2\<lparr>pl_callers := [Idle], pl_ran := [(Caller 0, 7)]\<rparr>"
  have "map (\<lambda>i. ''pool'' @ show_nat i) [0..<2] = [''pool0'', ''pool1'']" by code_simp
  then have "caller_step ?s0 ?s1"
    by (intro caller_step.start [where numThreads = 2]) (simp_all add: new_ThreadPool_def pool_start_def numeral_2_eq_2)
  moreover have "caller_step ?s1 ?s2"
    using caller_step.run [of ?s1 0 7] by (simp add: new_ThreadPool_def set_caller_def run_look_def)
  moreover have "caller_step ?s2 ?s3"
    using caller_step.inline [of ?s2 0 7] by (simp add: new_ThreadPool_def set_caller_def ran_def)
  ultimately have "caller_step\<^sup>*\<^sup>* ?s0 ?s3" by (meson converse_rtranclp_into_rtranclp rtranclp.rtrancl_refl)
  then have "pool_reaches ?exec ''pool'' 1 ?s3" by (rule callers_reach)
  with pool_runs_inline [OF this] show ?thesis by (intro exI [of _ ?s3]) simp
qed



end
