(* ===== verification/HttpWellformed.thy ===== *)
theory HttpWellformed
  imports HttpServer "HOL-Library.Sublist"
begin

text \<open>
  The type invariant of an HTTP context: whatever bytes come, what the parser has put into the request is
  well-formed, so that the user's callback only sees such requests.
\<close>

definition one_line :: "string \<Rightarrow> bool" where
  "one_line x \<longleftrightarrow> \<not> sublist kCRLF x"

definition header_wf :: "string \<times> string \<Rightarrow> bool" where
  "header_wf h \<longleftrightarrow> CHR '':'' \<notin> set (fst h) \<and> one_line (fst h) \<and> one_line (snd h) \<and> trimmed (snd h)"

definition request_wf :: "HttpRequest \<Rightarrow> bool" where
  "request_wf r \<longleftrightarrow> std_map (rq_headers r) \<and> (\<forall>h\<in>set (rq_headers r). header_wf h) \<and>
     CHR '' '' \<notin> set (rq_path r) \<and> one_line (rq_path r)"

definition context_wf :: "HttpContext \<Rightarrow> bool" where
  "context_wf c \<longleftrightarrow> request_wf (hc_request c) \<and> hc_state c \<noteq> kExpectBody \<and>
     (hc_state c \<noteq> kExpectRequestLine \<longrightarrow>
        rq_method (hc_request c) \<noteq> kInvalid \<and> rq_version (hc_request c) \<noteq> kUnknow)"

section \<open>Lines\<close>

lemma one_line_part: "one_line x \<Longrightarrow> sublist y x \<Longrightarrow> one_line y"
  unfolding one_line_def using sublist_order.order_trans by blast

lemma one_line_parts:
  assumes "one_line x"
  shows "one_line (take n x)" "one_line (drop n x)" "one_line (dropWhile P x)"
  by (rule one_line_part [OF assms]; simp add: sublist_take sublist_drop sublist_dropWhile)+

lemma first_line_one_line: "one_line (first_line xs)"
proof -
  let ?n = "std_search kCRLF xs"
  have False if sub: "sublist kCRLF (take ?n xs)"
  proof -
    from sub obtain ps ss where split: "take ?n xs = ps @ kCRLF @ ss" unfolding sublist_def by blast
    then have "xs = ps @ kCRLF @ ss @ drop ?n xs" by (metis append_take_drop_id append.assoc)
    then have "take (length kCRLF) (drop (length ps) xs) = kCRLF" by (metis append_eq_conv_conj)
    moreover have "length (ps @ kCRLF @ ss) \<le> ?n" using split by (metis length_take min.cobounded2)
    then have "length ps < ?n" by (simp add: kCRLF_def)
    ultimately show False using std_search_first by blast
  qed
  then show ?thesis by (auto simp: one_line_def first_line_def)
qed

lemma trim_right_take: "\<exists>n. trim_right v = take n v"
proof (induction v rule: trim_right.induct)
  case (1 v)
  show ?case
  proof (cases "v \<noteq> [] \<and> isspace (v ! (length v - 1))")
    case True
    with 1 obtain n where "trim_right (take (length v - 1) v) = take n (take (length v - 1) v)" by blast
    with True show ?thesis by (subst trim_right.simps) (auto simp: take_take)
  next
    case False
    then show ?thesis by (subst trim_right.simps) (auto intro: exI [of _ "length v"])
  qed
qed

lemma trim_right_trimmed: "v = [] \<or> \<not> isspace (hd v) \<Longrightarrow> trimmed (trim_right v)"
proof (induction v rule: trim_right.induct)
  case (1 v)
  show ?case
  proof (cases "v \<noteq> [] \<and> isspace (v ! (length v - 1))")
    case True
    then have "take (length v - 1) v = [] \<or> \<not> isspace (hd (take (length v - 1) v))"
      using "1.prems" by (cases "length v - 1 = 0") auto
    with 1 True show ?thesis by (subst trim_right.simps) auto
  next
    case False
    with "1.prems" show ?thesis by (subst trim_right.simps) (auto simp: trimmed_def last_conv_nth)
  qed
qed

section \<open>The parser keeps it\<close>

lemma addHeader_wf:
  assumes "request_wf r" "one_line line"
  shows "request_wf (rq_addHeader line (std_find (CHR '':'') line) r)"
proof -
  let ?colon = "std_find (CHR '':'') line"
  let ?val = "dropWhile isspace (drop (?colon + 1) line)"
  have "?val = [] \<or> \<not> isspace (hd ?val)" using hd_dropWhile [of isspace "drop (?colon + 1) line"] by blast
  then have "trimmed (trim_right ?val)" by (rule trim_right_trimmed)
  moreover obtain n where n: "trim_right ?val = take n ?val" using trim_right_take by blast
  have "one_line (trim_right ?val)" unfolding n by (rule one_line_parts(1) [OF one_line_parts(3) [OF one_line_parts(2) [OF assms(2)]]])
  ultimately have "header_wf (take ?colon line, trim_right ?val)"
    using \<open>one_line (trim_right ?val)\<close> one_line_parts(1) [OF assms(2)] std_find_take by (simp add: header_wf_def)
  with assms(1) map_insert_member show ?thesis
    by (fastforce simp: rq_addHeader_def request_wf_def)
qed

lemma setMethod_shape:
  assumes "setMethod x r = Inr (known, r1)"
  shows "\<exists>m. r1 = r\<lparr>rq_method := m\<rparr> \<and> known = (m \<noteq> kInvalid)"
proof -
  define m where "m = (if x = ''GET'' then kGet else if x = ''POST'' then kPost else if x = ''HEAD'' then kHead
    else if x = ''PUT'' then kHead else if x = ''DELETE'' then kDelete else kInvalid)"
  have "setMethod x r = rbind (guard (rq_method r = kInvalid) ''method_ == kInvalid'')
      (\<lambda>_. Inr (m \<noteq> kInvalid, r\<lparr>rq_method := m\<rparr>))"
    by (simp add: setMethod_def m_def)
  with assms show ?thesis by (auto simp: rbind_eq_Inr_conv)
qed

lemma parse_version_shape:
  "\<exists>v. snd (parse_version x r) = r\<lparr>rq_version := v\<rparr> \<and> (fst (parse_version x r) \<longrightarrow> v \<noteq> kUnknow)"
proof -
  have "r = r\<lparr>rq_version := rq_version r\<rparr>" by simp
  then show ?thesis unfolding parse_version_def setVersion_def
    by (auto intro: exI [of _ "rq_version r"])
qed

lemma requestLine_wf:
  assumes "request_wf r" "one_line line" "processRequestLine line r = Inr (ok, r')"
  shows "request_wf r' \<and> (ok \<longrightarrow> rq_method r' \<noteq> kInvalid \<and> rq_version r' \<noteq> kUnknow)"
proof (cases "std_find (CHR '' '') line = length line")
  case True
  with assms show ?thesis by (simp add: processRequestLine_def)
next
  case False
  let ?rest = "drop (std_find (CHR '' '') line + 1) line"
  let ?space2 = "std_find (CHR '' '') ?rest"
  let ?path = "take ?space2 ?rest" and ?version = "parse_version (drop (?space2 + 1) ?rest)"
  from assms(3) False obtain known r1 where s: "setMethod (take (std_find (CHR '' '') line) line) r = Inr (known, r1)"
    "(ok, r') = (if \<not> known then (False, r1) else if ?space2 = length ?rest then (False, r1)
       else ?version (setPath ?path r1))"
    by (auto simp: processRequestLine_def rbind_eq_Inr_conv Let_def split: if_splits)
  from setMethod_shape [OF s(1)] obtain m where m: "r1 = r\<lparr>rq_method := m\<rparr>" "known = (m \<noteq> kInvalid)" by blast
  obtain v where v: "snd (?version (setPath ?path r1)) = (setPath ?path r1)\<lparr>rq_version := v\<rparr>"
    "fst (?version (setPath ?path r1)) \<longrightarrow> v \<noteq> kUnknow" using parse_version_shape by blast
  have path: "CHR '' '' \<notin> set ?path" "one_line ?path"
    by (rule std_find_take, rule one_line_parts(1) [OF one_line_parts(2) [OF assms(2)]])
  have "r' = r1 \<and> \<not> ok \<or> known \<and> r' = (setPath ?path r1)\<lparr>rq_version := v\<rparr> \<and> (ok \<longrightarrow> v \<noteq> kUnknow)"
    using s(2) v by (auto split: if_splits) (metis fst_conv snd_conv)+
  then show ?thesis
  proof (elim disjE conjE)
    assume "r' = r1" "\<not> ok"
    with assms(1) m show ?thesis by (simp add: request_wf_def)
  next
    assume "known" "r' = (setPath ?path r1)\<lparr>rq_version := v\<rparr>" "ok \<longrightarrow> v \<noteq> kUnknow"
    with assms(1) m path show ?thesis by (simp add: request_wf_def setPath_def)
  qed
qed

lemma line_wf:
  assumes "context_wf c" "one_line line" "line_spec t line c = Inr (ok, c')"
  shows "context_wf c'"
proof (cases "hc_state c = kExpectRequestLine")
  case True
  with assms(3) obtain r where r: "processRequestLine line (hc_request c) = Inr (ok, r)"
    "c' = (if ok then \<lparr>hc_state = kExpectHeaders, hc_request = setReceiveTime t r\<rparr> else c\<lparr>hc_request := r\<rparr>)"
    by (auto simp: line_spec_def rbind_eq_Inr_conv)
  have wf: "request_wf (hc_request c)" using assms(1) by (simp add: context_wf_def)
  note q = requestLine_wf [OF wf assms(2) r(1)]
  from q r(2) True show ?thesis by (auto simp: context_wf_def request_wf_def setReceiveTime_def)
next
  case False
  with assms(3) have c': "c' = (if CHR '':'' \<in> set line
      then c\<lparr>hc_request := rq_addHeader line (std_find (CHR '':'') line) (hc_request c)\<rparr> else c\<lparr>hc_state := kGotAll\<rparr>)"
    by (auto simp: line_spec_def)
  have "request_wf (rq_addHeader line (std_find (CHR '':'') line) (hc_request c))"
    using assms(1,2) addHeader_wf by (simp add: context_wf_def)
  with assms(1) False show ?thesis unfolding c' by (auto simp: context_wf_def rq_addHeader_def Let_def)
qed

lemma parse_spec_wf:
  "context_wf c \<Longrightarrow> parse_spec t xs c = Inr (ok, rest, c') \<Longrightarrow> context_wf c'"
proof (induction t xs c rule: parse_spec.induct)
  case (1 t xs c)
  show ?case
  proof (cases "awaiting c \<and> has_line xs")
    case False
    with "1.prems" show ?thesis by (auto simp: parse_spec.simps [of t xs])
  next
    case True
    with "1.prems"(2) obtain k c1 where k: "line_spec t (first_line xs) c = Inr (k, c1)"
      by (auto simp: parse_spec.simps [of t xs] elim: rbind_InrE)
    note wf = line_wf [OF "1.prems"(1) first_line_one_line k]
    show ?thesis
    proof (cases k)
      case k': True
      with "1.prems"(2) True k have "parse_spec t (after_line xs) c1 = Inr (ok, rest, c')"
        by (simp add: parse_spec.simps [of t xs])
      from "1.IH" [OF True k' wf this] show ?thesis .
    next
      case False
      with "1.prems"(2) True k wf show ?thesis by (auto simp: parse_spec.simps [of t xs])
    qed
  qed
qed

section \<open>Messages\<close>

text \<open>
  C37. The type of a context: whatever bytes a message brings, and however often, after every \<open>onMessage\<close> the request has
  each header once, in the order of the map, its name without a colon, its value without surrounding blanks,
  and no header or path spans lines; past the request line its method and version are known. The callback is only
  given such requests: replacing it on all others changes nothing.
\<close>

theorem context_welltyped:
  assumes "buffer_ok buf" "context_wf ctx" "awaiting ctx"
    and "\<And>req. request_wf req \<Longrightarrow> rq_method req \<noteq> kInvalid \<Longrightarrow> rq_version req \<noteq> kUnknow \<Longrightarrow> cb' req = cb req"
  shows "http_onMessage bad cb' t buf ctx = http_onMessage bad cb t buf ctx \<and>
    (\<forall>buf' ctx' cs. http_onMessage bad cb t buf ctx = Some (Inr (buf', ctx', cs)) \<longrightarrow> context_wf ctx')"
proof -
  from parseRequest_spec [OF assms(1,3), of t] consider
    (err) e where "parseRequest t buf ctx = Some (Inl e)"
    | (val) ok b c where "parseRequest t buf ctx = Some (Inr (ok, b, c))" "context_wf c"
    using parse_spec_wf [OF assms(2)] by (auto split: option.splits sum.splits)
  then show ?thesis
  proof cases
    case err
    then show ?thesis by (simp add: http_onMessage_def)
  next
    case val
    have "http_onRequest bad cb' (hc_request c) = http_onRequest bad cb (hc_request c)" if "gotAll c"
    proof -
      have "cb' (hc_request c) = cb (hc_request c)"
        using val(2) that by (intro assms(4)) (simp_all add: context_wf_def gotAll_def)
      then show ?thesis by (simp add: http_onRequest_def)
    qed
    moreover have "context_wf (hc_reset c)"
      by (simp add: context_wf_def request_wf_def hc_reset_def swap_request_def new_HttpRequest_def one_line_def kCRLF_def)
    ultimately show ?thesis using val
      by (auto simp: http_onMessage_def Let_def rbind_eq_Inr_conv split: if_splits)
  qed
qed

lemma new_context_wf: "context_wf new_HttpContext"
  by (simp add: context_wf_def request_wf_def new_HttpContext_def new_HttpRequest_def one_line_def kCRLF_def)

theorem context_welltyped_witness:
  "http_onMessage (\<lambda>_. []) (\<lambda>req. if rq_method req = kInvalid then undefined else defaultHttpCallback req) (Timestamp 1)
      (holding (''GET / HTTP/1.1'' @ kCRLF @ kCRLF)) new_HttpContext =
    http_onMessage (\<lambda>_. []) defaultHttpCallback (Timestamp 1)
      (holding (''GET / HTTP/1.1'' @ kCRLF @ kCRLF)) new_HttpContext"
proof -
  have "awaiting new_HttpContext" by (simp add: awaiting_def new_HttpContext_def)
  with context_welltyped [OF _ new_context_wf, of "holding (''GET / HTTP/1.1'' @ kCRLF @ kCRLF)"
      "\<lambda>req. if rq_method req = kInvalid then undefined else defaultHttpCallback req" defaultHttpCallback] show ?thesis
    by simp
qed

end
