(* ===== verification/LogPipeline.thy ===== *)
theory LogPipeline
  imports Logging LogFile
begin

text \<open>
  The logging facility as a whole: the \<open>LOG_\<close> macros of \<open>muduo/base/Logging.h\<close>, the level and the output
  functions of the process (\<open>setLogLevel\<close>, \<open>setOutput\<close>, \<open>setFlush\<close>), and the threads that log. A sink is what
  \<open>g_output\<close> and \<open>g_flush\<close> write to; the sinks of the code are standard output and a \<open>LogFile\<close>.
\<close>

section \<open>The macros\<close>

datatype log_macro =
  LOG_TRACE | LOG_DEBUG | LOG_INFO | LOG_WARN | LOG_ERROR | LOG_FATAL | LOG_SYSERR | LOG_SYSFATAL

definition macro_level :: "log_macro \<Rightarrow> LogLevel" where
  "macro_level m = (case m of
     LOG_TRACE \<Rightarrow> TRACE | LOG_DEBUG \<Rightarrow> DEBUG | LOG_INFO \<Rightarrow> INFO | LOG_WARN \<Rightarrow> WARN
   | LOG_ERROR \<Rightarrow> ERROR | LOG_FATAL \<Rightarrow> FATAL | LOG_SYSERR \<Rightarrow> ERROR | LOG_SYSFATAL \<Rightarrow> FATAL)"

text \<open>A statement: the thread it runs on, what stands in the source, and what the calls it makes find.\<close>

record 'c statement =
  st_thread :: nat
  st_macro :: log_macro
  st_func :: string
  st_file :: string
  st_line :: int
  st_items :: "log_item list"
  st_errno :: int
  st_now :: Timestamp
  st_garbage :: string \<comment> \<open>what the buffer of the new stream holds\<close>
  st_clock :: 'c \<comment> \<open>the clock readings of the output function\<close>

text \<open>The constructor the macro calls: \<open>errno\<close> is printed by the \<open>SYS\<close> macros, the function by the two lowest.\<close>

definition macro_errno :: "'c statement \<Rightarrow> int" where
  "macro_errno st = (if st_macro st \<in> {LOG_SYSERR, LOG_SYSFATAL} then st_errno st else 0)"

definition macro_func :: "'c statement \<Rightarrow> string option" where
  "macro_func st = (if st_macro st \<in> {LOG_TRACE, LOG_DEBUG} then Some (st_func st) else None)"

definition initLogLevel :: LogLevel where "initLogLevel = TRACE"

section \<open>The process\<close>

record 'o logging =
  g_logLevel :: LogLevel
  g_locals :: "nat \<Rightarrow> thread_locals"
  g_sink :: 'o
  g_aborted :: bool

record log_world =
  lw_gmtime :: "int \<Rightarrow> string"
  lw_strerror :: "int \<Rightarrow> string"
  lw_gettid :: "nat \<Rightarrow> int"

definition setLogLevel :: "LogLevel \<Rightarrow> 'o logging \<Rightarrow> 'o logging" where
  "setLogLevel level s = s\<lparr>g_logLevel := level\<rparr>"

text \<open>
  A log statement: the test of the macro, the logger on the stack of its thread, and its destructor, which
  hands the line to \<open>g_output\<close> and at \<open>FATAL\<close> flushes and aborts.
\<close>

definition log_call :: "('c \<Rightarrow> string \<Rightarrow> 'o \<Rightarrow> 'o result) \<Rightarrow> ('o \<Rightarrow> 'o result) \<Rightarrow> log_world \<Rightarrow> 'c statement \<Rightarrow>
    'o logging \<Rightarrow> 'o logging result" where
  "log_call put flush w st s =
     (if g_aborted s \<or> \<not> log_enabled (g_logLevel s) (macro_level (st_macro st)) then Inr s else
      rbind (log_statement (lw_gmtime w) (lw_strerror w) (lw_gettid w (st_thread st)) (st_now st) (st_garbage st)
          (macro_level (st_macro st)) (macro_errno st) (macro_func st) (st_file st) (st_line st) (st_items st)
          (g_locals s (st_thread st))) (\<lambda>(line, fatal, ls).
      rbind (put (st_clock st) line (g_sink s)) (\<lambda>sink.
      let s = s\<lparr>g_locals := (g_locals s)(st_thread st := ls), g_sink := sink\<rparr> in
      if fatal then rbind (flush sink) (\<lambda>sink. Inr (s\<lparr>g_sink := sink, g_aborted := True\<rparr>)) else Inr s)))"

text \<open>\<open>CheckNotNull\<close>: a \<open>FATAL\<close> statement, whatever the level, for a null pointer.\<close>

definition CheckNotNull :: "('c \<Rightarrow> string \<Rightarrow> 'o \<Rightarrow> 'o result) \<Rightarrow> ('o \<Rightarrow> 'o result) \<Rightarrow> log_world \<Rightarrow>
    string \<Rightarrow> 'p option \<Rightarrow> 'c statement \<Rightarrow> 'o logging \<Rightarrow> ('p option \<times> 'o logging) result" where
  "CheckNotNull put flush w names ptr st s =
     rbind (if ptr = None then log_call put flush w (st\<lparr>st_macro := LOG_FATAL, st_items := [LString names]\<rparr>) s else Inr s)
       (\<lambda>s. Inr (ptr, s))"

text \<open>The default output: \<open>fwrite\<close> to standard output, whose count is ignored.\<close>

record stdout =
  so_text :: string
  so_writes :: nat

definition defaultOutput :: "(nat \<Rightarrow> nat) \<Rightarrow> unit \<Rightarrow> string \<Rightarrow> stdout \<Rightarrow> stdout result" where
  "defaultOutput io c msg o1 = Inr (o1\<lparr>so_text := so_text o1 @ take (io (so_writes o1)) msg, so_writes := so_writes o1 + 1\<rparr>)"

definition defaultFlush :: "stdout \<Rightarrow> stdout result" where
  "defaultFlush o1 = Inr o1"

definition file_output :: "log_env \<Rightarrow> int \<times> int \<Rightarrow> string \<Rightarrow> LogFile \<Rightarrow> LogFile result" where
  "file_output env clock line = lf_append env (line, fst clock, snd clock)"

section \<open>The specification\<close>

definition statement_line :: "log_world \<Rightarrow> 'c statement \<Rightarrow> string" where
  "statement_line w st = line_text (lw_gmtime w) (lw_strerror w) (lw_gettid w (st_thread st)) (st_now st)
     (macro_level (st_macro st)) (macro_errno st) (macro_func st) (st_file st) (st_line st)
     (concat (map item_text (st_items st)))"

text \<open>The statements that print: those the level lets through, up to the first that aborts.\<close>

fun printing :: "LogLevel \<Rightarrow> 'c statement list \<Rightarrow> 'c statement list" where
  "printing level [] = []"
| "printing level (st # sts) =
     (if \<not> log_enabled level (macro_level (st_macro st)) then printing level sts
      else st # (if macro_level (st_macro st) = FATAL then [] else printing level sts))"

definition world_ok :: "log_world \<Rightarrow> bool" where
  "world_ok w \<longleftrightarrow> (\<forall>s>0. length (lw_gmtime w s) = 17) \<and> (\<forall>t. 0 < lw_gettid w t \<and> lw_gettid w t < 100000)"

definition statement_ok :: "log_world \<Rightarrow> 'c statement \<Rightarrow> bool" where
  "statement_ok w st \<longleftrightarrow> 1000000 \<le> microSecondsSinceEpoch (st_now st) \<and> length (st_garbage st) = kSmallBuffer \<and>
     (\<forall>item\<in>set (st_items st). item_ok item) \<and> \<bar>st_line st\<bar> < 2 ^ 31 \<and> \<bar>st_errno st\<bar> < 2 ^ 31 \<and>
     length (statement_line w st) + 33 \<le> kSmallBuffer"

definition locals_ok :: "log_world \<Rightarrow> 'o logging \<Rightarrow> bool" where
  "locals_ok w s \<longleftrightarrow> (\<forall>t. cache_ok (lw_gmtime w) (lw_gettid w t) (g_locals s t))"

lemma log_statement_prints:
  assumes "world_ok w" "statement_ok w st" "locals_ok w s"
  obtains ls where "log_statement (lw_gmtime w) (lw_strerror w) (lw_gettid w (st_thread st)) (st_now st) (st_garbage st)
      (macro_level (st_macro st)) (macro_errno st) (macro_func st) (st_file st) (st_line st) (st_items st)
      (g_locals s (st_thread st)) = Inr (statement_line w st, macro_level (st_macro st) = FATAL, ls)"
    "cache_ok (lw_gmtime w) (lw_gettid w (st_thread st)) ls"
proof -
  have "\<bar>macro_errno st\<bar> < 2 ^ 31" using assms(2) by (auto simp: statement_ok_def macro_errno_def)
  with assms show ?thesis
    using log_statement_full [of "lw_gmtime w" "lw_gettid w (st_thread st)" "g_locals s (st_thread st)" "st_now st"
        "st_garbage st" "st_items st" "st_line st" "macro_errno st" "lw_strerror w" "macro_level (st_macro st)"
        "macro_func st" "st_file st"] that
    unfolding statement_line_def [symmetric] by (auto simp: world_ok_def statement_ok_def locals_ok_def)
qed

section \<open>Sinks\<close>

text \<open>What the logger needs of its output functions.\<close>

locale log_sink =
  fixes sink_ok :: "'o \<Rightarrow> bool"
    and sink_text :: "'o \<Rightarrow> string"
    and put :: "'c \<Rightarrow> string \<Rightarrow> 'o \<Rightarrow> 'o result"
    and sink_flush :: "'o \<Rightarrow> 'o result"
  assumes output_appends: "sink_ok sink \<Longrightarrow> length line \<le> kSmallBuffer \<Longrightarrow>
      \<exists>sink'. put clock line sink = Inr sink' \<and> sink_ok sink' \<and> sink_text sink' = sink_text sink @ line"
    and flush_keeps: "sink_ok sink \<Longrightarrow> \<exists>sink'. sink_flush sink = Inr sink' \<and> sink_ok sink' \<and> sink_text sink' = sink_text sink"
begin

lemma log_call_ok:
  assumes w: "world_ok w" and st: "statement_ok w st"
    and s: "locals_ok w s" "sink_ok (g_sink s)" "\<not> g_aborted s"
  shows "\<exists>s'. log_call put sink_flush w st s = Inr s' \<and> locals_ok w s' \<and> sink_ok (g_sink s') \<and>
    g_logLevel s' = g_logLevel s \<and>
    (g_aborted s' \<longleftrightarrow> macro_level (st_macro st) = FATAL) \<and>
    sink_text (g_sink s') = sink_text (g_sink s) @
      (if log_enabled (g_logLevel s) (macro_level (st_macro st)) then statement_line w st else [])"
proof (cases "log_enabled (g_logLevel s) (macro_level (st_macro st))")
  case False
  then have "macro_level (st_macro st) \<noteq> FATAL" by (auto simp: log_enabled_def)
  with False s show ?thesis by (simp add: log_call_def)
next
  case True
  obtain ls where ls: "log_statement (lw_gmtime w) (lw_strerror w) (lw_gettid w (st_thread st)) (st_now st) (st_garbage st)
      (macro_level (st_macro st)) (macro_errno st) (macro_func st) (st_file st) (st_line st) (st_items st)
      (g_locals s (st_thread st)) = Inr (statement_line w st, macro_level (st_macro st) = FATAL, ls)"
    "cache_ok (lw_gmtime w) (lw_gettid w (st_thread st)) ls"
    using log_statement_prints [OF w st s(1)] .
  obtain sink where sink: "put (st_clock st) (statement_line w st) (g_sink s) = Inr sink" "sink_ok sink"
    "sink_text sink = sink_text (g_sink s) @ statement_line w st" using output_appends [OF s(2), of "statement_line w st"] st by (auto simp: statement_ok_def)
  obtain sink' where "sink_flush sink = Inr sink'" "sink_ok sink'" "sink_text sink' = sink_text sink"
    using flush_keeps [OF sink(2)] by blast
  with True s ls sink show ?thesis by (auto simp: log_call_def locals_ok_def Let_def)
qed

lemma log_call_aborted: "g_aborted s \<Longrightarrow> rfold (log_call put sink_flush w) sts s = Inr s"
  by (induction sts) (simp_all add: log_call_def)

text \<open>Whatever the threads log, the sink gets exactly the lines of the printing statements, whole and in order.\<close>

lemma log_calls_ok:
  assumes "world_ok w" "\<forall>st\<in>set sts. statement_ok w st"
    and "locals_ok w s" "sink_ok (g_sink s)" "\<not> g_aborted s"
  shows "\<exists>s'. rfold (log_call put sink_flush w) sts s = Inr s' \<and> sink_ok (g_sink s') \<and>
    sink_text (g_sink s') = sink_text (g_sink s) @ concat (map (statement_line w) (printing (g_logLevel s) sts)) \<and>
    (g_aborted s' \<longleftrightarrow> (\<exists>st\<in>set sts. macro_level (st_macro st) = FATAL))"
  using assms(2-5)
proof (induction sts arbitrary: s)
  case (Cons st sts)
  from log_call_ok [OF assms(1), of st s] Cons.prems obtain s1 where s1:
    "log_call put sink_flush w st s = Inr s1" "locals_ok w s1" "sink_ok (g_sink s1)" "g_logLevel s1 = g_logLevel s"
    "g_aborted s1 \<longleftrightarrow> macro_level (st_macro st) = FATAL"
    "sink_text (g_sink s1) = sink_text (g_sink s) @
      (if log_enabled (g_logLevel s) (macro_level (st_macro st)) then statement_line w st else [])"
    by auto
  show ?case
  proof (cases "macro_level (st_macro st) = FATAL")
    case True
    then have "log_enabled (g_logLevel s) (macro_level (st_macro st))" by (simp add: log_enabled_def)
    with True s1 log_call_aborted [of s1 w sts] show ?thesis by simp
  next
    case False
    with Cons.IH [of s1] Cons.prems(1) s1 show ?thesis by auto
  qed
qed simp

end

definition file_sink_ok :: "log_env \<Rightarrow> LogFile \<Rightarrow> bool" where
  "file_sink_ok env lf \<longleftrightarrow> lf_ok env lf \<and> (\<forall>n. env_fopen env n) \<and> (\<forall>k. 0 < env_fwrite env k)"

interpretation to_file: log_sink "file_sink_ok env" lf_text "file_output env" lf_flush
  for env :: log_env
proof unfold_locales
  fix lf clock line
  assume ok: "file_sink_ok env lf"
  with lf_append_ok [of env lf line "fst clock" "snd clock"]
  show "\<exists>lf'. file_output env clock line lf = Inr lf' \<and> file_sink_ok env lf' \<and> lf_text lf' = lf_text lf @ line"
    by (auto simp: file_sink_ok_def file_output_def)
  show "\<exists>lf'. lf_flush lf = Inr lf' \<and> file_sink_ok env lf' \<and> lf_text lf' = lf_text lf"
    using ok by (auto simp: file_sink_ok_def lf_ok_def lf_flush_def lf_text_def all_files_def)
qed

text \<open>Standard output is such a sink only if every \<open>fwrite\<close> takes all it is given.\<close>

interpretation to_stdout: log_sink "\<lambda>_. \<forall>k. kSmallBuffer \<le> io k" so_text "defaultOutput io" defaultFlush
  for io :: "nat \<Rightarrow> nat"
  by unfold_locales (auto simp: defaultOutput_def defaultFlush_def intro: order_trans)

section \<open>Properties\<close>


definition example_world :: log_world where
  "example_world = \<lparr>lw_gmtime = \<lambda>_. replicate 17 (CHR ''0''), lw_strerror = \<lambda>_. ''e'', lw_gettid = \<lambda>t. 100\<rparr>"

definition example_statement :: "nat \<Rightarrow> log_macro \<Rightarrow> (int \<times> int) statement" where
  "example_statement thread m = \<lparr>st_thread = thread, st_macro = m, st_func = ''f'', st_file = ''a/b.cc'', st_line = 7,
     st_items = [LString ''x''], st_errno = 2, st_now = Timestamp 1000003, st_garbage = replicate 4000 (CHR 0x00),
     st_clock = (200, 200)\<rparr>"

lemma example_statement_ok: "statement_ok example_world (example_statement thread m)"
proof -
  have "length (statement_line example_world (example_statement thread m)) + 33 \<le> 4000"
    using line_text_bound [of "lw_gmtime example_world" "Timestamp 1000003" 100 7
        "macro_errno (example_statement thread m)" "lw_strerror example_world" "macro_level m"
        "macro_func (example_statement thread m)" "''a/b.cc''" "''x''"]
    by (auto simp: statement_line_def example_statement_def example_world_def macro_errno_def macro_func_def split: if_splits)
  then show ?thesis
    by (simp add: statement_ok_def) (simp add: example_statement_def kSmallBuffer_def)
qed


end
