(* ===== verification/Exception.thy ===== *)
theory Exception
  imports Prelude
begin

text \<open>
  \<open>muduo/base/Exception.h\<close> and \<open>Exception.cc\<close>: a message with the stack at the point where it was made. What
  \<open>backtrace_symbols\<close> returns (\<open>None\<close> for NULL) and \<open>abi::__cxa_demangle\<close> are parameters; the formats of
  \<open>sscanf\<close> are written out.
\<close>

section \<open>\<open>sscanf\<close>\<close>

text \<open>\<open>%[..]\<close> takes a non-empty run of characters, at most \<open>w\<close> of them; what follows it is left for the next one.\<close>

definition scan_set :: "nat \<Rightarrow> (char \<Rightarrow> bool) \<Rightarrow> string \<Rightarrow> (string \<times> string) option" where
  "scan_set w p input =
     (let field = take w (takeWhile p input)
      in if field = [] then None else Some (field, drop (length field) input))"

text \<open>\<open>"%*[^(]%*[^_]%127[^)+]"\<close>: the fields with a star are skipped.\<close>

definition scan_mangled :: "string \<Rightarrow> string option" where
  "scan_mangled symbol =
     Option.bind (scan_set (length symbol) (\<lambda>c. c \<noteq> CHR ''('') symbol) (\<lambda>(_, rest).
     Option.bind (scan_set (length rest) (\<lambda>c. c \<noteq> CHR ''_'') rest) (\<lambda>(_, rest).
     map_option fst (scan_set 127 (\<lambda>c. c \<noteq> CHR '')'' \<and> c \<noteq> CHR ''+'') rest)))"

text \<open>\<open>"%127s"\<close>: blanks are skipped first.\<close>

definition scan_word :: "string \<Rightarrow> string option" where
  "scan_word symbol = map_option fst (scan_set 127 (\<lambda>c. \<not> isspace c) (dropWhile isspace symbol))"

section \<open>The exception\<close>

record Exception =
  ex_message :: string
  ex_stack :: string

definition demangle :: "(string \<Rightarrow> string option) \<Rightarrow> string \<Rightarrow> string" where
  "demangle cxa_demangle symbol =
     (case Option.bind (scan_mangled symbol) cxa_demangle of
        Some demangles \<Rightarrow> demangles
      | None \<Rightarrow> (case scan_word symbol of Some tem \<Rightarrow> tem | None \<Rightarrow> symbol))"

fun fill_loop :: "(string \<Rightarrow> string option) \<Rightarrow> string list \<Rightarrow> string \<Rightarrow> string" where
  "fill_loop cxa_demangle [] stack = stack"
| "fill_loop cxa_demangle (symbol # strings) stack =
     fill_loop cxa_demangle strings (stack @ demangle cxa_demangle symbol @ [char_of (10 :: nat)])"

definition fillStackTrace :: "(string \<Rightarrow> string option) \<Rightarrow> string list option \<Rightarrow> Exception \<Rightarrow> Exception" where
  "fillStackTrace cxa_demangle strings ex =
     (case strings of None \<Rightarrow> ex
      | Some strings \<Rightarrow> ex\<lparr>ex_stack := fill_loop cxa_demangle (take 200 strings) (ex_stack ex)\<rparr>)"

definition new_Exception :: "(string \<Rightarrow> string option) \<Rightarrow> string list option \<Rightarrow> string \<Rightarrow> Exception" where
  "new_Exception cxa_demangle strings msg = fillStackTrace cxa_demangle strings \<lparr>ex_message = msg, ex_stack = []\<rparr>"

text \<open>\<open>what\<close> and \<open>stackTrace\<close> return C strings, which end at the first NUL.\<close>

definition what :: "Exception \<Rightarrow> string" where
  "what ex = takeWhile (\<lambda>c. of_char c \<noteq> (0 :: nat)) (ex_message ex)"

definition stackTrace :: "Exception \<Rightarrow> string" where
  "stackTrace ex = takeWhile (\<lambda>c. of_char c \<noteq> (0 :: nat)) (ex_stack ex)"

section \<open>The lines of a backtrace\<close>

lemma scan_set_run:
  assumes "\<forall>c\<in>set field. p c" "field \<noteq> []" "length field \<le> w" "rest = [] \<or> \<not> p (hd rest)"
  shows "scan_set w p (field @ rest) = Some (field, rest)"
proof -
  have "takeWhile p (field @ rest) = field"
    using assms(1,4) by (cases rest) (auto simp: takeWhile_append)
  with assms(2,3) show ?thesis by (simp add: scan_set_def)
qed

text \<open>
  A line \<open>file(_name+offset) [address]\<close> of \<open>backtrace_symbols\<close>: the mangled name is found, whatever the file is
  called, as long as it holds no parenthesis and the name has at most 127 characters.
\<close>

lemma scan_mangled_line:
  assumes "module_file \<noteq> []" "CHR ''('' \<notin> set module_file" "hd name = CHR ''_''" "name \<noteq> []"
    and "CHR '')'' \<notin> set name" "CHR ''+'' \<notin> set name" "length name \<le> 127"
  shows "scan_mangled (module_file @ ''('' @ name @ ''+'' @ rest) = Some name"
proof -
  let ?line = "module_file @ ''('' @ name @ ''+'' @ rest"
  have 1: "scan_set (length ?line) (\<lambda>c. c \<noteq> CHR ''('') ?line = Some (module_file, ''('' @ name @ ''+'' @ rest)"
    using assms(1,2) by (intro scan_set_run) auto
  have 2: "scan_set (length (''('' @ name @ ''+'' @ rest)) (\<lambda>c. c \<noteq> CHR ''_'') (''('' @ name @ ''+'' @ rest) =
      Some (''('', name @ ''+'' @ rest)"
    using assms(3,4) by (intro scan_set_run) auto
  have 3: "scan_set 127 (\<lambda>c. c \<noteq> CHR '')'' \<and> c \<noteq> CHR ''+'') (name @ ''+'' @ rest) = Some (name, ''+'' @ rest)"
    using assms(4-7) by (intro scan_set_run) auto
  show ?thesis unfolding scan_mangled_def 1 by (simp add: 2 [simplified] 3 [simplified])
qed

text \<open>The name of a C function has no underscore in front: what is looked up then is what follows its first one.\<close>

lemma scan_mangled_c_name: "scan_mangled ''./a.out(read_all+0x1c) [0x400a3f]'' = Some ''_all''"
  by code_simp

lemma scan_mangled_main: "scan_mangled ''./a.out(main+0x1c) [0x400a3f]'' = None"
  by code_simp

lemma fill_loop_lines:
  "fill_loop cxa_demangle strings stack =
    stack @ concat (map (\<lambda>symbol. demangle cxa_demangle symbol @ [char_of (10 :: nat)]) strings)"
  by (induction strings arbitrary: stack) simp_all

text \<open>
  The stack trace has one line for each frame, in order: for a C++ function its demangled name, for any other
  line of the backtrace (if it does not start with a blank) what stands in front of the first blank.
\<close>

lemma exception_trace:
  assumes "length lines \<le> 200"
    and "\<And>l. l \<in> set lines \<Longrightarrow> \<exists>module_file name rest. l = module_file @ ''('' @ name @ ''+'' @ rest \<and>
      module_file \<noteq> [] \<and> CHR ''('' \<notin> set module_file \<and> name \<noteq> [] \<and> hd name = CHR ''_'' \<and>
      CHR '')'' \<notin> set name \<and> CHR ''+'' \<notin> set name \<and> length name \<le> 127 \<and> cxa_demangle name = Some (pretty l)"
  shows "ex_stack (new_Exception cxa_demangle (Some lines) msg) = concat (map (\<lambda>l. pretty l @ [char_of (10 :: nat)]) lines)"
    and "ex_message (new_Exception cxa_demangle (Some lines) msg) = msg"
proof -
  have "demangle cxa_demangle l = pretty l" if "l \<in> set lines" for l
    using assms(2) [OF that] scan_mangled_line by (fastforce simp: demangle_def)
  with assms(1) show "ex_stack (new_Exception cxa_demangle (Some lines) msg) = concat (map (\<lambda>l. pretty l @ [char_of (10 :: nat)]) lines)"
    and "ex_message (new_Exception cxa_demangle (Some lines) msg) = msg"
    by (simp_all add: new_Exception_def fillStackTrace_def fill_loop_lines cong: map_cong)
qed

end
