(* ===== verification/LoopThread.thy ===== *)
theory LoopThread
  imports EventLoop EventLoopThread
begin

text \<open>
  \<open>muduo/net/EventLoopThread.cc\<close>: the life of an \<open>EventLoopThread\<close> and of the thread it starts, as the owner sees
  it. The loop is a local variable of \<open>threadFunc\<close>: \<open>loop_\<close> points to it from \<open>startLoop\<close> on, and dangles once
  \<open>threadFunc\<close> has returned. What the initial callback does to the loop is the parameter \<open>init\<close>; the thread runs
  with the id \<open>tid\<close>, its owner with another one. The monitor sections of \<open>startLoop\<close> are in \<open>EventLoopThread\<close>.
\<close>

section \<open>The object and its thread\<close>

datatype 'f thread_place =
    Unborn
  | Constructing
  | Publishing "'f EventLoop" \<comment> \<open>the loop is made and initialised, \<open>loop_\<close> not yet set\<close>
  | Looping "'f run_state"
  | Returned

record 'f EventLoopThread =
  lt_loop :: bool \<comment> \<open>\<open>loop_ != NULL\<close>\<close>
  lt_exiting :: bool
  lt_started :: bool
  lt_place :: "'f thread_place"

definition new_EventLoopThread :: "'f EventLoopThread" where
  "new_EventLoopThread = \<lparr>lt_loop = False, lt_exiting = False, lt_started = False, lt_place = Unborn\<rparr>"

text \<open>\<open>startLoop\<close> up to its wait, which ends when \<open>loop_\<close> is set.\<close>

definition startLoop_begin :: "'f EventLoopThread \<Rightarrow> 'f EventLoopThread result" where
  "startLoop_begin s =
     rbind (guard (\<not> lt_started s) ''!thread_.started()'') (\<lambda>_.
     Inr (s\<lparr>lt_started := True, lt_place := Constructing\<rparr>))"

definition startLoop_returns :: "'f EventLoopThread \<Rightarrow> bool" where
  "startLoop_returns s = lt_loop s"

text \<open>\<open>threadFunc\<close>: the local loop with the callback, its publication, and the call of \<open>loop()\<close>.\<close>

definition threadFunc_construct ::
  "('f EventLoop \<Rightarrow> 'f EventLoop result) \<Rightarrow> 'f EventLoop result \<Rightarrow> 'f EventLoopThread \<Rightarrow> 'f EventLoopThread result" where
  "threadFunc_construct init l s = rbind l (\<lambda>l. rbind (init l) (\<lambda>l. Inr (s\<lparr>lt_place := Publishing l\<rparr>)))"

definition threadFunc_publish :: "'f EventLoop \<Rightarrow> 'f EventLoopThread \<Rightarrow> 'f EventLoopThread" where
  "threadFunc_publish l s = s\<lparr>lt_loop := True, lt_place := Looping
     \<lparr>rs_loop = l\<lparr>el_looping := True\<rparr>, rs_phase = Starting, rs_waking = 0, rs_posted = el_pendingFunctors l, rs_executed = []\<rparr>\<rparr>"

text \<open>The destructor up to the join, called by the thread \<open>me\<close>: nothing tells it whether there is a loop to quit.\<close>

definition EventLoopThread_dtor :: "int \<Rightarrow> 'f EventLoopThread \<Rightarrow> 'f EventLoopThread result" where
  "EventLoopThread_dtor me s =
     (let s = s\<lparr>lt_exiting := True\<rparr> in
      if \<not> lt_loop s then Inl (Undefined ''loop_ is NULL'') else
      case lt_place s of
        Looping r \<Rightarrow> Inr (s\<lparr>lt_place := Looping (r\<lparr>rs_loop := quit me (rs_loop r)\<rparr>)\<rparr>)
      | _ \<Rightarrow> Inl (Undefined ''loop_ points to a loop that is gone''))"

definition join_returns :: "'f EventLoopThread \<Rightarrow> bool" where
  "join_returns s \<longleftrightarrow> lt_place s = Returned"

text \<open>A step of the thread, or of another one that uses its loop.\<close>

inductive thread_step :: "int \<Rightarrow> ('f \<Rightarrow> 'f list) \<Rightarrow> ('f EventLoop \<Rightarrow> 'f EventLoop result) \<Rightarrow>
    'f EventLoopThread \<Rightarrow> 'f EventLoopThread \<Rightarrow> bool" for tid spawn init where
  construct: "lt_place s = Constructing \<Longrightarrow>
    threadFunc_construct init (new_EventLoop garbage self tid None timer wake) s = Inr s' \<Longrightarrow> thread_step tid spawn init s s'"
| publish: "lt_place s = Publishing l \<Longrightarrow> thread_step tid spawn init s (threadFunc_publish l s)"
| loops: "lt_place s = Looping r \<Longrightarrow> loop_step tid spawn r r' \<Longrightarrow>
    thread_step tid spawn init s (s\<lparr>lt_place := Looping r'\<rparr>)"
| returns: "lt_place s = Looping r \<Longrightarrow> rs_phase r = Stopped \<Longrightarrow>
    thread_step tid spawn init s (s\<lparr>lt_place := Returned\<rparr>)"

section \<open>The invariant\<close>

text \<open>What the callback may do: anything that leaves the loop on its thread, without functors and running.\<close>

definition init_ok :: "int \<Rightarrow> ('f EventLoop \<Rightarrow> 'f EventLoop result) \<Rightarrow> bool" where
  "init_ok tid init \<longleftrightarrow> (\<forall>l l'. el_threadId l = tid \<and> el_pendingFunctors l = [] \<and> \<not> el_quit l \<and> init l = Inr l' \<longrightarrow>
     el_threadId l' = tid \<and> el_pendingFunctors l' = [] \<and> \<not> el_quit l')"

definition thread_inv :: "int \<Rightarrow> 'f EventLoopThread \<Rightarrow> bool" where
  "thread_inv tid s \<longleftrightarrow> (case lt_place s of
     Unborn \<Rightarrow> \<not> lt_loop s \<and> \<not> lt_started s
   | Constructing \<Rightarrow> \<not> lt_loop s \<and> lt_started s
   | Publishing l \<Rightarrow> \<not> lt_loop s \<and> lt_started s \<and> el_threadId l = tid \<and> el_pendingFunctors l = [] \<and> \<not> el_quit l
   | Looping r \<Rightarrow> lt_loop s \<and> lt_started s \<and> run_inv tid r
   | Returned \<Rightarrow> lt_loop s \<and> lt_started s)"

lemma enableReading_frame:
  assumes "enableReading tid a s = Inr s'"
  shows "el_threadId s' = el_threadId s \<and> el_pendingFunctors s' = el_pendingFunctors s \<and> el_quit s' = el_quit s"
  using assms
  by (auto simp: enableReading_def update_events_def loop_updateChannel_def modify_def updateChannel_def deref_def
      set_index_def Let_def rbind_eq_Inr_conv split: option.splits if_splits)

lemma new_EventLoop_idle:
  assumes "new_EventLoop garbage self tid e timer wake = Inr l"
  shows "el_threadId l = tid \<and> el_pendingFunctors l = [] \<and> \<not> el_quit l"
  using assms
  by (simp add: new_EventLoop_def Let_def rbind_eq_Inr_conv split: if_splits)
    (elim conjE disjE, simp, drule enableReading_frame, drule enableReading_frame, simp)

lemma thread_step_inv:
  assumes "thread_step tid spawn init s s'" "thread_inv tid s" "init_ok tid init"
  shows "thread_inv tid s'"
  using assms(1)
proof cases
  case (construct garbage self timer wake)
  from construct(2) obtain l l' where l: "new_EventLoop garbage self tid None timer wake = Inr l"
    and l': "init l = Inr l'" "s' = s\<lparr>lt_place := Publishing l'\<rparr>"
    unfolding threadFunc_construct_def by (elim rbind_InrE) simp
  have "el_threadId l' = tid \<and> el_pendingFunctors l' = [] \<and> \<not> el_quit l'"
    using assms(3) new_EventLoop_idle [OF l] l'(1) unfolding init_ok_def by blast
  moreover have "\<not> lt_loop s \<and> lt_started s" using assms(2) construct(1) by (simp add: thread_inv_def)
  ultimately show ?thesis by (simp add: l'(2) thread_inv_def)
next
  case (publish l)
  with assms(2) show ?thesis by (simp add: thread_inv_def threadFunc_publish_def run_inv_def batch_def)
next
  case (loops r r')
  with assms(2) run_inv_step [OF loops(3)] show ?thesis by (simp add: thread_inv_def)
next
  case (returns r)
  with assms(2) show ?thesis by (simp add: thread_inv_def)
qed

definition owner_reaches :: "int \<Rightarrow> ('f \<Rightarrow> 'f list) \<Rightarrow> ('f EventLoop \<Rightarrow> 'f EventLoop result) \<Rightarrow> 'f EventLoopThread \<Rightarrow> bool" where
  \<comment> \<open>what the owner may find after \<open>startLoop\<close>\<close>
  "owner_reaches tid spawn init s \<longleftrightarrow> (\<exists>s0. startLoop_begin new_EventLoopThread = Inr s0 \<and>
     (thread_step tid spawn init)\<^sup>*\<^sup>* s0 s \<and> startLoop_returns s)"

lemma owner_inv:
  assumes "owner_reaches tid spawn init s" "init_ok tid init"
  shows "thread_inv tid s \<and> lt_loop s"
proof -
  obtain s0 where s0: "startLoop_begin new_EventLoopThread = Inr s0" "(thread_step tid spawn init)\<^sup>*\<^sup>* s0 s" "lt_loop s"
    using assms(1) by (auto simp: owner_reaches_def startLoop_returns_def)
  have "thread_inv tid s0"
    using s0(1) by (auto simp: startLoop_begin_def new_EventLoopThread_def thread_inv_def)
  with s0(2) have "thread_inv tid s"
    by (induction rule: rtranclp_induct) (blast intro: thread_step_inv [OF _ _ assms(2)])+
  with s0(3) show ?thesis by simp
qed

section \<open>After the destructor has asked the loop to quit\<close>

definition quitting :: "int \<Rightarrow> 'f EventLoopThread \<Rightarrow> bool" where
  "quitting tid s \<longleftrightarrow> lt_place s = Returned \<or>
     (\<exists>r. lt_place s = Looping r \<and> run_inv tid r \<and> el_quit (rs_loop r))"

lemma quitting_step:
  assumes "thread_step tid spawn init s s'" "quitting tid s"
  shows "quitting tid s'"
  using assms(1)
proof cases
  case (loops r r')
  with assms(2) run_inv_step [OF loops(3)] quit_step [OF loops(3)] show ?thesis by (auto simp: quitting_def)
qed (use assms(2) in \<open>auto simp: quitting_def\<close>)

lemma loop_steps_lift:
  assumes "(loop_step tid spawn)\<^sup>*\<^sup>* r r'"
  shows "lt_place s = Looping r \<Longrightarrow> (thread_step tid spawn init)\<^sup>*\<^sup>* s (s\<lparr>lt_place := Looping r'\<rparr>)"
  using assms
proof (induction rule: rtranclp_induct)
  case base
  then have "s\<lparr>lt_place := Looping r\<rparr> = s" by simp
  then show ?case by simp
next
  case (step r1 r2)
  have "thread_step tid spawn init (s\<lparr>lt_place := Looping r1\<rparr>) (s\<lparr>lt_place := Looping r2\<rparr>)"
    using thread_step.loops [of "s\<lparr>lt_place := Looping r1\<rparr>" r1 tid spawn r2] step(2) by simp
  with step show ?case by (meson rtranclp.rtrancl_into_rtrancl)
qed

lemma quitting_returns:
  assumes "quitting tid s"
  shows "\<exists>s'. (thread_step tid spawn init)\<^sup>*\<^sup>* s s' \<and> join_returns s'"
proof (cases "lt_place s = Returned")
  case False
  then obtain r where r: "lt_place s = Looping r" "el_quit (rs_loop r)" using assms by (auto simp: quitting_def)
  obtain r' where r': "(loop_step tid spawn)\<^sup>*\<^sup>* r r'" "rs_phase r' = Stopped" using loop_finishes [OF r(2)] by blast
  note loop_steps_lift [OF r'(1) r(1), of init]
  moreover have "thread_step tid spawn init (s\<lparr>lt_place := Looping r'\<rparr>) (s\<lparr>lt_place := Looping r', lt_place := Returned\<rparr>)"
    using thread_step.returns [of "s\<lparr>lt_place := Looping r'\<rparr>" r'] r'(2) by simp
  ultimately show ?thesis by (intro exI conjI) (erule (1) rtranclp.rtrancl_into_rtrancl, simp add: join_returns_def)
qed (auto simp: join_returns_def)

section \<open>Properties\<close>



end
