(* ===== verification/Reactor.thy ===== *)
theory Reactor
  imports TcpConnection
begin

text \<open>
  A connection on the loop that really runs it: \<open>EventLoop::loop\<close> polls, lets every active channel
  handle its event and runs the functors. The locale \<open>reactor\<close> says what a component that lives on
  a loop has to keep in each of the three phases; its interpretation is a connection, whose channel
  shares the poller with the loop's wake-up channel.

  The first section shows what the operations of a connection leave alone: the other channels, the
  bookkeeping of the dispatch in progress, and (closing apart) the queued \<open>connectDestroyed\<close>.
\<close>

section \<open>What a connection leaves alone\<close>

definition badge :: "Channel option \<Rightarrow> (int \<times> 32 word \<times> bool \<times> bool) option" where
  "badge = map_option (\<lambda>c. (ch_fd c, ch_revents c, ch_tied c, ch_eventHandling c))"

definition kept :: "TcpConnection \<Rightarrow> TcpConnection \<Rightarrow> bool" where
  "kept s s' \<longleftrightarrow> tc_channel s' = tc_channel s \<and> el_activeChannels s' = el_activeChannels s \<and>
     el_currentActiveChannel s' = el_currentActiveChannel s \<and> el_eventHandling s' = el_eventHandling s \<and>
     el_pollReturnTime s' = el_pollReturnTime s \<and>
     (\<forall>b. badge (chans s' b) = badge (chans s b)) \<and>
     (\<forall>b. b \<noteq> tc_channel s \<longrightarrow> registered b s \<longrightarrow> registered b s')"

definition quiet :: "TcpConnection \<Rightarrow> TcpConnection \<Rightarrow> bool" where
  "quiet s s' \<longleftrightarrow> kept s s' \<and>
     count_list (el_pendingFunctors s') ConnectDestroyed = count_list (el_pendingFunctors s) ConnectDestroyed"

text \<open>A relation that holds of whatever an operation returns.\<close>

definition ends :: "('s \<Rightarrow> bool) \<Rightarrow> 's result \<Rightarrow> bool" where
  "ends P r \<longleftrightarrow> (\<forall>s. r = Inr s \<longrightarrow> P s)"

lemma ends_simps [simp]: "ends P (Inl e)" "ends P (Inr s) \<longleftrightarrow> P s"
  by (simp_all add: ends_def)

lemma ends_bind: "ends P m \<Longrightarrow> (\<And>u. P u \<Longrightarrow> ends Q (f u)) \<Longrightarrow> ends Q (rbind m f)"
  by (auto simp: ends_def rbind_eq_Inr_conv)

lemma ends_test: "(\<And>x. m = Inr x \<Longrightarrow> ends Q (f x)) \<Longrightarrow> ends Q (rbind m f)"
  by (auto simp: ends_def rbind_eq_Inr_conv)

lemma ends_rfold: "P s \<Longrightarrow> (\<And>x u. P u \<Longrightarrow> ends P (f x u)) \<Longrightarrow> ends P (rfold f xs s)"
  by (induction xs arbitrary: s) (auto intro: ends_bind)

lemma kept_refl [simp]: "kept s s"
  by (simp add: kept_def)

lemma kept_trans: "kept s t \<Longrightarrow> kept t u \<Longrightarrow> kept s u"
  by (simp add: kept_def)

lemma quiet_refl [simp]: "quiet s s"
  by (simp add: quiet_def)

lemma quiet_kept: "quiet s s' \<Longrightarrow> kept s s'"
  by (simp add: quiet_def)

lemma quiet_trans: "quiet s t \<Longrightarrow> quiet t u \<Longrightarrow> quiet s u"
  by (auto simp: quiet_def intro: kept_trans)

lemma kept_fields [simp]:
  "kept s (u\<lparr>tc_name := x0\<rparr>) = kept s u" "kept s (u\<lparr>tc_state := x1\<rparr>) = kept s u"
  "kept s (u\<lparr>tc_highWaterMark := x2\<rparr>) = kept s u" "kept s (u\<lparr>tc_inputBuffer := x3\<rparr>) = kept s u"
  "kept s (u\<lparr>tc_outputBuffer := x4\<rparr>) = kept s u" "kept s (u\<lparr>tc_kernel := x5\<rparr>) = kept s u"
  "kept s (u\<lparr>tc_writes := x6\<rparr>) = kept s u" "kept s (u\<lparr>tc_out := x7\<rparr>) = kept s u"
  "kept s (u\<lparr>tc_fin := x8\<rparr>) = kept s u" "kept s (u\<lparr>tc_sent := x9\<rparr>) = kept s u"
  "kept s (u\<lparr>tc_ups := x10\<rparr>) = kept s u" "kept s (u\<lparr>el_pendingFunctors := x11\<rparr>) = kept s u"
  "kept s (u\<lparr>el_wakeups := x12\<rparr>) = kept s u"
  "kept s (u\<lparr>el_callingPendingFunctors := x13\<rparr>) = kept s u"
  by (simp_all add: kept_def registered_def)

lemma quiet_fields [simp]:
  "quiet s (u\<lparr>tc_name := x0\<rparr>) = quiet s u" "quiet s (u\<lparr>tc_state := x1\<rparr>) = quiet s u"
  "quiet s (u\<lparr>tc_highWaterMark := x2\<rparr>) = quiet s u" "quiet s (u\<lparr>tc_inputBuffer := x3\<rparr>) = quiet s u"
  "quiet s (u\<lparr>tc_outputBuffer := x4\<rparr>) = quiet s u" "quiet s (u\<lparr>tc_kernel := x5\<rparr>) = quiet s u"
  "quiet s (u\<lparr>tc_writes := x6\<rparr>) = quiet s u" "quiet s (u\<lparr>tc_out := x7\<rparr>) = quiet s u"
  "quiet s (u\<lparr>tc_fin := x8\<rparr>) = quiet s u" "quiet s (u\<lparr>tc_sent := x9\<rparr>) = quiet s u"
  "quiet s (u\<lparr>tc_ups := x10\<rparr>) = quiet s u" "quiet s (u\<lparr>el_wakeups := x12\<rparr>) = quiet s u"
  by (simp_all add: quiet_def)

lemma kept_queue [simp]: "kept s (queueInLoop t f u) = kept s u"
  using queueInLoop_eq [of t f u] by auto

lemma quiet_queue [simp]: "f \<noteq> ConnectDestroyed \<Longrightarrow> quiet s (queueInLoop t f u) = quiet s u"
  using queueInLoop_eq [of t f u] by (auto simp: quiet_def)

text \<open>The loop's own operations on the channel.\<close>

lemma quiet_store:
  assumes q: "quiet s u" and a: "a = tc_channel s"
    and ch: "\<And>b. badge (x b) = badge (chans u b)"
    and reg: "\<And>b. b \<noteq> a \<Longrightarrow> registered b u \<Longrightarrow> registered b (u\<lparr>chans := x, pollfds := y, channels := z\<rparr>)"
  shows "quiet s (u\<lparr>chans := x, pollfds := y, channels := z\<rparr>)"
  using assms by (simp add: quiet_def kept_def)

lemma registered_other:
  assumes "registered b u" and "\<And>c. chans u b = Some c \<Longrightarrow> channels u (ch_fd c) = Some b \<Longrightarrow>
      z (ch_fd c) = Some b \<and> (\<exists>c'. x b = Some c' \<and> ch_fd c' = ch_fd c \<and> (0 \<le> ch_index c \<longrightarrow> 0 \<le> ch_index c'))"
  shows "registered b (u\<lparr>chans := x, pollfds := y, channels := z\<rparr>)"
  using assms by (fastforce simp: registered_def)

text \<open>The shape of what the poller does to the stores.\<close>

lemma updateChannel_shape:
  assumes "updateChannel b a s = Inr v" and "chans s a = Some c"
  shows "\<exists>i ps z. v = s\<lparr>chans := (chans s)(a \<mapsto> c\<lparr>ch_index := i\<rparr>), pollfds := ps, channels := z\<rparr> \<and>
    (z = channels s \<or> channels s (ch_fd c) = None \<and> z = (channels s)(ch_fd c \<mapsto> a))"
proof (cases "ch_index c < 0")
  case True
  let ?ps = "pollfds s @ [\<lparr>pfd_fd = ch_fd c, pfd_events = ucast (ch_events c), pfd_revents = 0\<rparr>]"
  from True assms have free: "channels s (ch_fd c) = None"
    and v: "v = s\<lparr>chans := (chans s)(a \<mapsto> c\<lparr>ch_index := int (length (pollfds s))\<rparr>), pollfds := ?ps,
      channels := (channels s)(ch_fd c \<mapsto> a)\<rparr>"
    by (auto simp: updateChannel_def rbind_eq_Inr_conv Let_def set_index_def modify_eq_Inr)
  then show ?thesis by blast
next
  case False
  with assms obtain ps where v: "v = s\<lparr>pollfds := ps\<rparr>"
    by (auto simp: updateChannel_def rbind_eq_Inr_conv Let_def)
  have "chans s = (chans s)(a \<mapsto> c\<lparr>ch_index := ch_index c\<rparr>)" using assms(2) by auto
  then have "v = s\<lparr>chans := (chans s)(a \<mapsto> c\<lparr>ch_index := ch_index c\<rparr>), pollfds := ps, channels := channels s\<rparr>"
    unfolding v by simp
  then show ?thesis by blast
qed

lemma removeChannel_shape:
  assumes "removeChannel b a s = Inr v" and "chans s a = Some c"
  shows "channels s (ch_fd c) = Some a \<and> (\<exists>x ps. v = s\<lparr>chans := x, pollfds := ps,
    channels := (channels s)(ch_fd c := None)\<rparr> \<and>
    (x = chans s \<or> (\<exists>e d i. chans s e = Some d \<and> 0 \<le> i \<and> x = (chans s)(e \<mapsto> d\<lparr>ch_index := i\<rparr>))))"
proof -
  from assms have at: "channels s (ch_fd c) = Some a" "0 \<le> ch_index c"
    by (auto simp: removeChannel_def rbind_eq_Inr_conv Let_def)
  show ?thesis
  proof (cases "nat (ch_index c) = length (pollfds s) - 1")
    case True
    with assms at have "v = s\<lparr>chans := chans s, pollfds := butlast (pollfds s),
        channels := (channels s)(ch_fd c := None)\<rparr>"
      by (auto simp: removeChannel_def rbind_eq_Inr_conv Let_def)
    with at show ?thesis by blast
  next
    case False
    let ?ps = "butlast ((pollfds s)[nat (ch_index c) := last (pollfds s),
      length (pollfds s) - 1 := pollfds s ! nat (ch_index c)])"
    from False assms at obtain e d where "chans s e = Some d"
      "v = s\<lparr>chans := (chans s)(e \<mapsto> d\<lparr>ch_index := ch_index c\<rparr>), pollfds := ?ps,
        channels := (channels s)(ch_fd c := None)\<rparr>"
      by (auto simp: removeChannel_def rbind_eq_Inr_conv Let_def set_index_def modify_eq_Inr
          split: option.splits)
    with at show ?thesis by blast
  qed
qed

lemma quiet_update:
  assumes q: "quiet s u" and a: "a = tc_channel s"
  shows "ends (quiet s) (update_events tid a f u)"
  unfolding ends_def
proof (intro allI impI)
  fix v
  assume "update_events tid a f u = Inr v"
  then obtain c b where c: "chans u a = Some c"
    and run: "updateChannel b a (u\<lparr>chans := (chans u)(a \<mapsto> ch_events_update f c)\<rparr>) = Inr v"
    by (auto simp: update_events_def modify_eq_Inr rbind_eq_Inr_conv loop_updateChannel_def)
  from updateChannel_shape [OF run] obtain i ps z where
    v: "v = u\<lparr>chans := (chans u)(a \<mapsto> ch_events_update f c\<lparr>ch_index := i\<rparr>), pollfds := ps, channels := z\<rparr>"
    and z: "z = channels u \<or> channels u (ch_fd c) = None \<and> z = (channels u)(ch_fd c \<mapsto> a)" by auto
  show "quiet s v"
    unfolding v
  proof (rule quiet_store [OF q a])
    show "badge (((chans u)(a \<mapsto> ch_events_update f c\<lparr>ch_index := i\<rparr>)) b) = badge (chans u b)" for b
      using c by (simp add: badge_def)
    show "registered b (u\<lparr>chans := (chans u)(a \<mapsto> ch_events_update f c\<lparr>ch_index := i\<rparr>), pollfds := ps,
        channels := z\<rparr>)" if "b \<noteq> a" "registered b u" for b
      using that z by (intro registered_other) auto
  qed
qed

lemma quiet_remove:
  assumes q: "quiet s u" and a: "a = tc_channel s"
  shows "ends (quiet s) (channel_remove tid a u)"
  unfolding ends_def
proof (intro allI impI)
  fix v
  assume "channel_remove tid a u = Inr v"
  then obtain c b where c: "chans u a = Some c" and run: "removeChannel b a u = Inr v"
    by (auto simp: channel_remove_def rbind_eq_Inr_conv loop_removeChannel_def)
  from removeChannel_shape [OF run c] obtain x ps where at: "channels u (ch_fd c) = Some a"
    and v: "v = u\<lparr>chans := x, pollfds := ps, channels := (channels u)(ch_fd c := None)\<rparr>"
    and x: "x = chans u \<or> (\<exists>e d i. chans u e = Some d \<and> 0 \<le> i \<and> x = (chans u)(e \<mapsto> d\<lparr>ch_index := i\<rparr>))"
    by blast
  show "quiet s v"
    unfolding v
  proof (rule quiet_store [OF q a])
    show "badge (x b) = badge (chans u b)" for b using x by (auto simp: badge_def)
    show "registered b (u\<lparr>chans := x, pollfds := ps, channels := (channels u)(ch_fd c := None)\<rparr>)"
      if "b \<noteq> a" "registered b u" for b
      using that x at by (intro registered_other) auto
  qed
qed

text \<open>The operations of the connection, from the leaves up.\<close>

lemma quiet_channel: "quiet s u \<Longrightarrow> tc_channel u = tc_channel s"
  by (simp add: quiet_def kept_def)

lemma quiet_enableWriting: "quiet s u \<Longrightarrow> a = tc_channel s \<Longrightarrow> ends (quiet s) (enableWriting tid a u)"
  by (simp add: enableWriting_def quiet_update)

lemma quiet_disableWriting: "quiet s u \<Longrightarrow> a = tc_channel s \<Longrightarrow> ends (quiet s) (disableWriting tid a u)"
  by (simp add: disableWriting_def quiet_update)

lemma quiet_disableAll: "quiet s u \<Longrightarrow> a = tc_channel s \<Longrightarrow> ends (quiet s) (disableAll tid a u)"
  by (simp add: disableAll_def quiet_update)

lemma quiet_sys_write: "quiet s u \<Longrightarrow> sys_write data u = (r, v) \<Longrightarrow> quiet s v"
  by (auto simp: sys_write_def Let_def)

lemma quiet_direct_write: "quiet s u \<Longrightarrow> direct_write tid app data u = (r, v) \<Longrightarrow> quiet s v"
  by (auto simp: direct_write_def Let_def quiet_sys_write split: prod.splits write_result.splits if_splits)

lemma quiet_buffer_rest:
  assumes "quiet s u"
  shows "ends (quiet s) (buffer_rest tid app n data u)"
proof -
  have "quiet s (check_highWaterMark tid app (length data - n) u)"
    using assms by (simp add: check_highWaterMark_def Let_def)
  then show ?thesis
    unfolding buffer_rest_def Let_def
    by (auto intro!: ends_test quiet_enableWriting simp: note_sent_def quiet_channel)
qed

lemma quiet_sendInLoop:
  assumes "quiet s u"
  shows "ends (quiet s) (sendInLoop tid app data u)"
proof -
  have "ends (quiet s) (case (if \<not> isWriting c \<and> readableBytes (tc_outputBuffer u) = 0
      then direct_write tid app data u else ((0, length data, False), u)) of ((nwrote, remaining, error), u) \<Rightarrow>
      rbind (guard (nwrote \<le> length data) msg) (\<lambda>_. if \<not> error \<and> remaining > 0
        then buffer_rest tid app nwrote data u else Inr (note_sent data (\<not> error) u)))" for c msg
  proof -
    obtain nwrote remaining error v where
      v: "(if \<not> isWriting c \<and> readableBytes (tc_outputBuffer u) = 0
        then direct_write tid app data u else ((0, length data, False), u)) = ((nwrote, remaining, error), v)"
      by (metis surj_pair)
    with assms have "quiet s v" by (auto dest: quiet_direct_write split: if_splits)
    then show ?thesis unfolding v by (auto intro!: ends_test quiet_buffer_rest simp: note_sent_def)
  qed
  with assms show ?thesis unfolding sendInLoop_def by (auto intro!: ends_test simp: note_sent_def)
qed

lemma quiet_shutdownInLoop: "quiet s u \<Longrightarrow> ends (quiet s) (shutdownInLoop tid u)"
  unfolding shutdownInLoop_def by (auto intro!: ends_test)

lemma quiet_command: "quiet s u \<Longrightarrow> ends (quiet s) (run_tcp_command t app c u)"
  by (cases c) (auto simp: run_tcp_command_def send_def shutdown_def runInLoop_def
      intro: quiet_sendInLoop quiet_shutdownInLoop)

lemma quiet_commands: "quiet s u \<Longrightarrow> ends (quiet s) (run_tcp_commands t app cs u)"
  by (rule ends_rfold) (simp_all add: quiet_command)

lemma quiet_connectionCallback: "quiet s u \<Longrightarrow> ends (quiet s) (connectionCallback tid app u)"
  by (simp add: connectionCallback_def Let_def quiet_commands)

lemma quiet_connectDestroyed:
  assumes "quiet s u"
  shows "ends (quiet s) (connectDestroyed tid app u)"
  unfolding connectDestroyed_def Let_def
proof (rule ends_test, rule ends_bind [where P = "quiet s"])
  have "ends (quiet s) (disableAll tid (tc_channel u) (u\<lparr>tc_state := kDisconnected\<rparr>))"
    using assms by (auto intro: quiet_disableAll simp: quiet_channel)
  then have "ends (quiet s) (rbind (disableAll tid (tc_channel u) (u\<lparr>tc_state := kDisconnected\<rparr>))
      (connectionCallback tid app))"
    by (rule ends_bind) (rule quiet_connectionCallback)
  with assms show "ends (quiet s) (if tc_state u = kConnected
      then rbind (disableAll tid (tc_channel (u\<lparr>tc_state := kDisconnected\<rparr>)) (u\<lparr>tc_state := kDisconnected\<rparr>))
        (connectionCallback tid app) else Inr u)" by simp
  show "ends (quiet s) (channel_remove tid (tc_channel v) v)" if "quiet s v" for v
    using that by (simp add: quiet_remove quiet_channel)
qed

lemma quiet_run_tcp: "quiet s u \<Longrightarrow> ends (quiet s) (run_tcp tid app f u)"
  by (auto simp: run_tcp_def intro: quiet_sendInLoop quiet_shutdownInLoop quiet_commands
      quiet_connectDestroyed split: tcp_functor.splits option.splits)

lemma quiet_messageCallback: "quiet s u \<Longrightarrow> ends (quiet s) (messageCallback tid app u)"
  unfolding messageCallback_def by (auto intro!: ends_test quiet_commands split: prod.splits)

lemma quiet_output_empty:
  assumes "quiet s u"
  shows "ends (quiet s) (output_empty tid app u)"
  unfolding output_empty_def Let_def
proof (rule ends_bind [where P = "quiet s"])
  show "ends (quiet s) (disableWriting tid (tc_channel u) u)"
    using assms by (simp add: quiet_disableWriting quiet_channel)
qed (auto intro: quiet_shutdownInLoop)

lemma quiet_output_written: "quiet s u \<Longrightarrow> ends (quiet s) (output_written tid app n u)"
  unfolding output_written_def Let_def by (auto intro!: ends_test quiet_output_empty)

lemma quiet_handleWrite: "quiet s u \<Longrightarrow> ends (quiet s) (tcp_handleWrite tid app u)"
  unfolding tcp_handleWrite_def
  by (auto intro!: ends_test quiet_output_written dest: quiet_sys_write split: prod.splits write_result.splits)

text \<open>Closing queues \<open>connectDestroyed\<close> and leaves the rest alone as well.\<close>

lemma ends_mono: "ends P r \<Longrightarrow> (\<And>s. P s \<Longrightarrow> Q s) \<Longrightarrow> ends Q r"
  by (simp add: ends_def)

lemma kept_handleClose:
  assumes "quiet s u"
  shows "ends (kept s) (handleClose tid app u)"
  unfolding handleClose_def Let_def
proof (rule ends_test, rule ends_test, rule ends_bind [where P = "quiet s"])
  show "ends (quiet s) (disableAll tid (tc_channel (u\<lparr>tc_state := kDisconnected\<rparr>)) (u\<lparr>tc_state := kDisconnected\<rparr>))"
    using assms by (auto intro: quiet_disableAll simp: quiet_channel)
  show "ends (kept s) (rbind (connectionCallback tid app v) (TcpConnection.closeCallback tid))" if "quiet s v" for v
    by (rule ends_bind [OF quiet_connectionCallback [OF that]]) (simp add: closeCallback_def quiet_kept)
qed

lemma kept_callback: "ends (kept s) (conn_callback tid app io k s)"
proof -
  have mono: "ends (kept s) r" if "ends (quiet s) r" for r
    using that by (rule ends_mono) (rule quiet_kept)
  have "ends (kept s) (tcp_handleRead tid app io s)"
    unfolding tcp_handleRead_def Let_def
    by (auto intro!: ends_test kept_handleClose mono [OF quiet_messageCallback] simp: handleError_def
        split: prod.splits)
  moreover have "ends (kept s) (handleClose tid app s)" by (rule kept_handleClose) simp
  moreover have "ends (kept s) (tcp_handleWrite tid app s)" by (rule mono [OF quiet_handleWrite]) simp
  ultimately show ?thesis by (cases k) (simp_all add: conn_callback_def handleError_def)
qed

section \<open>What the dispatch leaves alone\<close>

text \<open>
  The converse: while it dispatches, the loop writes the reported events and the handling flag of
  channels, the \<open>revents\<close> of entries and its own bookkeeping. None of it matters to a connection,
  provided its channel could still be removed.
\<close>

definition forget_marks :: "Channel option \<Rightarrow> Channel option" where
  "forget_marks = map_option (\<lambda>c. c\<lparr>ch_revents := 0, ch_eventHandling := False\<rparr>)"

definition marked :: "TcpConnection \<Rightarrow> TcpConnection \<Rightarrow> bool" where
  "marked s s' \<longleftrightarrow> channels s' = channels s \<and> (\<forall>b. forget_marks (chans s' b) = forget_marks (chans s b)) \<and>
     length (pollfds s') = length (pollfds s) \<and>
     (\<forall>i < length (pollfds s). pfd_fd (pollfds s' ! i) = pfd_fd (pollfds s ! i) \<and>
        pfd_events (pollfds s' ! i) = pfd_events (pollfds s ! i)) \<and>
     el_self s' = el_self s \<and> el_threadId s' = el_threadId s \<and>
     el_pendingFunctors s' = el_pendingFunctors s \<and> EventLoop.EventLoop.more s' = EventLoop.EventLoop.more s"

lemma forget_marks_cases:
  assumes "forget_marks x = forget_marks y"
  obtains "x = None" "y = None"
  | c d where "x = Some c" "y = Some d" "ch_fd c = ch_fd d" "ch_events c = ch_events d"
    "ch_index c = ch_index d" "ch_loop c = ch_loop d" "ch_tied c = ch_tied d"
proof (cases x)
  case (Some c)
  with assms obtain d where y: "y = Some d"
    and eq: "c\<lparr>ch_revents := 0, ch_eventHandling := False\<rparr> = d\<lparr>ch_revents := 0, ch_eventHandling := False\<rparr>"
    by (cases y) (auto simp: forget_marks_def)
  note proj = arg_cong [OF eq]
  show thesis
    using that(2) [OF Some y] proj [of ch_fd] proj [of ch_events] proj [of ch_index] proj [of ch_loop]
      proj [of ch_tied] by simp
qed (use that assms in \<open>auto simp: forget_marks_def\<close>)

lemma marked_channel:
  assumes "marked s s'" and "chans s b = Some d"
  obtains c where "chans s' b = Some c" "ch_fd c = ch_fd d" "ch_events c = ch_events d"
    "ch_index c = ch_index d" "ch_loop c = ch_loop d" "ch_tied c = ch_tied d"
proof -
  have "forget_marks (chans s' b) = forget_marks (chans s b)" using assms(1) by (simp add: marked_def)
  then show thesis by (rule forget_marks_cases) (use that assms(2) in auto)
qed

lemma marked_refl: "marked s s"
  by (simp add: marked_def)

lemma marked_sym: "marked s s' \<Longrightarrow> marked s' s"
  by (simp add: marked_def)

lemma marked_trans: "marked s t \<Longrightarrow> marked t u \<Longrightarrow> marked s u"
  by (simp add: marked_def)

lemma marked_registered: "marked s s' \<Longrightarrow> registered b s' \<longleftrightarrow> registered b s"
proof -
  have "registered b t'" if "marked t t'" "registered b t" for t t'
    using that(2) unfolding registered_def
    by (elim exE conjE marked_channel [OF that(1)]) (use that(1) in \<open>auto simp: marked_def\<close>)
  then show "marked s s' \<Longrightarrow> registered b s' \<longleftrightarrow> registered b s" using marked_sym by blast
qed

lemma marked_poller:
  assumes m: "marked s s'" and ok: "poller_ok s"
  shows "poller_ok s'" and "watch s' = watch s"
proof -
  have ch: "channels s' = channels s" "length (pollfds s') = length (pollfds s)"
    using m by (simp_all add: marked_def)
  have own: "owner (pollfds s' ! i) = owner (pollfds s ! i)"
      "pfd_fd (pollfds s' ! i) = pfd_fd (pollfds s ! i)" "pfd_events (pollfds s' ! i) = pfd_events (pollfds s ! i)"
      if "i < length (pollfds s)" for i
    using m that by (simp_all add: marked_def owner_def)
  have "entry_ok s' f b" if "channels s f = Some b" for f b
    using channels_entry [OF ok that] unfolding entry_ok_def
    by (elim exE conjE marked_channel [OF m]) (auto simp: ch own)
  moreover have "\<exists>b c. channels s (owner (pollfds s' ! i)) = Some b \<and> chans s' b = Some c \<and> ch_index c = int i"
    if "i < length (pollfds s)" for i
    using entry_channel [OF ok that] own [OF that]
    by (elim exE conjE marked_channel [OF m]) auto
  ultimately show "poller_ok s'" by (simp add: poller_ok_def ch)
  have "watch s' f = watch s f" for f
  proof (cases "channels s f")
    case (Some b)
    with channels_entry [OF ok Some] obtain d where d: "chans s b = Some d" "nat (ch_index d) < length (pollfds s)"
      by (auto simp: entry_ok_def)
    from m d(1) obtain c where "chans s' b = Some c" "ch_index c = ch_index d" by (rule marked_channel)
    with Some d own [OF d(2)] show ?thesis by (simp add: watch_def ch Let_def)
  qed (simp add: watch_def ch)
  then show "watch s' = watch s" by (rule ext)
qed

lemma marked_view:
  assumes m: "marked s s'" and ok: "loop_ok tid s" and rem: "removable a s' = removable a s"
  shows "loop_view tid a s' = loop_view tid a s"
proof -
  have pok: "poller_ok s" using ok by (simp add: loop_ok_def)
  note poller = marked_poller [OF m pok]
  have reg: "registered b s' = registered b s" for b using marked_registered [OF m] .
  have same: "el_self s' = el_self s" "el_threadId s' = el_threadId s" "channels s' = channels s"
    using m by (simp_all add: marked_def)
  have "ch_loop c = el_self s \<and> map_option fst (watch s (ch_fd c)) = Some (ucast (ch_events c))"
    if "registered b s" "chans s' b = Some c" for b c
  proof -
    from that(1) obtain d where d: "chans s b = Some d" by (auto simp: registered_def)
    from m d obtain c' where c': "chans s' b = Some c'" "ch_fd c' = ch_fd d" "ch_events c' = ch_events d"
      "ch_loop c' = ch_loop d" by (rule marked_channel)
    with that ok d show ?thesis by (auto simp: loop_ok_def)
  qed
  with ok poller have ok': "loop_ok tid s'" by (simp add: loop_ok_def same reg)
  have "forget_marks (chans s' a) = forget_marks (chans s a)" using m by (simp add: marked_def)
  then have "(chan_base a s' \<noteq> None) = (chan_base a s \<noteq> None) \<and> fresh a s' = fresh a s \<and>
      silenced a s' = silenced a s \<and> interest a s' = interest a s"
    by (rule forget_marks_cases)
      (auto simp: chan_base_def forget_events_def fresh_def silenced_def interest_def muted_def poller reg same)
  with ok ok' rem reg show ?thesis by (simp add: loop_view_def)
qed

lemma conn_marked:
  assumes ok: "conn_ok tid fs s" and m: "marked s s'" and rem: "removable (tc_channel s) s'"
  shows "conn_ok tid fs s'"
proof -
  have "EventLoop.EventLoop.more s' = EventLoop.EventLoop.more s" using m by (simp add: marked_def)
  then have tc: "tc_channel s' = tc_channel s" "tc_state s' = tc_state s" "tc_inputBuffer s' = tc_inputBuffer s"
    "tc_outputBuffer s' = tc_outputBuffer s" "tc_kernel s' = tc_kernel s" "tc_out s' = tc_out s"
    "tc_fin s' = tc_fin s" "tc_sent s' = tc_sent s"
    by (cases s; cases s'; simp)+
  have pend: "el_pendingFunctors s' = el_pendingFunctors s" using m by (simp add: marked_def)
  obtain l r v where v: "loop_view tid (tc_channel s) s = (l, r, v)" by (metis surj_pair)
  with ok have "l" by (cases v; cases "tc_state s") (auto simp: conn_ok_def)
  with v have "loop_ok tid s" "removable (tc_channel s) s" by (simp_all add: loop_view_def)
  with marked_view [OF m this(1)] rem have "loop_view tid (tc_channel s) s' = loop_view tid (tc_channel s) s"
    by simp
  then show ?thesis
    using ok by (simp add: conn_ok_def data_ok_def fin_ok_def enlisted_def todo_def pending_out_def accepted_def tc pend)
qed

section \<open>The interface of a loop's client\<close>

text \<open>
  \<open>idle\<close> holds between two iterations, \<open>dispatching as\<close> while the channels \<open>as\<close> are still to handle
  their events, \<open>draining fs\<close> while the functors \<open>fs\<close> of the batch are still to run; \<open>fair\<close> is what
  is assumed of one return of \<open>poll\<close>.
\<close>

locale reactor =
  fixes run :: "'f \<Rightarrow> ('f, 'z) EventLoop_scheme \<Rightarrow> ('f, 'z) EventLoop_scheme result"
    and env :: "('f, 'z) EventLoop_scheme environment"
    and idle :: "('f, 'z) EventLoop_scheme \<Rightarrow> bool"
    and dispatching :: "nat list \<Rightarrow> ('f, 'z) EventLoop_scheme \<Rightarrow> bool"
    and draining :: "'f list \<Rightarrow> ('f, 'z) EventLoop_scheme \<Rightarrow> bool"
    and fair :: "poll_return \<Rightarrow> bool"
  assumes polled: "idle s \<Longrightarrow> fair p \<Longrightarrow> \<exists>time as s'. poll (fst p) (snd p) [] s = Inr (time, as, s') \<and>
      dispatching as (s'\<lparr>el_activeChannels := as, el_pollReturnTime := time, el_eventHandling := True\<rparr>)"
    and handled: "dispatching (a # as) s \<Longrightarrow> \<exists>s'. handle_active env a s = Inr s' \<and> dispatching as s'"
    and swapped: "dispatching [] s \<Longrightarrow> draining (el_pendingFunctors s)
      (s\<lparr>el_currentActiveChannel := None, el_eventHandling := False, el_callingPendingFunctors := True,
         el_pendingFunctors := []\<rparr>)"
    and ran: "draining (f # fs) s \<Longrightarrow> \<exists>s'. run f s = Inr s' \<and> draining fs s'"
    and rested: "draining [] s \<Longrightarrow> idle (s\<lparr>el_callingPendingFunctors := False\<rparr>)"
begin

lemma dispatch_all: "dispatching as s \<Longrightarrow> \<exists>s'. rfold (handle_active env) as s = Inr s' \<and> dispatching [] s'"
proof (induction as arbitrary: s)
  case (Cons a as)
  from handled [OF Cons.prems] obtain u where "handle_active env a s = Inr u" "dispatching as u" by blast
  with Cons.IH [of u] show ?case by simp
qed simp

lemma drain_all: "draining fs s \<Longrightarrow> \<exists>s'. rfold run fs s = Inr s' \<and> draining [] s'"
proof (induction fs arbitrary: s)
  case (Cons f fs)
  from ran [OF Cons.prems] obtain u where "run f s = Inr u" "draining fs u" by blast
  with Cons.IH [of u] show ?case by simp
qed simp

lemma iteration:
  assumes "idle s" and "fair p"
  shows "\<exists>s'. loop_iteration run env p s = Inr s' \<and> idle s'"
proof -
  from polled [OF assms] obtain time as t where t: "poll (fst p) (snd p) [] s = Inr (time, as, t)"
    "dispatching as (t\<lparr>el_activeChannels := as, el_pollReturnTime := time, el_eventHandling := True\<rparr>)" by blast
  from dispatch_all [OF t(2)] obtain u where
    u: "rfold (handle_active env) as
      (t\<lparr>el_activeChannels := as, el_pollReturnTime := time, el_eventHandling := True\<rparr>) = Inr u"
      "dispatching [] u" by blast
  from drain_all [OF swapped [OF u(2)]] obtain v where
    "rfold run (el_pendingFunctors u) (u\<lparr>el_currentActiveChannel := None, el_eventHandling := False,
      el_callingPendingFunctors := True, el_pendingFunctors := []\<rparr>) = Inr v" "draining [] v" by blast
  with t(1) u(1) rested show ?thesis
    by (simp add: loop_iteration_def doPendingFunctors_def swap_functors_def Let_def)
qed

lemma looping:
  "idle s \<Longrightarrow> list_all fair ps \<Longrightarrow>
    \<exists>r. loop_while run env ps s = Inr r \<and> (\<forall>s'. r = Some s' \<longrightarrow> idle s' \<and> el_quit s')"
proof (induction ps arbitrary: s)
  case (Cons p ps)
  then obtain u where "loop_iteration run env p s = Inr u" "idle u" using iteration [of s p] by auto
  with Cons.IH [of u] Cons.prems show ?case by simp
qed simp

end

section \<open>A connection on its loop\<close>

text \<open>
  The callbacks the constructors bind: those of the connection on its channel, \<open>EventLoop::handleRead\<close>
  on the wake-up channel \<open>wake\<close>. \<open>io t\<close> is what \<open>readv\<close> returns after the \<open>poll\<close> that returned at
  time \<open>t\<close>. The connection object is alive.
\<close>

definition conn_env :: "int \<Rightarrow> tcp_app \<Rightarrow> (int \<Rightarrow> io_read) \<Rightarrow> nat \<Rightarrow> TcpConnection environment" where
  "conn_env tid app io wake a s = (True,
     if a = tc_channel s then
       \<lparr>readCallback = Some (\<lambda>t. tcp_handleRead tid app (io t)), writeCallback = Some (tcp_handleWrite tid app),
        closeCallback = Some (handleClose tid app), errorCallback = Some handleError\<rparr>
     else
       \<lparr>readCallback = (if a = wake then Some (\<lambda>t s. Inr (handleRead s)) else None), writeCallback = None,
        closeCallback = None, errorCallback = None\<rparr>)"

text \<open>A hang-up without input comes without the other reading events.\<close>

definition hup_ok :: "'a::len word \<Rightarrow> bool" where
  "hup_ok r \<longleftrightarrow> (bit r 4 \<and> \<not> bit r 0 \<longrightarrow> \<not> bit r 1 \<and> \<not> bit r 13)"

definition fair_poll :: "poll_return \<Rightarrow> bool" where
  "fair_poll p \<longleftrightarrow> (\<forall>ps. poll_contract ps (fst p ps) \<and> list_all hup_ok (snd (fst p ps)))"

definition is_open :: "TcpConnection \<Rightarrow> bool" where
  "is_open s \<longleftrightarrow> tc_state s = kConnected \<or> tc_state s = kDisconnecting"

definition on_loop :: "nat \<Rightarrow> TcpConnection \<Rightarrow> bool" where
  "on_loop wake s \<longleftrightarrow> registered wake s \<and> wake \<noteq> tc_channel s"

definition conn_draining :: "int \<Rightarrow> nat \<Rightarrow> tcp_functor list \<Rightarrow> TcpConnection \<Rightarrow> bool" where
  "conn_draining tid wake fs s \<longleftrightarrow> conn_ok tid fs s \<and> on_loop wake s \<and> \<not> el_eventHandling s \<and>
     ConnectDestroyed \<notin> set (el_pendingFunctors s)"

abbreviation conn_idle :: "int \<Rightarrow> nat \<Rightarrow> TcpConnection \<Rightarrow> bool" where
  "conn_idle tid wake \<equiv> conn_draining tid wake []"

definition conn_dispatching :: "int \<Rightarrow> nat \<Rightarrow> nat list \<Rightarrow> TcpConnection \<Rightarrow> bool" where
  "conn_dispatching tid wake as s \<longleftrightarrow>
     conn_ok tid [] (s\<lparr>el_currentActiveChannel := Some (tc_channel s)\<rparr>) \<and> on_loop wake s \<and> distinct as \<and>
     (\<forall>a \<in> set as. \<exists>c. chans s a = Some c \<and> (a = tc_channel s \<longrightarrow> hup_ok (ch_revents c) \<and> is_open s))"

lemma conn_loop_ok: "conn_ok tid fs s \<Longrightarrow> loop_ok tid s"
  by (cases "loop_view tid (tc_channel s) s"; cases "tc_state s") (auto simp: conn_ok_def loop_view_def)

lemma hup_ok_scast: "hup_ok r \<Longrightarrow> hup_ok (scast r :: 32 word)" for r :: "16 word"
  by (simp add: hup_ok_def bit_simps)

lemma hup_ok_fired: "hup_ok r \<Longrightarrow> \<not> (CloseCB \<in> set (fired r) \<and> ReadCB \<in> set (fired r))"
  by (auto simp: hup_ok_def fired_def)

text \<open>The poll.\<close>

lemma marked_stored:
  "length revs = length (pollfds s) \<Longrightarrow> marked s (s\<lparr>pollfds := store_revents revs (pollfds s)\<rparr>)"
  by (simp add: marked_def nth_store_revents) (simp add: store_revents_def)

lemma active_reported:
  assumes ok: "poller_ok s" and con: "poll_contract (pollfds s) (n, revs)"
  defines "as \<equiv> map (chan_at s) (ready (store_revents revs (pollfds s)))"
  shows "distinct as" and "a \<in> set as \<longleftrightarrow> reported s revs a"
  using ready_is_reported(1) [OF ok con, of a] ready_is_reported(2) [OF ok con]
  by (simp_all only: as_def poll_active [OF con] distinct_map set_map) simp

lemma marked_delivered:
  assumes ok: "poller_ok s" and con: "poll_contract (pollfds s) (n, revs)"
  defines "ps \<equiv> store_revents revs (pollfds s)"
  defines "t \<equiv> fold deliver (ready ps) (s\<lparr>pollfds := ps\<rparr>)"
  shows "marked s t" and "tc_channel t = tc_channel s" and "tc_state t = tc_state s"
proof -
  have "PollPoller.more t = PollPoller.more s" by (simp add: t_def fold_deliver_frame)
  then have fields: "el_self t = el_self s" "el_threadId t = el_threadId s"
    "el_pendingFunctors t = el_pendingFunctors s" "EventLoop.EventLoop.more t = EventLoop.EventLoop.more s"
    and "tc_channel t = tc_channel s" "tc_state t = tc_state s"
    by (cases s; cases t; simp)+
  then show "tc_channel t = tc_channel s" "tc_state t = tc_state s" by simp_all
  have "forget_marks (chans t b) = forget_marks (chans s b)" for b
  proof (cases "chans s b")
    case None
    then have "b \<notin> set (map (chan_at s) (ready ps))"
      using active_reported(2) [OF ok con] by (simp only: ps_def reported_def) simp
    then have "chans t b = chans (s\<lparr>pollfds := ps\<rparr>) b"
      unfolding t_def by (intro fold_deliver_other) (simp add: chan_at_def [abs_def])
    with None show ?thesis by simp
  next
    case (Some c)
    show ?thesis using poll_delivered [OF ok con Some] Some by (simp add: forget_marks_def t_def ps_def)
  qed
  moreover have "marked s (s\<lparr>pollfds := ps\<rparr>)"
    using con by (simp add: ps_def poll_contract_def marked_stored)
  ultimately show "marked s t" using fields by (simp add: marked_def t_def fold_deliver_frame)
qed

text \<open>A muted channel is never reported.\<close>

lemma reported_awake:
  assumes ok: "poller_ok s" and con: "poll_contract (pollfds s) (n, revs)" and rep: "reported s revs a"
  shows "\<exists>c. chans s a = Some c \<and> registered a s \<and> \<not> silenced a s \<and> nat (ch_index c) < length revs"
proof -
  from rep obtain c where c: "chans s a = Some c" "registered a s" "revs ! nat (ch_index c) \<noteq> 0"
    by (auto simp: reported_def)
  from registered_entry [OF ok c(2)] c(1) have e: "nat (ch_index c) < length (pollfds s)"
    "channels s (ch_fd c) = Some a" by auto
  with con c(3) have "0 \<le> pfd_fd (pollfds s ! nat (ch_index c))" "length revs = length (pollfds s)"
    by (force simp: poll_contract_def not_less [symmetric])+
  with c e show ?thesis by (simp add: silenced_def muted_def watch_def Let_def)
qed

lemma poll_marked:
  assumes ok: "poller_ok s" and ne: "pollfds s \<noteq> []" and fair: "fair_poll p"
  shows "\<exists>as s'. poll (fst p) (snd p) [] s = Inr (snd p, as, s') \<and> distinct as \<and> marked s s' \<and>
    tc_channel s' = tc_channel s \<and> tc_state s' = tc_state s \<and>
    (\<forall>a \<in> set as. \<exists>c. chans s' a = Some c \<and> hup_ok (ch_revents c) \<and> registered a s \<and> \<not> silenced a s)"
proof -
  obtain n revs where sys: "fst p (pollfds s) = (n, revs)" by (metis surj_pair)
  with fair have con: "poll_contract (pollfds s) (n, revs)" and hup: "list_all hup_ok revs"
    by (metis fair_poll_def snd_conv)+
  let ?ps = "store_revents revs (pollfds s)"
  show ?thesis
  proof (cases "0 \<le> n")
    case False
    with ne sys have "poll (fst p) (snd p) [] s = Inr (snd p, [], s\<lparr>pollfds := ?ps\<rparr>)" by (simp add: poll_def)
    with marked_stored [of revs s] con show ?thesis by (fastforce simp: poll_contract_def)
  next
    case True
    let ?as = "map (chan_at s) (ready ?ps)" and ?t = "fold deliver (ready ?ps) (s\<lparr>pollfds := ?ps\<rparr>)"
    have "\<exists>c. chans ?t a = Some c \<and> hup_ok (ch_revents c) \<and> registered a s \<and> \<not> silenced a s"
      if a: "a \<in> set ?as" for a
    proof -
      from a have "reported s revs a" by (simp only: active_reported(2) [OF ok con])
      from reported_awake [OF ok con this] obtain c where c: "chans s a = Some c" "registered a s"
        "\<not> silenced a s" "nat (ch_index c) < length revs" by blast
      then have "hup_ok (scast (revs ! nat (ch_index c)) :: 32 word)"
        using hup by (intro hup_ok_scast) (simp add: list_all_length)
      with poll_delivered [OF ok con c(1)] a c show ?thesis by simp
    qed
    with poll_run [where sys = "fst p" and now = "snd p", OF ok ne sys True con]
      active_reported(1) [OF ok con] marked_delivered [OF ok con] show ?thesis by blast
  qed
qed

lemma registered_pollfds: "poller_ok s \<Longrightarrow> registered b s \<Longrightarrow> pollfds s \<noteq> []"
  by (erule (1) registered_entry) auto

lemma conn_polled:
  assumes idle: "conn_idle tid wake s" and fair: "fair_poll p"
  shows "\<exists>time as s'. poll (fst p) (snd p) [] s = Inr (time, as, s') \<and> conn_dispatching tid wake as
      (s'\<lparr>el_activeChannels := as, el_pollReturnTime := time, el_eventHandling := True\<rparr>)"
proof -
  have ok: "conn_ok tid [] s" and wake: "registered wake s" "wake \<noteq> tc_channel s"
    using idle by (simp_all add: conn_draining_def on_loop_def)
  have pok: "poller_ok s" using conn_loop_ok [OF ok] by (simp add: loop_ok_def)
  from poll_marked [OF pok registered_pollfds [OF pok wake(1)] fair] obtain as t where
    t: "poll (fst p) (snd p) [] s = Inr (snd p, as, t)" "distinct as" "marked s t" "tc_channel t = tc_channel s"
      "tc_state t = tc_state s"
    and act: "\<And>a. a \<in> set as \<Longrightarrow> \<exists>c. chans t a = Some c \<and> hup_ok (ch_revents c) \<and> registered a s \<and> \<not> silenced a s"
    by blast
  let ?t = "t\<lparr>el_activeChannels := as, el_pollReturnTime := snd p, el_eventHandling := True\<rparr>"
  have m: "marked s (?t\<lparr>el_currentActiveChannel := Some (tc_channel ?t)\<rparr>)" using t(3) by (simp add: marked_def)
  have "is_open s" if "registered (tc_channel s) s" "\<not> silenced (tc_channel s) s"
    using ok that by (cases "tc_state s") (auto simp: conn_ok_def loop_view_def is_open_def)
  with act have "\<exists>c. chans ?t a = Some c \<and> (a = tc_channel ?t \<longrightarrow> hup_ok (ch_revents c) \<and> is_open ?t)"
    if "a \<in> set as" for a
    using that t(4,5) by (fastforce simp: is_open_def)
  moreover have "conn_ok tid [] (?t\<lparr>el_currentActiveChannel := Some (tc_channel ?t)\<rparr>)"
    using t(4) by (intro conn_marked [OF ok m]) (simp add: removable_def)
  moreover have "on_loop wake ?t"
    using marked_registered [OF t(3), of wake] wake t(4) by (simp add: on_loop_def registered_def)
  ultimately have "conn_dispatching tid wake as ?t" using t(2) by (simp add: conn_dispatching_def)
  with t(1) show ?thesis by blast
qed

text \<open>One channel handling its event: the connection's, or another one.\<close>

abbreviation env_callbacks :: "int \<Rightarrow> tcp_app \<Rightarrow> (int \<Rightarrow> io_read) \<Rightarrow> nat \<Rightarrow> nat \<Rightarrow> TcpConnection \<Rightarrow> TcpConnection callbacks" where
  "env_callbacks tid app io wake a s \<equiv> snd (conn_env tid app io wake a s)"

lemma env_own:
  assumes "a = tc_channel s"
  shows "callback_of (env_callbacks tid app io wake a s) t k = conn_callback tid app (io t) k"
  using assms by (cases k) (simp_all add: callback_of_def conn_env_def call_def conn_callback_def fun_eq_iff)

lemma env_other:
  assumes "a \<noteq> tc_channel s"
  shows "\<exists>n. callback_of (env_callbacks tid app io wake a s) t k u = Inr (u\<lparr>el_wakeups := n\<rparr>)"
proof -
  have same: "\<exists>n. (Inr u :: TcpConnection result) = Inr (u\<lparr>el_wakeups := n\<rparr>)"
    by (rule exI [of _ "el_wakeups u"]) simp
  show ?thesis
  proof (cases "k = ReadCB \<and> a = wake")
    case True
    with assms show ?thesis
      by (intro exI [of _ 0]) (simp add: callback_of_def conn_env_def call_def EventLoop.handleRead_def)
  next
    case False
    with assms have "callback_of (env_callbacks tid app io wake a s) t k u = Inr u"
      by (cases k) (simp_all add: callback_of_def conn_env_def call_def)
    with same show ?thesis by metis
  qed
qed

lemma env_keeps: "keeps_revents a (env_callbacks tid app io wake a s)"
proof -
  have "\<exists>c'. chans v a = Some c' \<and> ch_revents c' = ch_revents c"
    if "callback_of (env_callbacks tid app io wake a s) t k u = Inr v" "chans u a = Some c" for t k u v c
  proof (cases "a = tc_channel s")
    case True
    with that(1) have "kept u v" using kept_callback [of u] by (simp add: env_own ends_def)
    with that(2) show ?thesis by (auto simp: kept_def badge_def dest!: spec [of _ a])
  next
    case False
    from env_other [OF this, of tid app io wake t k u] that show ?thesis by auto
  qed
  then show ?thesis unfolding keeps_revents_def by blast
qed

lemma rfold_env_other:
  assumes "a \<noteq> tc_channel s"
  shows "\<exists>n. rfold (callback_of (env_callbacks tid app io wake a s) t) ks u = Inr (u\<lparr>el_wakeups := n\<rparr>)"
proof (induction ks arbitrary: u)
  case Nil
  have "u = u\<lparr>el_wakeups := el_wakeups u\<rparr>" by simp
  then show ?case by (metis rfold.simps(1))
next
  case (Cons k ks)
  from env_other [OF assms, of tid app io wake t k u] obtain n where
    "callback_of (env_callbacks tid app io wake a s) t k u = Inr (u\<lparr>el_wakeups := n\<rparr>)" by blast
  moreover from Cons.IH [of "u\<lparr>el_wakeups := n\<rparr>"] obtain n' where
    "rfold (callback_of (env_callbacks tid app io wake a s) t) ks (u\<lparr>el_wakeups := n\<rparr>) = Inr (u\<lparr>el_wakeups := n'\<rparr>)"
    by auto
  ultimately show ?case by auto
qed

text \<open>What one handled event comes to: the callbacks of the reported events, in order.\<close>

lemma handle_active_run:
  assumes "chans s a = Some c"
  shows "handle_active (conn_env tid app io wake) a s =
    rbind (rfold (callback_of (env_callbacks tid app io wake a s) (el_pollReturnTime s)) (fired (ch_revents c))
        (s\<lparr>el_currentActiveChannel := Some a, chans := (chans s)(a \<mapsto> c\<lparr>ch_eventHandling := True\<rparr>)\<rparr>))
      (modify a (ch_eventHandling_update (\<lambda>_. False)))"
proof -
  let ?s = "s\<lparr>el_currentActiveChannel := Some a\<rparr>"
  have env: "conn_env tid app io wake a ?s = (True, env_callbacks tid app io wake a s)"
    by (simp add: conn_env_def)
  have c: "chans ?s a = Some c" using assms by simp
  have "handleEvent a True (env_callbacks tid app io wake a s) (el_pollReturnTime s) ?s =
    rbind (rfold (callback_of (env_callbacks tid app io wake a s) (el_pollReturnTime s)) (fired (ch_revents c))
        (?s\<lparr>chans := (chans ?s)(a \<mapsto> c\<lparr>ch_eventHandling := True\<rparr>)\<rparr>))
      (modify a (ch_eventHandling_update (\<lambda>_. False)))"
    by (rule handleEvent_dispatch [OF env_keeps c]) simp
  then show ?thesis by (simp add: handle_active_def env)
qed

lemma handle_other:
  assumes d: "conn_dispatching tid wake (a # as) s" and other: "a \<noteq> tc_channel s"
  shows "\<exists>s'. handle_active (conn_env tid app io wake) a s = Inr s' \<and> conn_dispatching tid wake as s'"
proof -
  from d obtain c where c: "chans s a = Some c" by (auto simp: conn_dispatching_def)
  let ?s = "\<lambda>n. s\<lparr>el_currentActiveChannel := Some a, el_wakeups := n,
    chans := (chans s)(a \<mapsto> c\<lparr>ch_eventHandling := False\<rparr>)\<rparr>"
  from rfold_env_other [OF other, of tid app io wake "el_pollReturnTime s" "fired (ch_revents c)"
      "s\<lparr>el_currentActiveChannel := Some a, chans := (chans s)(a \<mapsto> c\<lparr>ch_eventHandling := True\<rparr>)\<rparr>"]
  obtain n where n: "rfold (callback_of (env_callbacks tid app io wake a s) (el_pollReturnTime s)) (fired (ch_revents c))
      (s\<lparr>el_currentActiveChannel := Some a, chans := (chans s)(a \<mapsto> c\<lparr>ch_eventHandling := True\<rparr>)\<rparr>) =
    Inr (s\<lparr>el_currentActiveChannel := Some a, chans := (chans s)(a \<mapsto> c\<lparr>ch_eventHandling := True\<rparr>), el_wakeups := n\<rparr>)"
    by auto
  have run: "handle_active (conn_env tid app io wake) a s = Inr (?s n)"
    unfolding handle_active_run [where s = s, OF c] n by simp
  have m: "marked (s\<lparr>el_currentActiveChannel := Some (tc_channel s)\<rparr>)
      (?s n\<lparr>el_currentActiveChannel := Some (tc_channel s)\<rparr>)"
    using c by (simp add: marked_def forget_marks_def)
  have "conn_ok tid [] (s\<lparr>el_currentActiveChannel := Some (tc_channel s)\<rparr>)"
    using d by (simp add: conn_dispatching_def)
  from conn_marked [OF this m] have "conn_ok tid [] (?s n\<lparr>el_currentActiveChannel := Some (tc_channel s)\<rparr>)"
    by (simp add: removable_def)
  moreover have "registered wake (?s n) = registered wake s" using c by (auto simp: registered_def)
  ultimately have "conn_dispatching tid wake as (?s n)"
    using d other by (auto simp: conn_dispatching_def on_loop_def is_open_def)
  with run show ?thesis by blast
qed

lemma own_event:
  assumes d: "conn_dispatching tid wake (a # as) s" and own: "a = tc_channel s" and app: "app_ok app"
    and c: "chans s a = Some c"
  defines "t \<equiv> s\<lparr>el_currentActiveChannel := Some a, chans := (chans s)(a \<mapsto> c\<lparr>ch_eventHandling := True\<rparr>)\<rparr>"
  shows "\<exists>u. rfold (conn_callback tid app io) (fired (ch_revents c)) t = Inr u \<and> conn_ok tid [] u \<and> kept t u"
proof -
  from d own c have hup: "hup_ok (ch_revents c)" and st: "tc_state t = kConnected \<or> tc_state t = kDisconnecting"
    by (auto simp: conn_dispatching_def is_open_def t_def)
  have m: "marked (s\<lparr>el_currentActiveChannel := Some (tc_channel s)\<rparr>) t"
    using c by (simp add: marked_def forget_marks_def t_def)
  have "conn_ok tid [] (s\<lparr>el_currentActiveChannel := Some (tc_channel s)\<rparr>)"
    using d by (simp add: conn_dispatching_def)
  from conn_marked [OF this m] have "conn_ok tid [] t" by (simp add: removable_def own t_def)
  from dispatch_conn [OF this st app hup_ok_fired [OF hup]] obtain u where
    u: "rfold (conn_callback tid app io) (fired (ch_revents c)) t = Inr u" "conn_ok tid [] u" by blast
  have "ends (kept t) (rfold (conn_callback tid app io) (fired (ch_revents c)) t)"
    by (rule ends_rfold) (auto intro: ends_mono [OF kept_callback] kept_trans)
  with u show ?thesis by simp
qed

text \<open>After the callbacks, with the handling flag down again, the other channels can have their turn.\<close>

lemma own_done:
  assumes d: "conn_dispatching tid wake (a # as) s" and own: "a = tc_channel s" and c: "chans s a = Some c"
    and k: "kept (s\<lparr>el_currentActiveChannel := Some a, chans := (chans s)(a \<mapsto> c\<lparr>ch_eventHandling := True\<rparr>)\<rparr>) u"
    and u: "conn_ok tid [] u" and e: "chans u a = Some e"
  shows "conn_dispatching tid wake as (u\<lparr>chans := (chans u)(a \<mapsto> e\<lparr>ch_eventHandling := False\<rparr>)\<rparr>)"
proof -
  let ?u = "u\<lparr>chans := (chans u)(a \<mapsto> e\<lparr>ch_eventHandling := False\<rparr>)\<rparr>"
  have ch: "tc_channel u = a" "el_currentActiveChannel u = Some a" using k own by (simp_all add: kept_def)
  have badge: "badge (chans u b) = badge (chans s b)" if "b \<noteq> a" for b using k that by (simp add: kept_def)
  have "marked u ?u" using e by (simp add: marked_def forget_marks_def)
  from conn_marked [OF u this] ch have ok': "conn_ok tid [] ?u" by (simp add: removable_def)
  have same: "?u\<lparr>el_currentActiveChannel := Some (tc_channel ?u)\<rparr> = ?u" using ch by simp
  have now: "conn_ok tid [] (?u\<lparr>el_currentActiveChannel := Some (tc_channel ?u)\<rparr>)" unfolding same by (rule ok')
  have rest: "distinct as" "a \<notin> set as" using d by (simp_all add: conn_dispatching_def)
  have "\<exists>c'. chans ?u b = Some c' \<and> (b = tc_channel ?u \<longrightarrow> hup_ok (ch_revents c') \<and> is_open ?u)"
    if b: "b \<in> set as" for b
  proof -
    have "b \<noteq> a" using b rest(2) by blast
    moreover obtain x where "chans s b = Some x" using d b by (auto simp: conn_dispatching_def)
    ultimately show ?thesis using badge [of b] ch by (auto simp: badge_def)
  qed
  moreover have "registered wake u"
    using d k own c by (auto simp: conn_dispatching_def on_loop_def kept_def registered_def)
  then have "on_loop wake ?u"
    using d e own ch by (auto simp: conn_dispatching_def on_loop_def registered_def)
  ultimately show ?thesis using now rest(1) unfolding conn_dispatching_def by blast
qed

lemma handle_own:
  assumes d: "conn_dispatching tid wake (a # as) s" and own: "a = tc_channel s" and app: "app_ok app"
  shows "\<exists>s'. handle_active (conn_env tid app io wake) a s = Inr s' \<and> conn_dispatching tid wake as s'"
proof -
  let ?io = "io (el_pollReturnTime s)"
  from d obtain c where c: "chans s a = Some c" by (auto simp: conn_dispatching_def)
  let ?t = "s\<lparr>el_currentActiveChannel := Some a, chans := (chans s)(a \<mapsto> c\<lparr>ch_eventHandling := True\<rparr>)\<rparr>"
  from own_event [OF d own app c, of ?io] obtain u where
    u: "rfold (conn_callback tid app ?io) (fired (ch_revents c)) ?t = Inr u" "conn_ok tid [] u" "kept ?t u" by blast
  from u(3) have "badge (chans u a) = badge (chans ?t a)" by (simp add: kept_def)
  then obtain e where e: "chans u a = Some e" by (auto simp: badge_def)
  have cbs: "callback_of (env_callbacks tid app io wake a s) (el_pollReturnTime s) = conn_callback tid app ?io"
    by (rule ext) (rule env_own [OF own])
  have "handle_active (conn_env tid app io wake) a s = Inr (u\<lparr>chans := (chans u)(a \<mapsto> e\<lparr>ch_eventHandling := False\<rparr>)\<rparr>)"
    using handle_active_run [where s = s, OF c] u(1) e by (simp add: cbs)
  with own_done [OF d own c u(3,2) e] show ?thesis by blast
qed

lemma conn_handled:
  assumes "app_ok app" and "conn_dispatching tid wake (a # as) s"
  shows "\<exists>s'. handle_active (conn_env tid app io wake) a s = Inr s' \<and> conn_dispatching tid wake as s'"
  using handle_own [OF assms(2) _ assms(1)] handle_other [OF assms(2)] by blast

text \<open>The functors.\<close>

lemma conn_swapped:
  assumes d: "conn_dispatching tid wake [] s"
  shows "conn_draining tid wake (el_pendingFunctors s)
    (s\<lparr>el_currentActiveChannel := None, el_eventHandling := False, el_callingPendingFunctors := True,
       el_pendingFunctors := []\<rparr>)"
proof -
  let ?s = "s\<lparr>el_currentActiveChannel := None, el_eventHandling := False\<rparr>"
  have m: "marked (s\<lparr>el_currentActiveChannel := Some (tc_channel s)\<rparr>) ?s" by (simp add: marked_def)
  have "conn_ok tid [] (s\<lparr>el_currentActiveChannel := Some (tc_channel s)\<rparr>)"
    using d by (simp add: conn_dispatching_def)
  from conn_marked [OF this m] have "conn_ok tid [] ?s" by (simp add: removable_def)
  then have "conn_ok tid (el_pendingFunctors s) (?s\<lparr>el_callingPendingFunctors := True, el_pendingFunctors := []\<rparr>)"
    by (simp add: conn_ok_def data_ok_def fin_ok_def todo_def pending_out_def accepted_def enlisted_def)
  with d show ?thesis by (simp add: conn_draining_def conn_dispatching_def on_loop_def registered_def)
qed

lemma draining_quiet:
  assumes "conn_draining tid wake fs s" and "quiet s s'" and "conn_ok tid fs' s'"
  shows "conn_draining tid wake fs' s'"
  using assms count_list_0_iff [of "el_pendingFunctors s" ConnectDestroyed]
    count_list_0_iff [of "el_pendingFunctors s'" ConnectDestroyed]
  by (simp add: conn_draining_def on_loop_def quiet_def kept_def)

lemma conn_ran:
  assumes d: "conn_draining tid wake (f # fs) s"
  shows "\<exists>s'. run_tcp tid app f s = Inr s' \<and> conn_draining tid wake fs s'"
proof -
  from d run_tcp_conn [of tid f fs s app] obtain s' where s': "run_tcp tid app f s = Inr s'" "conn_ok tid fs s'"
    by (auto simp: conn_draining_def)
  with quiet_run_tcp [OF quiet_refl, of s tid app f] have "quiet s s'" by simp
  with draining_quiet [OF d] s' show ?thesis by blast
qed

lemma conn_rested: "conn_idle tid wake s \<Longrightarrow> conn_idle tid wake (s\<lparr>el_callingPendingFunctors := False\<rparr>)"
  by (simp add: conn_draining_def on_loop_def registered_def conn_ok_def data_ok_def fin_ok_def todo_def
      pending_out_def accepted_def enlisted_def)

text \<open>A connection is a client of its loop, for any application.\<close>

interpretation conn_loop: reactor "run_tcp tid app" "conn_env tid app io wake"
  "\<lambda>s. app_ok app \<and> conn_idle tid wake s" "\<lambda>as s. app_ok app \<and> conn_dispatching tid wake as s"
  "\<lambda>fs s. app_ok app \<and> conn_draining tid wake fs s" fair_poll
  for tid :: int and app :: tcp_app and io :: "int \<Rightarrow> io_read" and wake :: nat
proof (unfold_locales, goal_cases)
  case (1 s p)
  with conn_polled [of tid wake s p] show ?case by simp
next
  case (2 a as s)
  with conn_handled [of app tid wake a as s io] show ?case by simp
next
  case (3 s)
  with conn_swapped [of tid wake s] show ?case by simp
next
  case (4 f fs s)
  with conn_ran [of tid wake f fs s app] show ?case by simp
next
  case (5 s)
  with conn_rested [of tid wake s] show ?case by simp
qed

section \<open>Serving\<close>

text \<open>Iterations of the loop, and calls other threads make between them.\<close>

datatype reactor_event = Turn poll_return | Foreign int tcp_command

definition reactor_step ::
  "int \<Rightarrow> tcp_app \<Rightarrow> (int \<Rightarrow> io_read) \<Rightarrow> nat \<Rightarrow> reactor_event \<Rightarrow> TcpConnection \<Rightarrow> TcpConnection result" where
  "reactor_step tid app io wake ev = (case ev of
     Turn p \<Rightarrow> loop_iteration (run_tcp tid app) (conn_env tid app io wake) p
   | Foreign t c \<Rightarrow> run_tcp_command t app c)"

definition fair_event :: "reactor_event \<Rightarrow> bool" where
  "fair_event ev = (case ev of Turn p \<Rightarrow> fair_poll p | Foreign t c \<Rightarrow> True)"

lemma reactor_step_idle:
  assumes idle: "conn_idle tid wake s" and app: "app_ok app" and ev: "fair_event ev"
  shows "\<exists>s'. reactor_step tid app io wake ev s = Inr s' \<and> conn_idle tid wake s'"
proof (cases ev)
  case (Turn p)
  with conn_loop.iteration [of app tid wake s p io] assms show ?thesis by (simp add: reactor_step_def fair_event_def)
next
  case (Foreign t c)
  from idle command_conn [of tid "[]" s t app c] obtain s' where
    s': "run_tcp_command t app c s = Inr s'" "conn_ok tid [] s'" by (auto simp: conn_draining_def)
  with quiet_command [OF quiet_refl, of s t app c] have "quiet s s'" by simp
  with draining_quiet [OF idle] s' Foreign show ?thesis by (auto simp: reactor_step_def)
qed

lemma idle_closed:
  assumes "conn_idle tid wake s" and "tc_state s = kDisconnected"
  shows "\<not> registered (tc_channel s) s"
  using assms count_list_0_iff [of "el_pendingFunctors s" ConnectDestroyed]
  by (auto simp: conn_draining_def conn_ok_def fin_ok_def todo_def enlisted_def loop_view_def split: if_splits)

lemma loop_runs:
  assumes idle: "conn_idle tid wake s" and app: "app_ok app"
  shows "\<forall>ps. list_all fair_poll ps \<and> \<not> el_looping s \<longrightarrow>
    is_ok (loop (run_tcp tid app) (conn_env tid app io wake) tid ps s)"
proof (intro allI impI, elim conjE)
  fix ps
  assume fair: "list_all fair_poll ps" and idle': "\<not> el_looping s"
  have "conn_idle tid wake (s\<lparr>el_looping := True\<rparr>)"
  proof -
    have m: "marked s (s\<lparr>el_looping := True\<rparr>)" by (simp add: marked_def)
    from idle have ok: "conn_ok tid [] s" and "\<not> el_eventHandling s" by (simp_all add: conn_draining_def)
    with conn_marked [OF ok m] idle show ?thesis
      by (simp add: conn_draining_def on_loop_def registered_def removable_def)
  qed
  with conn_loop.looping [of app tid wake "s\<lparr>el_looping := True\<rparr>" ps io] app fair obtain r where
    "loop_while (run_tcp tid app) (conn_env tid app io wake) ps (s\<lparr>el_looping := True\<rparr>) = Inr r" by blast
  moreover have "assertInLoopThread tid s = Inr ()"
    using idle conn_thread(3) [of tid "[]" s] by (simp add: conn_draining_def)
  ultimately show "is_ok (loop (run_tcp tid app) (conn_env tid app io wake) tid ps s)"
    using idle' by (simp add: loop_def)
qed


text \<open>The loop with its wake-up channel and an established connection, and a descriptor that is always readable.\<close>

definition served_conn :: TcpConnection where
  "served_conn = idle_conn\<lparr>
     chans := [5 \<mapsto> (new_channel 1 4)\<lparr>ch_events := kReadEvent, ch_index := 0\<rparr>,
       20 \<mapsto> (new_channel 1 9)\<lparr>ch_events := kReadEvent, ch_index := 1, ch_tied := True\<rparr>],
     pollfds := [\<lparr>pfd_fd = 4, pfd_events = 3, pfd_revents = 0\<rparr>, \<lparr>pfd_fd = 9, pfd_events = 3, pfd_revents = 0\<rparr>],
     channels := [4 \<mapsto> 5, 9 \<mapsto> 20], tc_state := kConnected\<rparr>"

definition readable :: "int \<Rightarrow> int \<Rightarrow> poll_return" where
  "readable fd t = ((\<lambda>ps. (int (length (filter (\<lambda>p. pfd_fd p = fd \<and> 0 \<le> fd) ps)),
     map (\<lambda>p. if pfd_fd p = fd \<and> 0 \<le> fd then 1 else 0) ps)), t)"

lemma readable_fair: "fair_poll (readable fd t)"
proof -
  have "length (filter (\<lambda>p. pfd_fd p = fd \<and> 0 \<le> fd) ps) = length (filter (\<lambda>e. e \<noteq> 0)
      (map (\<lambda>p. if pfd_fd p = fd \<and> 0 \<le> fd then 1 else 0 :: 16 word) ps))" for ps :: "pollfd list"
  proof -
    have "(\<lambda>p :: pollfd. (if pfd_fd p = fd \<and> 0 \<le> fd then 1 else 0 :: 16 word) \<noteq> 0) = (\<lambda>p. pfd_fd p = fd \<and> 0 \<le> fd)"
      by (rule ext) simp
    then show ?thesis by (simp only: filter_map length_map comp_def)
  qed
  then show ?thesis
    by (auto simp: fair_poll_def readable_def poll_contract_def hup_ok_def list_all_iff split: if_splits)
qed

lemma served_conn_idle: "conn_idle 77 5 served_conn"
proof -
  have three: "ucast kReadEvent = (3 :: 16 word)" by (simp add: kReadEvent_def poll_consts)
  have "poller_ok served_conn"
    by (auto simp: poller_defs served_conn_def new_channel_def owner_def less_Suc_eq)
  then have "loop_ok 77 served_conn"
    by (auto simp: loop_ok_def)
      (auto simp: served_conn_def idle_conn_def registered_def new_channel_def watch_def Let_def three split: if_splits)
  then have "loop_view 77 20 served_conn = (True, True, fresh 20 served_conn, True, False, kReadEvent)"
    by (simp add: loop_view_def) (simp add: served_conn_def idle_conn_def removable_def chan_base_def forget_events_def
        new_channel_def registered_def silenced_def interest_def muted_def watch_def Let_def)
  moreover have "tc_state served_conn = kConnected" "tc_channel served_conn = 20" "pending_out served_conn = []"
    by (simp_all add: served_conn_def idle_conn_def pending_out_def)
  moreover have "data_ok served_conn" "fin_ok 77 [] served_conn"
    by (simp_all add: data_ok_def fin_ok_def served_conn_def idle_conn_def pending_out_def accepted_def
        example_kernel_ok todo_def)
  ultimately have "conn_ok 77 [] served_conn" by (simp add: conn_ok_def)
  moreover have "on_loop 5 served_conn"
    by (simp add: on_loop_def registered_def served_conn_def idle_conn_def new_channel_def)
  ultimately show ?thesis by (simp add: conn_draining_def served_conn_def idle_conn_def)
qed


end
