(* ===== verification/Spec2Isabelle.thy ===== *)
theory Spec2Isabelle
  imports HttpServer TimerQueue Logging LogFile Connector TcpServer HttpConnection Inspector TcpClient Mutex ThreadObjects ThreadPool HttpWellformed LogPipeline Exception LoopThread Reactor
begin

text \<open>
  A verification development for xmuduo, a C++98 rewrite of the muduo network library: a reactor
  (\<open>muduo/net\<close>), HTTP and inspection servers on top of it (\<open>muduo/net/http\<close>, \<open>muduo/net/inspect\<close>) and a base
  library of threads, locks and logging (\<open>muduo/base\<close>).

  \<^bold>\<open>How the program is put together.\<close> An \<open>EventLoop\<close> belongs to one thread. It asks its \<open>Poller\<close> which
  descriptors have events, lets their \<open>Channel\<close>s call back, and then runs the functors that any thread may have
  queued; an eventfd wakes it for them. Its \<open>TimerQueue\<close> is one more channel, on a timerfd. A
  \<open>TcpConnection\<close> is a socket with a channel and two \<open>Buffer\<close>s on one loop. Connections are made by a
  \<open>TcpServer\<close>, through its \<open>Acceptor\<close> and an \<open>EventLoopThreadPool\<close>, or by a \<open>TcpClient\<close>, through its
  \<open>Connector\<close>. \<open>HttpServer\<close> is a pair of callbacks of a \<open>TcpServer\<close>; \<open>Inspector\<close> is a callback of an
  \<open>HttpServer\<close>. Threads share data through \<open>MutexLock\<close> and \<open>Condition\<close>, directly or through the queues, the
  latch and the thread pool; everything logs through \<open>Logger\<close>, usually into a \<open>LogFile\<close>.

  \<^bold>\<open>How it is modelled.\<close> An object is a record with the members of the class; the heap of channels, timers
  and connections is a map from addresses (natural numbers), so that a use after \<open>delete\<close> is visible. A
  member function is a function on the state of the component, in the \<open>result\<close> monad of \<open>Prelude\<close>: a
  failed \<open>assert\<close>, an abort by \<open>LOG_FATAL\<close> and undefined behaviour are error values, so that a theorem that a
  run is \<open>Inr\<close> says that none of them happens. What the operating system answers is an argument, or a
  function of the number of the call (how many bytes a \<open>write\<close> takes, which entries \<open>poll\<close> fills in, what the
  clock says), under named hypotheses that state what its manual promises. Callbacks of the user
  are arguments too. What several threads do is a step relation or a list of events, each an atomic piece
  of the code; theorems about them hold for every interleaving.

  \<^bold>\<open>Base library.\<close>
  \<^item> \<open>Prelude\<close>: the result monad, C's division, decimal numerals, \<open>std::find\<close>, \<open>std::search\<close>, \<open>std::set\<close> and
    \<open>std::map\<close> as lists.
  \<^item> \<open>Timestamp\<close>: \<open>Timestamp.h/.cc\<close>. Its order is an instance of \<open>linorder\<close>, so that timers sort by it.
  \<^item> \<open>Monitor\<close>: methods that are one critical section (\<open>BlockingQueue.h\<close>, \<open>BoundedBlockingQueue.h\<close>,
    \<open>CountDownLatch.cc\<close>) as functions to an outcome (wait, or leave with a notification), interleaved by
    \<open>monitor_step\<close>. \<open>Mutex\<close>: the same methods at the level of \<open>pthread_mutex_lock\<close>, \<open>pthread_cond_wait\<close> and
    \<open>holder_\<close> (\<open>Mutex.h\<close>, \<open>Condition.h\<close>); every run of that machine is a run of the monitor, so that what is
    proved of the sections holds of the locks (\<open>bounded_queue_locked\<close> below).
  \<^item> \<open>ThreadPool\<close>: \<open>ThreadPool.cc\<close> with the reads it does outside its lock, its workers and callers, and
    tasks that throw. \<open>ThreadObjects\<close>: \<open>Atomic.h\<close>, \<open>Singleton.h\<close>, \<open>ThreadLocal.h\<close>, \<open>ThreadLocalSingleton.h\<close>;
    the locale \<open>per_thread\<close> is the contract of the last two.
  \<^item> \<open>LogStream\<close>, \<open>Logging\<close> (with \<open>Thread.cc\<close> and \<open>CurrentThread.h\<close>), \<open>LogFile\<close>, and \<open>LogPipeline\<close>, which puts
    them together: the locale \<open>log_sink\<close> is what a logger needs of \<open>g_output\<close> and \<open>g_flush\<close>, and both standard
    output and a \<open>LogFile\<close> provide it.
  \<^item> \<open>StringPiece\<close>, \<open>FileUtil\<close>, \<open>ProcessInfo\<close>, \<open>Exception\<close>: the files of the same name.

  \<^bold>\<open>Network library.\<close>
  \<^item> \<open>Endian\<close>, \<open>Buffer\<close>: integers at their width (\<open>64 word\<close>, \<open>32 word\<close>, \<open>16 word\<close>) and the byte buffer with its
    two indices; the locale \<open>byte_queue\<close> is its contract, a queue of bytes.
  \<^item> \<open>InetAddress\<close>: \<open>SocketsOps.cc\<close>, \<open>InetAddress.cc\<close>, \<open>Socket.cc\<close>.
  \<^item> \<open>Channel\<close>, \<open>PollPoller\<close>, \<open>EventLoop\<close>: a channel and its dispatch, the vector of \<open>pollfd\<close> with the map of
    channels, and the loop. The abstraction \<open>watch\<close> of the poller is the map from descriptors to the
    events they are watched for; the locale \<open>event_registry\<close> is what connections, connectors and timers rely
    on. \<open>loop_step\<close> interleaves a loop with other threads. \<open>LoopThread\<close>: the life of an \<open>EventLoopThread\<close> with its
    owner.
  \<^item> \<open>TimerQueue\<close>: \<open>TimerQueue.cc\<close>, \<open>Timer.cc\<close>, on the state of the loop. \<open>EventLoopThread\<close>: the rendezvous of
    \<open>startLoop\<close> and the round robin of \<open>EventLoopThreadPool.cc\<close>.
  \<^item> \<open>TcpConnection\<close>: its state extends that of the loop. \<open>Connector\<close>, \<open>TcpServer\<close> (with \<open>Acceptor.cc\<close>) and
    \<open>TcpClient\<close>: the objects that make connections, with all loops and threads involved; a server and a client
    see only the life of a connection, and \<open>TcpServer.connection_life\<close> shows that \<open>TcpConnection\<close> leads it.
    \<open>Reactor\<close>: a connection and the wake-up channel under \<open>EventLoop::loop\<close> itself; the locale \<open>reactor\<close> says
    what a client keeps while the loop polls, dispatches and drains.
  \<^item> \<open>HttpRequest\<close>, \<open>HttpServer\<close>, \<open>HttpWellformed\<close>, \<open>HttpConnection\<close>: the parser of \<open>HttpServer.cc\<close> with
    \<open>HttpRequest.h\<close> and \<open>HttpContext.h\<close>, the handlers with \<open>HttpResponse.cc\<close>, the type invariant of what the user's
    callback sees, and a request end to end over a \<open>TcpConnection\<close>. \<open>Inspector\<close>: \<open>Inspector.cc\<close> and
    \<open>ProcessInspector.cc\<close>; the locale \<open>registry\<close> is the contract of its two-level table of commands.
\<close>

text \<open>
  \<^bold>\<open>What is shown.\<close>
  \<^item> Invariants that every operation keeps, for any traffic: the stream of a connection (what the kernel took,
    then the output buffer, are the accepted messages in order), the registration of channels, the timers and
    their two sets, the lists of server and client, the bounds of the log buffer.
  \<^item> Safety: no assertion of the modelled code can fail and nothing deleted is used, for connections, servers,
    clients and connectors that are used as their interfaces ask. Where the code does break its contract, the
    theorem has the hypothesis that excludes it, and a lemma or property shows the defect.
  \<^item> Refinement: the buffer is a queue of bytes, the poller a map from descriptors to events, the log stream
    a bounded list of items, the locks atomic sections.
  \<^item> Liveness and termination: no wake-up of a loop or of a queue is lost, the output of a connection drains,
    \<open>quit\<close> ends a loop and \<open>stop\<close> a thread pool, and the parser returns exactly when it waits for a line. Its
    loop is a \<open>partial_function (option)\<close>, since on a finished request the code does loop for ever; all other
    loops are total functions.
  \<^item> Round trips: request and parser, address and text, integers and their numerals.

  \<^bold>\<open>Bounds.\<close> A line of the log leaves 33 bytes of its 4000 byte buffer free (\<open>LogStream\<close> wants a free
  \<open>kMaxNumericSize\<close> before it prints a number); thread ids have at most five digits, as \<open>cacheTid\<close> asserts; the
  names of connections are unique up to the 100,000,000th, after which \<open>newConnection\<close> cuts them; a buffer stays below
  the 64 bit limit. There is no fuel: a run of a loop takes the list of what \<open>poll\<close> returned, and \<open>None\<close> means
  that the loop is still running.

  \<^bold>\<open>Not modelled.\<close> The classes \<open>copyable\<close> and the typedefs and casts of \<open>Types.h\<close> and \<open>Callbacks.h\<close> have no
  behaviour. \<open>EpollPoller\<close> is an empty file. Reference counts of \<open>shared_ptr\<close> appear only where a callback is
  tied to an object (\<open>Channel\<close>) and where the last reference of a connection goes (\<open>TcpClient\<close>). Data races are
  sequentially consistent interleavings. Log lines are left out of the components that print them, except where
  they abort; \<open>ignore SIGPIPE\<close>, socket options and the creation of descriptors are system calls without effect on
  the modelled state. A \<open>double\<close> is a rational number, and the text of one in a log line is given. The
  destructors that only release memory or descriptors nobody else sees are left out, as are the instantiations
  of templates and \<open>Fmt\<close>'s format strings. The programs under \<open>tests\<close> are examples of use.
\<close>

section \<open>Properties across components\<close>

text \<open>
  C20. \<open>BoundedBlockingQueue\<close> on its real locks is a bounded first-in-first-out channel. Let any number of threads
  call \<open>put\<close> and \<open>take\<close>, each step being one call of the mutex, of a condition variable or one store to
  \<open>holder_\<close>, with wake-ups for no reason: what was taken is a prefix of what was put, at most \<open>maxSize\<close> elements
  are in between, at most one thread owns the mutex, and no thread sleeps although its call could proceed,
  unless another one is on its way whose call can proceed as well.
\<close>

theorem bounded_queue_locked:
  assumes "(machine_step (bbq_section maxSize) tids)\<^sup>*\<^sup>* (new_machine n []) m"
  shows "puts (mhistory m) = takes (mhistory m) @ mshared m \<and> length (mshared m) \<le> maxSize \<and>
    (\<forall>i < length (places m). \<forall>j < length (places m). owning (places m ! i) \<longrightarrow> owning (places m ! j) \<longrightarrow> i = j) \<and>
    nobody_stuck (bbq_section maxSize) (abs_machine m)"
proof -
  from machine_refines [OF assms] have reach: "reachable (bbq_section maxSize) n [] (abs_machine m)"
    and inv: "machine_inv tids m" by blast+
  from queue_inv_reachable [OF reach] have "queue_inv maxSize (abs_machine m)" .
  with queue_not_stuck [OF this] inv show ?thesis
    by (auto simp: queue_inv_def machine_inv_def abs_machine_def)
qed

theorem bounded_queue_locked_witness:
  "\<exists>m. (machine_step (bbq_section 1) int)\<^sup>*\<^sup>* (new_machine 2 []) m \<and> Mutex.at 0 (AtLock (Put (7 :: nat))) m \<and>
    nobody_stuck (bbq_section 1) (abs_machine m)"
proof -
  let ?m = "goto 0 (AtLock (Put (7 :: nat))) (new_machine 2 []) :: (nat queue_op, queue_cv, nat list, nat option) machine"
  have "machine_step (bbq_section 1) int (new_machine 2 []) ?m" by (rule mcall) simp
  then have run: "(machine_step (bbq_section 1) int)\<^sup>*\<^sup>* (new_machine 2 []) ?m"
    by (rule r_into_rtranclp [where r = "machine_step (bbq_section 1) int"])
  moreover have "Mutex.at 0 (AtLock (Put 7)) ?m" by (simp add: at_def goto_def new_machine_def)
  moreover have "nobody_stuck (bbq_section 1) (abs_machine ?m)" using bounded_queue_locked [OF run] by blast
  ultimately show ?thesis by blast
qed

end
